(* ===== verification/Prelude.thy ===== *)
theory Prelude
  imports Main "HOL-Library.Monad_Syntax" "HOL-Library.Word" "HOL-Library.Signed_Division"
begin

text \<open>
  Shared vocabulary of the development: C arrays with checked subscripts, linear search
  loops, C strings in fixed-size arrays, and the little-endian layout of 32-bit integers.

  Conventions used by every component.
  \<^item> A byte (C \<open>char\<close>) is a HOL \<open>char\<close>; a C string is a \<open>string\<close> without its terminating NUL.
  \<^item> A computation that C leaves undefined (a subscript out of range, a dereference of a null
    or freed pointer, a read of an uninitialised variable) is \<open>None\<close>; the error codes of
    the program are ordinary results under \<open>Some\<close>.
  \<^item> Only the signed integers whose range the code can leave carry a width; the unsigned types
    \<open>unsigned int\<close> and \<open>size_t\<close> are words.
\<close>

type_synonym byte = char
type_synonym u32 = "32 word"
type_synonym u64 = "64 word"

abbreviation NUL :: byte where
  "NUL \<equiv> CHR 0x00"

named_theorems c_array \<open>reads and writes of C arrays\<close>
named_theorems c_layout \<open>sizes of encoded structures\<close>


section \<open>Arrays with checked subscripts\<close>

definition array_get :: "'a list \<Rightarrow> int \<Rightarrow> 'a option" where
  "array_get xs i = (if 0 \<le> i \<and> i < int (length xs) then Some (xs ! nat i) else None)"

definition array_set :: "'a list \<Rightarrow> int \<Rightarrow> 'a \<Rightarrow> 'a list option" where
  "array_set xs i v = (if 0 \<le> i \<and> i < int (length xs) then Some (xs[nat i := v]) else None)"

lemma array_get_in [c_array]: "0 \<le> i \<Longrightarrow> i < int (length xs) \<Longrightarrow> array_get xs i = Some (xs ! nat i)"
  by (simp add: array_get_def)

lemma array_set_in [c_array]: "0 \<le> i \<Longrightarrow> i < int (length xs) \<Longrightarrow> array_set xs i v = Some (xs[nat i := v])"
  by (simp add: array_set_def)

lemma array_get_int [simp]: "array_get xs (int n) = (if n < length xs then Some (xs ! n) else None)"
  by (simp add: array_get_def)

lemma array_get_eq_Some: "array_get xs i = Some x \<longleftrightarrow> 0 \<le> i \<and> i < int (length xs) \<and> x = xs ! nat i"
  by (auto simp: array_get_def)

lemma array_get_eq_None: "array_get xs i = None \<longleftrightarrow> i < 0 \<or> int (length xs) \<le> i"
  by (auto simp: array_get_def)

lemma array_set_eq_Some:
  "array_set xs i v = Some ys \<longleftrightarrow> 0 \<le> i \<and> i < int (length xs) \<and> ys = xs[nat i := v]"
  by (auto simp: array_set_def)


text \<open>A quantifier over an array with one element replaced.\<close>

lemma ex_list_update:
  assumes "k < length xs"
  shows "(\<exists>i<length xs. P (xs[k := x] ! i)) \<longleftrightarrow> P x \<or> (\<exists>i<length xs. i \<noteq> k \<and> P (xs ! i))"
proof
  assume "\<exists>i<length xs. P (xs[k := x] ! i)"
  then show "P x \<or> (\<exists>i<length xs. i \<noteq> k \<and> P (xs ! i))"
    using assms by (auto simp: nth_list_update split: if_splits)
next
  assume "P x \<or> (\<exists>i<length xs. i \<noteq> k \<and> P (xs ! i))"
  then show "\<exists>i<length xs. P (xs[k := x] ! i)"
  proof
    assume "P x"
    with assms show ?thesis by (intro exI [of _ k]) simp
  next
    assume "\<exists>i<length xs. i \<noteq> k \<and> P (xs ! i)"
    then obtain i where "i < length xs" "i \<noteq> k" "P (xs ! i)" by blast
    then show ?thesis by (intro exI [of _ i]) simp
  qed
qed


section \<open>Linear search\<close>

text \<open>The index of the first element that satisfies the loop's test, as the counting loops
  \<open>for (i = 0; i < n; i++) if (test) break;\<close> of the sources compute it.\<close>

fun find_idx :: "('a \<Rightarrow> bool) \<Rightarrow> 'a list \<Rightarrow> nat option" where
  "find_idx P [] = None"
| "find_idx P (x # xs) = (if P x then Some 0 else map_option Suc (find_idx P xs))"

lemma find_idx_None: "find_idx P xs = None \<longleftrightarrow> (\<forall>x\<in>set xs. \<not> P x)"
  by (induction xs) auto

lemma find_idx_Some:
  "find_idx P xs = Some i \<longleftrightarrow> i < length xs \<and> P (xs ! i) \<and> (\<forall>j<i. \<not> P (xs ! j))"
proof (induction xs arbitrary: i)
  case Nil
  then show ?case by simp
next
  case (Cons x xs)
  then show ?case
    by (cases i) (auto simp: less_Suc_eq_0_disj)
qed

lemma find_idx_SomeD:
  assumes "find_idx P xs = Some i"
  shows "i < length xs" "P (xs ! i)"
  using assms by (simp_all add: find_idx_Some)

lemma find_idx_unique:
  assumes "i < length xs" "P (xs ! i)" "\<And>j. j < length xs \<Longrightarrow> P (xs ! j) \<Longrightarrow> j = i"
  shows "find_idx P xs = Some i"
proof -
  have "\<not> P (xs ! j)" if "j < i" for j
    using assms(1) assms(3) [of j] that by auto
  with assms(1,2) show ?thesis by (simp add: find_idx_Some)
qed

lemma find_distinct_map:
  assumes "distinct (map f xs)" "q \<in> set xs"
  shows "find (\<lambda>x. f x = f q) xs = Some q"
  using assms by (induction xs) force+

lemma find_idx_cong:
  assumes "length xs = length ys" "\<And>i. i < length xs \<Longrightarrow> P (xs ! i) \<longleftrightarrow> Q (ys ! i)"
  shows "find_idx P xs = find_idx Q ys"
  using assms
proof (induction xs ys rule: list_induct2)
  case (Cons x xs y ys)
  have "P x \<longleftrightarrow> Q y" using Cons.prems [of 0] by simp
  moreover have "find_idx P xs = find_idx Q ys" using Cons.prems [of "Suc i" for i] by (intro Cons.IH) simp
  ultimately show ?case by simp
qed simp

text \<open>The same search when the test itself may be undefined.\<close>

fun find_idx_m :: "('a \<Rightarrow> bool option) \<Rightarrow> 'a list \<Rightarrow> nat option option" where
  "find_idx_m P [] = Some None"
| "find_idx_m P (x # xs) = do {
     b \<leftarrow> P x;
     if b then Some (Some 0) else map_option (map_option Suc) (find_idx_m P xs)
   }"

lemma find_idx_m_total:
  "(\<And>x. x \<in> set xs \<Longrightarrow> P x = Some (Q x)) \<Longrightarrow> find_idx_m P xs = Some (find_idx Q xs)"
  by (induction xs) auto


section \<open>C strings\<close>

text \<open>The string held by a character array, and \<open>strcmp(s, a) == 0\<close> for a string \<open>s\<close> and
  the bytes \<open>a\<close> of an array: the comparison stops at the first difference, and runs off
  the array (undefined) when neither a difference nor a NUL is met.\<close>

definition cstr :: "byte list \<Rightarrow> string" where
  "cstr a = takeWhile (\<lambda>c. c \<noteq> NUL) a"

fun strcmp_eq :: "string \<Rightarrow> byte list \<Rightarrow> bool option" where
  "strcmp_eq s [] = None"
| "strcmp_eq [] (c # cs) = Some (c = NUL)"
| "strcmp_eq (x # xs) (c # cs) = (if x = c then strcmp_eq xs cs else Some False)"

lemma strcmp_eq_cstr:
  "NUL \<in> set a \<Longrightarrow> NUL \<notin> set s \<Longrightarrow> strcmp_eq s a = Some (s = cstr a)"
  by (induction s a rule: strcmp_eq.induct) (auto simp: cstr_def)

text \<open>\<open>strcpy(a, s)\<close> into an array: the string, its NUL, and the old bytes after it.\<close>

definition strcpy :: "byte list \<Rightarrow> string \<Rightarrow> byte list option" where
  "strcpy a s = (if length s < length a then Some (s @ NUL # drop (Suc (length s)) a) else None)"

lemma strcpy_cstr: "strcpy a s = Some a' \<Longrightarrow> NUL \<notin> set s \<Longrightarrow> cstr a' = s \<and> length a' = length a \<and> NUL \<in> set a'"
  by (auto simp: strcpy_def cstr_def takeWhile_append split: if_splits)

text \<open>\<open>memset(a, '\0', n)\<close>.\<close>

definition memset0 :: "byte list \<Rightarrow> nat \<Rightarrow> byte list" where
  "memset0 a n = replicate n NUL @ drop n a"


text \<open>\<open>memcpy(a + off, src, length src)\<close> into an array.\<close>

definition memcpy :: "byte list \<Rightarrow> nat \<Rightarrow> byte list \<Rightarrow> byte list option" where
  "memcpy a off src =
     (if off + length src \<le> length a then Some (take off a @ src @ drop (off + length src) a) else None)"

lemma memcpy_length: "memcpy a off src = Some a' \<Longrightarrow> length a' = length a"
  by (auto simp: memcpy_def split: if_splits)


section \<open>Conversions between int and size_t\<close>

definition size_of_int :: "int \<Rightarrow> u64" where
  "size_of_int i = word_of_int i"

definition int_of_size :: "u64 \<Rightarrow> int" where
  "int_of_size w = sint (ucast w :: u32)"

definition int_of_off :: "int \<Rightarrow> int" where
  "int_of_off x = sint (word_of_int x :: u32)"

lemma unat_size_of_int [simp]:
  assumes "0 \<le> i" "i < 2 ^ 63"
  shows "unat (size_of_int i) = nat i"
proof -
  have "uint (size_of_int i) = i"
    using assms by (simp add: size_of_int_def uint_word_of_int)
  then show ?thesis by (simp only: unat_eq_nat_uint)
qed

lemma int_of_off_small: "- (2 ^ 31) \<le> x \<Longrightarrow> x < 2 ^ 31 \<Longrightarrow> int_of_off x = x"
  by (simp add: int_of_off_def int_word_sint)

lemma int_of_size_small:
  assumes "unat w < 2 ^ 31"
  shows "int_of_size w = int (unat w)"
proof -
  have "(ucast w :: u32) = word_of_int (uint w)" by (rule ucast_eq)
  then have "int_of_size w = int_of_off (uint w)" by (simp only: int_of_size_def int_of_off_def)
  also have "\<dots> = int (unat w)"
  proof -
    obtain n where n: "unat w = n" by blast
    then have "uint w = int n" by (simp flip: n)
    with n assms show ?thesis by (simp only:) (rule int_of_off_small, simp_all)
  qed
  finally show ?thesis .
qed

lemma scast_small:
  assumes "unat (i :: u32) < 2 ^ 31"
  shows "unat (scast i :: u64) = unat i"
proof -
  obtain n where n: "unat i = n" by blast
  then have u: "uint i = int n" by (simp flip: n)
  have "sint i = int_of_off (uint i)" by (simp add: int_of_off_def)
  also have "\<dots> = uint i" unfolding u by (rule int_of_off_small) (use assms n in simp_all)
  finally have "(scast i :: u64) = ucast i" by (simp only: scast_eq ucast_eq)
  moreover have "take_bit 64 (unat i) = unat i" using assms by (intro take_bit_nat_eq_self) simp
  ultimately show ?thesis by (simp add: unsigned_ucast_eq)
qed

lemma unat_Suc_less:
  assumes "(i :: 'a :: len word) < b"
  shows "unat (i + 1) = unat i + 1"
proof -
  have "unat b < 2 ^ LENGTH('a)" by (rule unsigned_less)
  then have "unat i + 1 < 2 ^ LENGTH('a)"
    using assms unfolding word_less_nat_alt by linarith
  moreover have "unat (1 :: 'a word) = 1" by simp
  ultimately show ?thesis using unat_add_lem [of i "1 :: 'a word"] by simp
qed

lemma sdiv_nonneg: "0 \<le> (a :: int) \<Longrightarrow> 0 < b \<Longrightarrow> a sdiv b = a div b"
  by (cases "a = 0") (simp_all add: signed_divide_int_def)


section \<open>Little-endian 32-bit integers\<close>

definition enc32 :: "int \<Rightarrow> byte list" where
  "enc32 x = (let u = nat (x mod 2 ^ 32) in
     [char_of u, char_of (u div 256), char_of (u div 65536), char_of (u div 16777216)])"

definition dec32 :: "byte list \<Rightarrow> int" where
  "dec32 bs = (let u = of_char (bs ! 0) + 256 * of_char (bs ! 1) + 65536 * of_char (bs ! 2)
                       + 16777216 * of_char (bs ! 3) :: nat
               in if u < 2 ^ 31 then int u else int u - 2 ^ 32)"

definition int32 :: "int \<Rightarrow> bool" where
  "int32 x \<longleftrightarrow> - (2 ^ 31) \<le> x \<and> x < 2 ^ 31"

lemma length_enc32 [simp, c_layout]: "length (enc32 x) = 4"
  by (simp add: enc32_def Let_def)

lemma le_bytes:
  fixes u :: nat
  assumes "u < 2 ^ 32"
  shows "u mod 256 + 256 * (u div 256 mod 256) + 65536 * (u div 65536 mod 256)
           + 16777216 * (u div 16777216 mod 256) = u"
proof -
  have "u div 16777216 mod 256 = u div 16777216"
    using assms by (simp add: less_mult_imp_div_less)
  moreover have "u div 65536 = u div 16777216 * 256 + u div 65536 mod 256"
    using div_mult_mod_eq [of "u div 65536" 256] by (simp add: div_mult2_eq [symmetric])
  moreover have "u div 256 = u div 65536 * 256 + u div 256 mod 256"
    using div_mult_mod_eq [of "u div 256" 256] by (simp add: div_mult2_eq [symmetric])
  moreover have "u = u div 256 * 256 + u mod 256"
    by simp
  ultimately show ?thesis
    by linarith
qed

lemma dec32_enc32:
  assumes x: "int32 x"
  shows "dec32 (enc32 x) = x"
proof -
  define u where "u = nat (x mod 2 ^ 32)"
  have u: "u < 2 ^ 32"
    by (simp add: u_def nat_less_iff)
  have "dec32 (enc32 x) = (if u < 2 ^ 31 then int u else int u - 2 ^ 32)"
    unfolding dec32_def enc32_def u_def [symmetric] Let_def
    by (simp only: nth_Cons_0 nth_Cons_numeral One_nat_def nth_Cons_Suc of_char_of numeral_2_eq_2
        numeral_3_eq_3 le_bytes [OF u])
  also have "\<dots> = x"
  proof (cases "0 \<le> x")
    case True
    with x have "x mod 2 ^ 32 = x" by (simp add: int32_def)
    with True x show ?thesis by (simp add: int32_def u_def nat_less_iff)
  next
    case False
    with x have "x mod 2 ^ 32 = x + 2 ^ 32"
      by (intro int_mod_pos_eq [where q = "-1"]) (auto simp: int32_def)
    with False x show ?thesis by (simp add: int32_def u_def nat_less_iff)
  qed
  finally show ?thesis .
qed


section \<open>Arrays of fixed-width records\<close>

definition chunk :: "nat \<Rightarrow> nat \<Rightarrow> 'a list \<Rightarrow> 'a list" where
  "chunk w i bs = take w (drop (w * i) bs)"

definition decode_array :: "nat \<Rightarrow> (byte list \<Rightarrow> 'a) \<Rightarrow> nat \<Rightarrow> byte list \<Rightarrow> 'a list" where
  "decode_array w dec n bs = map (\<lambda>i. dec (chunk w i bs)) [0..<n]"

lemma length_decode_array [simp, c_layout]: "length (decode_array w dec n bs) = n"
  by (simp add: decode_array_def)

lemma chunk_concat:
  assumes "\<And>x. x \<in> set xs \<Longrightarrow> length x = w" and "i < length xs"
  shows "chunk w i (concat xs @ ys) = xs ! i"
  using assms
proof (induction xs arbitrary: i)
  case Nil
  then show ?case by simp
next
  case (Cons x xs)
  then show ?case
    by (cases i) (simp_all add: chunk_def)
qed

lemma length_concat_map_const [c_layout]:
  "(\<And>x. x \<in> set xs \<Longrightarrow> length (f x) = w) \<Longrightarrow> length (concat (map f xs)) = w * length xs"
  by (induction xs) auto

lemma decode_array_concat:
  assumes w: "\<And>x. x \<in> set xs \<Longrightarrow> length (enc x) = w"
    and rt: "\<And>x. x \<in> set xs \<Longrightarrow> dec (enc x) = x"
    and n: "n \<le> length xs"
  shows "decode_array w dec n (concat (map enc xs) @ ys) = take n xs"
proof (rule nth_equalityI)
  show "length (decode_array w dec n (concat (map enc xs) @ ys)) = length (take n xs)"
    using n by simp
next
  fix i
  assume "i < length (decode_array w dec n (concat (map enc xs) @ ys))"
  then have i: "i < n" "i < length xs" using n by simp_all
  have "chunk w i (concat (map enc xs) @ ys) = enc (xs ! i)"
    using i w by (subst chunk_concat) auto
  then show "decode_array w dec n (concat (map enc xs) @ ys) ! i = take n xs ! i"
    using i rt by (simp add: decode_array_def)
qed


section \<open>Overwriting a part of a byte sequence\<close>

definition splice :: "nat \<Rightarrow> byte list \<Rightarrow> byte list \<Rightarrow> byte list" where
  "splice off data c = take off c @ data @ drop (off + length data) c"

lemma splice_Nil [simp]: "splice off [] c = c"
  by (simp add: splice_def)

lemma length_splice: "off + length data \<le> length c \<Longrightarrow> length (splice off data c) = length c"
  by (simp add: splice_def)

lemma splice_Cons: "off < length c \<Longrightarrow> splice (Suc off) data (c[off := b]) = splice off (b # data) c"
  by (simp add: splice_def take_Suc_conv_app_nth drop_update_swap take_update_swap list_update_append)

lemma take_drop_splice:
  "off + length data \<le> length c \<Longrightarrow> take (length data) (drop off (splice off data c)) = data"
  by (simp add: splice_def)

lemma concat_map_update:
  assumes "\<And>p. p \<in> set ps \<Longrightarrow> length (f p) = w" "distinct ps" "i < length ps" "j < w"
  shows "concat (map (\<lambda>p. if p = ps ! i then (f p)[j := b] else f p) ps) = (concat (map f ps))[i * w + j := b]"
  using assms
proof (induction ps arbitrary: i)
  case Nil
  then show ?case by simp
next
  case (Cons q ps)
  show ?case
  proof (cases i)
    case 0
    then have "map (\<lambda>p. if p = q then (f p)[j := b] else f p) ps = map f ps" using Cons.prems(2) by auto
    then have "concat (map (\<lambda>p. if p = q then (f p)[j := b] else f p) ps) = concat (map f ps)" by (simp only:)
    with 0 Cons.prems show ?thesis by (simp add: list_update_append)
  next
    case (Suc k)
    then have "(q # ps) ! i = ps ! k" "k < length ps" "ps ! k \<noteq> q" using Cons.prems by auto
    with Suc Cons.IH [of k] Cons.prems show ?thesis by (simp add: list_update_append add.assoc)
  qed
qed

lemma concat_map_nth:
  assumes "\<And>p. p \<in> set ps \<Longrightarrow> length (f p) = w" "i < length ps" "j < w"
  shows "concat (map f ps) ! (i * w + j) = f (ps ! i) ! j"
  using assms
proof (induction ps arbitrary: i)
  case (Cons q ps)
  then show ?case by (cases i) (auto simp: nth_append add.assoc)
qed simp

lemma find_SomeD: "find P xs = Some x \<Longrightarrow> x \<in> set xs \<and> P x"
  by (auto simp: find_Some_iff)

end
