(* ===== verification/Disk.thy ===== *)
theory Disk
  imports Prelude
begin

text \<open>
  The virtual disk of project 5 (\<^verbatim>\<open>disk.c\<close>, \<^verbatim>\<open>disk.h\<close>): a file of the host system that is
  accessed in blocks. The host's files are byte sequences; \<open>open\<close>, \<open>lseek\<close>, \<open>read\<close> and
  \<open>write\<close> succeed or fail as the environment \<open>os\<close> says, which is a parameter of every
  operation (a host \<open>write\<close> stores all its bytes or fails; a \<open>read\<close> stops at the end
  of the file). The locale \<open>block_device\<close> is what the file system relies on.
\<close>

definition DISK_BLOCKS :: nat where
  "DISK_BLOCKS = 8192"

definition BLOCK_SIZE :: nat where
  "BLOCK_SIZE = 4096"

lemma BLOCK_SIZE_pos [simp]: "0 < BLOCK_SIZE" "BLOCK_SIZE \<noteq> 0"
  by (simp_all add: BLOCK_SIZE_def)


section \<open>Files of the host system\<close>

record hostfile =
  flen :: nat
  fdata :: "nat \<Rightarrow> byte"

definition empty_file :: hostfile where
  "empty_file = \<lparr>flen = 0, fdata = (\<lambda>_. NUL)\<rparr>"

definition host_read :: "nat \<Rightarrow> nat \<Rightarrow> hostfile \<Rightarrow> byte list" where
  "host_read off n f = map (fdata f) [off..<min (off + n) (flen f)]"

definition host_write :: "nat \<Rightarrow> byte list \<Rightarrow> hostfile \<Rightarrow> hostfile" where
  "host_write off bs f =
     \<lparr>flen = max (flen f) (off + length bs),
      fdata = (\<lambda>i. if off \<le> i \<and> i < off + length bs then bs ! (i - off)
                   else if i < flen f then fdata f i else NUL)\<rparr>"

record os =
  creat_ok :: "string \<Rightarrow> bool"
  open_ok :: "string \<Rightarrow> bool"
  lseek_ok :: "int \<Rightarrow> bool"
  read_ok :: "nat \<Rightarrow> bool"
  write_ok :: "nat \<Rightarrow> bool"

definition os_reliable :: "os \<Rightarrow> bool" where
  "os_reliable os \<longleftrightarrow> (\<forall>nm. creat_ok os nm \<and> open_ok os nm) \<and>
     (\<forall>off. 0 \<le> off \<longrightarrow> lseek_ok os off) \<and> (\<forall>off. read_ok os off \<and> write_ok os off)"


section \<open>The operations of disk.c\<close>

text \<open>\<open>handle\<close> is the open host file, named by its path.\<close>

record disk =
  active :: bool
  handle :: string
  files :: "string \<rightharpoonup> hostfile"

definition disk_file :: "disk \<Rightarrow> hostfile" where
  "disk_file d = (case files d (handle d) of Some f \<Rightarrow> f | None \<Rightarrow> empty_file)"

fun make_disk_loop :: "os \<Rightarrow> nat \<Rightarrow> nat \<Rightarrow> hostfile \<Rightarrow> bool \<times> hostfile" where
  "make_disk_loop os cnt 0 f = (True, f)"
| "make_disk_loop os cnt (Suc n) f =
     (if write_ok os (cnt * BLOCK_SIZE)
      then make_disk_loop os (Suc cnt) n (host_write (cnt * BLOCK_SIZE) (replicate BLOCK_SIZE NUL) f)
      else (False, f))"

definition make_disk :: "os \<Rightarrow> string option \<Rightarrow> disk \<Rightarrow> int \<times> disk" where
  "make_disk os name d =
     (case name of
        None \<Rightarrow> (-1, d)
      | Some nm \<Rightarrow>
          if \<not> creat_ok os nm then (-1, d)
          else let (ok, f) = make_disk_loop os 0 DISK_BLOCKS empty_file;
                   d' = d\<lparr>files := (files d)(nm \<mapsto> f)\<rparr>
               in (if ok then 0 else -1, d'))"

definition open_disk :: "os \<Rightarrow> string option \<Rightarrow> disk \<Rightarrow> int \<times> disk" where
  "open_disk os name d =
     (case name of
        None \<Rightarrow> (-1, d)
      | Some nm \<Rightarrow>
          if active d then (-1, d)
          else if \<not> open_ok os nm \<or> files d nm = None then (-1, d)
          else (0, d\<lparr>handle := nm, active := True\<rparr>))"

definition close_disk :: "disk \<Rightarrow> int \<times> disk" where
  "close_disk d = (if \<not> active d then (-1, d) else (0, d\<lparr>active := False, handle := []\<rparr>))"

definition block_write :: "os \<Rightarrow> int \<Rightarrow> byte list \<Rightarrow> disk \<Rightarrow> int \<times> disk" where
  "block_write os block buf d =
     (if \<not> active d then (-1, d)
      else if block < 0 \<or> block \<ge> int DISK_BLOCKS then (-1, d)
      else if \<not> lseek_ok os (block * int BLOCK_SIZE) then (-1, d)
      else if \<not> write_ok os (nat block * BLOCK_SIZE) then (-1, d)
      else (0, d\<lparr>files := (files d)(handle d \<mapsto>
                   host_write (nat block * BLOCK_SIZE) (take BLOCK_SIZE buf) (disk_file d))\<rparr>))"

text \<open>The result is the return value and the buffer afterwards: the bytes read replace its
  beginning.\<close>

definition block_read :: "os \<Rightarrow> int \<Rightarrow> byte list \<Rightarrow> disk \<Rightarrow> int \<times> byte list" where
  "block_read os block buf d =
     (if \<not> active d then (-1, buf)
      else if block < 0 \<or> block \<ge> int DISK_BLOCKS then (-1, buf)
      else if \<not> lseek_ok os (block * int BLOCK_SIZE) then (-1, buf)
      else if \<not> read_ok os (nat block * BLOCK_SIZE) then (-1, buf)
      else let bs = host_read (nat block * BLOCK_SIZE) BLOCK_SIZE (disk_file d)
           in (0, bs @ drop (length bs) buf))"


section \<open>Reading and writing sequences of blocks\<close>

fun write_seq :: "(int \<Rightarrow> byte list \<Rightarrow> 'd \<Rightarrow> int \<times> 'd) \<Rightarrow> (int \<times> byte list) list \<Rightarrow> 'd \<Rightarrow> 'd" where
  "write_seq wr [] d = d"
| "write_seq wr ((b, buf) # ws) d = write_seq wr ws (snd (wr b buf d))"

lemma write_seq_append: "write_seq wr (xs @ ys) d = write_seq wr ys (write_seq wr xs d)"
  by (induction wr xs d rule: write_seq.induct) auto

text \<open>The contract of a block device: a read returns what the last write to that block stored,
  and a write changes no other block.\<close>

locale block_device =
  fixes nblocks :: nat and bsize :: nat
    and ready :: "'d \<Rightarrow> bool"
    and blk :: "'d \<Rightarrow> int \<Rightarrow> byte list"
    and rd :: "int \<Rightarrow> byte list \<Rightarrow> 'd \<Rightarrow> int \<times> byte list"
    and wr :: "int \<Rightarrow> byte list \<Rightarrow> 'd \<Rightarrow> int \<times> 'd"
  assumes rd_blk: "ready d \<Longrightarrow> 0 \<le> b \<Longrightarrow> b < int nblocks \<Longrightarrow> length buf = bsize \<Longrightarrow> rd b buf d = (0, blk d b)"
    and wr_zero: "ready d \<Longrightarrow> 0 \<le> b \<Longrightarrow> b < int nblocks \<Longrightarrow> fst (wr b buf d) = 0"
    and wr_ready: "ready d \<Longrightarrow> 0 \<le> b \<Longrightarrow> b < int nblocks \<Longrightarrow> length buf = bsize \<Longrightarrow> ready (snd (wr b buf d))"
    and wr_blk: "ready d \<Longrightarrow> 0 \<le> b \<Longrightarrow> b < int nblocks \<Longrightarrow> length buf = bsize \<Longrightarrow>
        0 \<le> b' \<Longrightarrow> b' < int nblocks \<Longrightarrow> blk (snd (wr b buf d)) b' = (if b' = b then buf else blk d b')"
    and len_blk: "length (blk d b) = bsize"
begin

definition writable :: "(int \<times> byte list) list \<Rightarrow> bool" where
  "writable ws \<longleftrightarrow> (\<forall>(b, buf)\<in>set ws. 0 \<le> b \<and> b < int nblocks \<and> length buf = bsize)"

lemma write_seq_ready: "ready d \<Longrightarrow> writable ws \<Longrightarrow> ready (write_seq wr ws d)"
  by (induction ws arbitrary: d) (auto simp: writable_def wr_ready)

lemma write_seq_other:
  "ready d \<Longrightarrow> writable ws \<Longrightarrow> 0 \<le> b \<Longrightarrow> b < int nblocks \<Longrightarrow> b \<notin> fst ` set ws \<Longrightarrow> blk (write_seq wr ws d) b = blk d b"
  by (induction ws arbitrary: d) (auto simp: writable_def wr_ready wr_blk)

lemma write_seq_same:
  "ready d \<Longrightarrow> writable ws \<Longrightarrow> distinct (map fst ws) \<Longrightarrow> (b, buf) \<in> set ws \<Longrightarrow>
     blk (write_seq wr ws d) b = buf"
proof (induction ws arbitrary: d)
  case Nil
  then show ?case by simp
next
  case (Cons w ws)
  obtain c cbuf where w: "w = (c, cbuf)" by (cases w)
  let ?d' = "snd (wr c cbuf d)"
  from Cons.prems w have c: "0 \<le> c" "c < int nblocks" "length cbuf = bsize" and ws: "writable ws"
    by (auto simp: writable_def)
  with Cons.prems(1) have d': "ready ?d'" by (simp add: wr_ready)
  show ?case
  proof (cases "(b, buf) \<in> set ws")
    case True
    with Cons.IH [OF d' ws] Cons.prems(3) show ?thesis by (simp add: w)
  next
    case False
    with Cons.prems(4) w have b: "b = c" "buf = cbuf" by auto
    have "blk (write_seq wr ws ?d') b = blk ?d' b"
      using Cons.prems(3) c b by (intro write_seq_other d' ws) (auto simp: w)
    with b c Cons.prems(1) show ?thesis by (simp add: w wr_blk)
  qed
qed

text \<open>Writing one buffer per block of a duplicate-free list and reading the blocks back in the
  same order gives the buffers.\<close>

lemma write_seq_zip:
  assumes "ready d" "distinct bs" "length bufs = length bs"
    and "\<And>b. b \<in> set bs \<Longrightarrow> 0 \<le> b \<and> b < int nblocks"
    and "\<And>buf. buf \<in> set bufs \<Longrightarrow> length buf = bsize"
  shows "map (blk (write_seq wr (zip bs bufs) d)) bs = bufs"
    and "\<And>b. 0 \<le> b \<Longrightarrow> b < int nblocks \<Longrightarrow> b \<notin> set bs \<Longrightarrow> blk (write_seq wr (zip bs bufs) d) b = blk d b"
    and "ready (write_seq wr (zip bs bufs) d)"
proof -
  have w: "writable (zip bs bufs)"
    using assms(4,5) by (auto simp: writable_def dest: set_zip_leftD set_zip_rightD)
  show "map (blk (write_seq wr (zip bs bufs) d)) bs = bufs"
  proof (rule nth_equalityI)
    fix i
    assume "i < length (map (blk (write_seq wr (zip bs bufs) d)) bs)"
    then have i: "i < length bs" by simp
    have "(bs ! i, bufs ! i) \<in> set (zip bs bufs)"
      using i assms(3) by (auto simp: in_set_zip)
    from write_seq_same [OF assms(1) w _ this] i assms(2,3)
    show "map (blk (write_seq wr (zip bs bufs) d)) bs ! i = bufs ! i" by simp
  qed (simp add: assms(3))
  show "blk (write_seq wr (zip bs bufs) d) b = blk d b" if "0 \<le> b" "b < int nblocks" "b \<notin> set bs" for b
    using that by (intro write_seq_other assms(1) w) (auto dest: set_zip_leftD)
  show "ready (write_seq wr (zip bs bufs) d)"
    by (rule write_seq_ready [OF assms(1) w])
qed

end


section \<open>disk.c is a block device\<close>

definition blk :: "disk \<Rightarrow> int \<Rightarrow> byte list" where
  "blk d b = map (fdata (disk_file d)) [nat b * BLOCK_SIZE..<nat b * BLOCK_SIZE + BLOCK_SIZE]"

definition disk_open :: "disk \<Rightarrow> bool" where
  "disk_open d \<longleftrightarrow> active d \<and> (\<exists>f. files d (handle d) = Some f \<and> flen f = DISK_BLOCKS * BLOCK_SIZE)"

definition dev_ready :: "os \<Rightarrow> disk \<Rightarrow> bool" where
  "dev_ready os d \<longleftrightarrow> os_reliable os \<and> disk_open d"

lemma length_blk [simp, c_layout]: "length (blk d b) = BLOCK_SIZE"
  by (simp add: blk_def)

lemma block_range:
  "0 \<le> b \<Longrightarrow> b < int DISK_BLOCKS \<Longrightarrow> nat b * BLOCK_SIZE + BLOCK_SIZE \<le> DISK_BLOCKS * BLOCK_SIZE"
  by (metis add.commute int_nat_eq mult_Suc mult_le_mono1 not_less_eq_eq of_nat_less_iff not_le)

lemma block_read_ready:
  assumes "dev_ready os d" "0 \<le> b" "b < int DISK_BLOCKS" "length buf = BLOCK_SIZE"
  shows "block_read os b buf d = (0, blk d b)"
  using assms block_range [of b]
  by (auto simp: block_read_def dev_ready_def disk_open_def os_reliable_def host_read_def blk_def
      disk_file_def Let_def)

lemma block_write_ready:
  assumes "dev_ready os d" "0 \<le> b" "b < int DISK_BLOCKS"
  shows "block_write os b buf d = (0, d\<lparr>files := (files d)(handle d \<mapsto>
           host_write (nat b * BLOCK_SIZE) (take BLOCK_SIZE buf) (disk_file d))\<rparr>)"
  using assms by (auto simp: block_write_def dev_ready_def disk_open_def os_reliable_def)

lemma block_write_dev_ready:
  assumes "dev_ready os d" "0 \<le> b" "b < int DISK_BLOCKS" "length buf = BLOCK_SIZE"
  shows "dev_ready os (snd (block_write os b buf d))"
  using assms block_range [of b]
  by (auto simp: block_write_ready dev_ready_def disk_open_def host_write_def disk_file_def)

lemma blocks_disjoint:
  assumes "b \<noteq> b'" "0 \<le> b" "0 \<le> b'" "nat b' * BLOCK_SIZE \<le> i" "i < nat b' * BLOCK_SIZE + BLOCK_SIZE"
  shows "\<not> (nat b * BLOCK_SIZE \<le> i \<and> i < nat b * BLOCK_SIZE + BLOCK_SIZE)"
proof
  assume "nat b * BLOCK_SIZE \<le> i \<and> i < nat b * BLOCK_SIZE + BLOCK_SIZE"
  then have "i div BLOCK_SIZE = nat b" by (intro div_nat_eqI) (auto simp: ac_simps)
  moreover have "i div BLOCK_SIZE = nat b'" using assms(4,5) by (intro div_nat_eqI) (auto simp: ac_simps)
  ultimately show False using assms(1-3) by simp
qed

lemma block_write_blk:
  assumes d: "dev_ready os d" and b: "0 \<le> b" "b < int DISK_BLOCKS" and buf: "length buf = BLOCK_SIZE"
    and b': "0 \<le> b'" "b' < int DISK_BLOCKS"
  shows "blk (snd (block_write os b buf d)) b' = (if b' = b then buf else blk d b')"
proof -
  let ?f' = "host_write (nat b * BLOCK_SIZE) buf (disk_file d)"
  have f': "disk_file (snd (block_write os b buf d)) = ?f'"
    using d b buf by (simp add: block_write_ready disk_file_def [of "_\<lparr>files := _\<rparr>"])
  have len: "flen (disk_file d) = DISK_BLOCKS * BLOCK_SIZE"
    using d by (auto simp: dev_ready_def disk_open_def disk_file_def)
  show ?thesis
  proof (cases "b' = b")
    case True
    then show ?thesis
      using buf by (auto simp: blk_def f' host_write_def intro!: nth_equalityI)
  next
    case False
    have "fdata ?f' i = fdata (disk_file d) i"
      if "nat b' * BLOCK_SIZE \<le> i" "i < nat b' * BLOCK_SIZE + BLOCK_SIZE" for i
      using blocks_disjoint [OF False [symmetric] b(1) b'(1) that] that block_range [OF b'] buf len
      by (auto simp: host_write_def)
    with False show ?thesis by (auto simp: blk_def f')
  qed
qed

interpretation dev: block_device DISK_BLOCKS BLOCK_SIZE "dev_ready os" blk "block_read os" "block_write os"
  for os
proof unfold_locales
  show "fst (block_write os b buf d) = 0"
    if "dev_ready os d" "0 \<le> b" "b < int DISK_BLOCKS" for d b buf
    using that by (simp add: block_write_ready)
qed (simp_all add: block_read_ready block_write_dev_ready block_write_blk)

text \<open>Opening and closing.\<close>

lemma make_disk_loop_ok:
  "os_reliable os \<Longrightarrow> flen f = cnt * BLOCK_SIZE \<Longrightarrow> (\<And>i. fdata f i = NUL) \<Longrightarrow>
     \<exists>f'. make_disk_loop os cnt n f = (True, f') \<and> flen f' = (cnt + n) * BLOCK_SIZE \<and> (\<forall>i. fdata f' i = NUL)"
proof (induction os cnt n f rule: make_disk_loop.induct)
  case (1 os cnt f)
  then show ?case by simp
next
  case (2 os cnt n f)
  let ?f = "host_write (cnt * BLOCK_SIZE) (replicate BLOCK_SIZE NUL) f"
  have w: "write_ok os (cnt * BLOCK_SIZE)" using "2.prems"(1) by (simp add: os_reliable_def)
  have "flen ?f = Suc cnt * BLOCK_SIZE" "\<And>i. fdata ?f i = NUL"
    using "2.prems"(2,3) by (auto simp: host_write_def)
  from "2.IH" [OF w "2.prems"(1) this] w show ?case by simp
qed

lemma make_disk_zero:
  assumes "os_reliable os"
  shows "\<exists>f. make_disk os (Some nm) d = (0, d\<lparr>files := (files d)(nm \<mapsto> f)\<rparr>) \<and>
           flen f = DISK_BLOCKS * BLOCK_SIZE \<and> (\<forall>i. fdata f i = NUL)"
  using make_disk_loop_ok [OF assms, of empty_file 0 DISK_BLOCKS] assms
  by (auto simp: make_disk_def os_reliable_def empty_file_def)

end
