(* ===== verification/FS_Layout.thy ===== *)
theory FS_Layout
  imports Disk
begin

text \<open>
  The structures of project 5's file system (\<^verbatim>\<open>fs.c\<close>) and their layout on the disk, as gcc
  lays them out for x86-64: \<open>int\<close> is four bytes, little endian, aligned to four; \<open>bool\<close>
  and \<open>char\<close> are one byte; the three padding bytes after a leading \<open>bool\<close> or
  \<open>char\<close> are written as zero and never read.
\<close>

definition MAX_FILENAME_LENGTH :: nat where
  "MAX_FILENAME_LENGTH = 15"

definition MAX_NUM_OF_FILES :: nat where
  "MAX_NUM_OF_FILES = 64"

definition MAX_FILE_DESCRIPTOR :: nat where
  "MAX_FILE_DESCRIPTOR = 32"

definition MAX_FILESIZE :: int where
  "MAX_FILESIZE = 2 ^ 24"

record Superblock =
  used_block_bitmap_count :: int
  used_block_bitmap_offset :: int
  inode_metadata_blocks :: int
  inode_metadata_offset :: int
  d_offset :: int
  d_length :: int
  data_offset :: int

record Inode =
  itype :: byte
  next_direct_offset :: int

record Directory_Entry =
  de_used :: bool
  de_inode_number :: int
  de_name :: "byte list"
  de_size :: int
  de_count :: int

record File_Descriptor =
  fd_used :: bool
  fd_inode_number :: int
  fd_offset :: int

definition sizeof_Superblock :: nat where
  "sizeof_Superblock = 7 * 4"

definition sizeof_Inode :: nat where
  "sizeof_Inode = 1 + 3 + 4"

definition sizeof_Directory_Entry :: nat where
  "sizeof_Directory_Entry = 1 + 3 + 4 + (MAX_FILENAME_LENGTH + 1) + 4 + 4"

definition sizeof_pointer :: nat where
  "sizeof_pointer = 8"

lemmas sizeof_defs = sizeof_Superblock_def sizeof_Inode_def sizeof_Directory_Entry_def
  sizeof_pointer_def MAX_FILENAME_LENGTH_def MAX_NUM_OF_FILES_def BLOCK_SIZE_def DISK_BLOCKS_def


section \<open>Bytes of a structure\<close>

definition pad3 :: "byte list" where
  "pad3 = [NUL, NUL, NUL]"

definition enc_super :: "Superblock \<Rightarrow> byte list" where
  "enc_super sb = enc32 (used_block_bitmap_count sb) @ enc32 (used_block_bitmap_offset sb)
     @ enc32 (inode_metadata_blocks sb) @ enc32 (inode_metadata_offset sb)
     @ enc32 (d_offset sb) @ enc32 (d_length sb) @ enc32 (data_offset sb)"

definition dec_super :: "byte list \<Rightarrow> Superblock" where
  "dec_super bs = \<lparr>
     used_block_bitmap_count = dec32 (chunk 4 0 bs),
     used_block_bitmap_offset = dec32 (chunk 4 1 bs),
     inode_metadata_blocks = dec32 (chunk 4 2 bs),
     inode_metadata_offset = dec32 (chunk 4 3 bs),
     d_offset = dec32 (chunk 4 4 bs),
     d_length = dec32 (chunk 4 5 bs),
     data_offset = dec32 (chunk 4 6 bs)\<rparr>"

definition enc_inode :: "Inode \<Rightarrow> byte list" where
  "enc_inode n = itype n # pad3 @ enc32 (next_direct_offset n)"

definition dec_inode :: "byte list \<Rightarrow> Inode" where
  "dec_inode bs = \<lparr>itype = bs ! 0, next_direct_offset = dec32 (chunk 4 1 bs)\<rparr>"

definition enc_dirent :: "Directory_Entry \<Rightarrow> byte list" where
  "enc_dirent e = (if de_used e then CHR 0x01 else NUL) # pad3 @ enc32 (de_inode_number e)
     @ de_name e @ enc32 (de_size e) @ enc32 (de_count e)"

definition dec_dirent :: "byte list \<Rightarrow> Directory_Entry" where
  "dec_dirent bs = \<lparr>
     de_used = (bs ! 0 \<noteq> NUL),
     de_inode_number = dec32 (chunk 4 1 bs),
     de_name = take (MAX_FILENAME_LENGTH + 1) (drop 8 bs),
     de_size = dec32 (chunk 4 6 bs),
     de_count = dec32 (chunk 4 7 bs)\<rparr>"

text \<open>Values that survive the trip: every integer field in the range of \<open>int\<close>, the name
  array of its declared length.\<close>

definition super_rep :: "Superblock \<Rightarrow> bool" where
  "super_rep sb \<longleftrightarrow> int32 (used_block_bitmap_count sb) \<and> int32 (used_block_bitmap_offset sb) \<and>
     int32 (inode_metadata_blocks sb) \<and> int32 (inode_metadata_offset sb) \<and>
     int32 (d_offset sb) \<and> int32 (d_length sb) \<and> int32 (data_offset sb)"

definition inode_rep :: "Inode \<Rightarrow> bool" where
  "inode_rep n \<longleftrightarrow> int32 (next_direct_offset n)"

definition dirent_rep :: "Directory_Entry \<Rightarrow> bool" where
  "dirent_rep e \<longleftrightarrow> int32 (de_inode_number e) \<and> length (de_name e) = MAX_FILENAME_LENGTH + 1 \<and>
     int32 (de_size e) \<and> int32 (de_count e)"

lemma length_enc_super [simp, c_layout]: "length (enc_super sb) = sizeof_Superblock"
  by (simp add: enc_super_def sizeof_Superblock_def)

lemma length_enc_inode [simp, c_layout]: "length (enc_inode n) = sizeof_Inode"
  by (simp add: enc_inode_def pad3_def sizeof_Inode_def)

lemma length_enc_dirent [c_layout]: "dirent_rep e \<Longrightarrow> length (enc_dirent e) = sizeof_Directory_Entry"
  by (simp add: enc_dirent_def pad3_def sizeof_Directory_Entry_def dirent_rep_def)

lemma dec_enc_super: "super_rep sb \<Longrightarrow> dec_super (enc_super sb @ ys) = sb"
  by (simp add: enc_super_def dec_super_def chunk_def super_rep_def dec32_enc32)

lemma dec_enc_inode: "inode_rep n \<Longrightarrow> dec_inode (enc_inode n) = n"
  by (simp add: enc_inode_def dec_inode_def pad3_def chunk_def inode_rep_def dec32_enc32)

lemma dec_enc_dirent: "dirent_rep e \<Longrightarrow> dec_dirent (enc_dirent e) = e"
  by (simp add: enc_dirent_def dec_dirent_def pad3_def chunk_def dirent_rep_def dec32_enc32
      MAX_FILENAME_LENGTH_def)

end
