(* ===== verification/File_System.thy ===== *)
theory File_System
  imports FS_Layout
begin

text \<open>
  The operations of project 5's file system (\<^verbatim>\<open>fs.c\<close>), one definition per C function and
  one per loop, in the order of the source. A result is \<open>None\<close> where the C code has
  undefined behaviour, and otherwise the return value with the new state. Memory
  allocation succeeds; the bytes of \<open>malloc\<close>ed and uninitialised memory are parameters.
\<close>

text \<open>The globals of \<^verbatim>\<open>fs.c\<close> and the state of the disk below. The pointers \<open>super\<close>,
  \<open>Table\<close>, \<open>used_block_bitmap\<close> and \<open>Directory\<close> are \<open>None\<close> until they point to
  initialised memory.\<close>

record fs =
  super :: "Superblock option"
  Table :: "Inode list option"
  used_block_bitmap :: "byte list option"
  fd_array :: "File_Descriptor list"
  Directory :: "Directory_Entry list option"
  mounted :: bool
  dsk :: disk

definition zero_block :: "byte list" where
  "zero_block = replicate BLOCK_SIZE NUL"


section \<open>make_fs\<close>

text \<open>Copying one structure \<open>n\<close> times into a buffer, from index \<open>i\<close> on.\<close>

fun fill_loop :: "nat \<Rightarrow> nat \<Rightarrow> byte list \<Rightarrow> byte list \<Rightarrow> byte list option" where
  "fill_loop i 0 e buf = Some buf"
| "fill_loop i (Suc n) e buf = do {
     buf' \<leftarrow> memcpy buf (i * length e) e;
     fill_loop (Suc i) n e buf'
   }"

definition make_super :: Superblock where
  "make_super =
     (let d_off = 1;
          d_len = int (sizeof_Directory_Entry * MAX_NUM_OF_FILES div BLOCK_SIZE) + 1;
          bm_off = d_len + d_off;
          bm_cnt = int (DISK_BLOCKS div BLOCK_SIZE);
          in_off = bm_cnt + bm_off;
          in_blk = int (sizeof_Inode * DISK_BLOCKS div BLOCK_SIZE)
      in \<lparr>used_block_bitmap_count = bm_cnt, used_block_bitmap_offset = bm_off,
          inode_metadata_blocks = in_blk, inode_metadata_offset = in_off,
          d_offset = d_off, d_length = d_len, data_offset = in_blk + in_off\<rparr>)"

text \<open>The loop over the blocks of the inode table: fill the buffer with empty inodes and write it.\<close>

fun make_inodes :: "os \<Rightarrow> byte list \<Rightarrow> int \<Rightarrow> nat \<Rightarrow> nat \<Rightarrow> byte list \<Rightarrow> disk \<Rightarrow> (int \<times> byte list \<times> disk) option" where
  "make_inodes os e off i 0 buf d = Some (0, buf, d)"
| "make_inodes os e off i (Suc n) buf d = do {
     buf' \<leftarrow> fill_loop 0 (BLOCK_SIZE div sizeof_Inode) e buf;
     let (r, d') = block_write os (off + int i) buf' d;
     if r = -1 then Some (-1, buf', d') else make_inodes os e off (Suc i) n buf' d'
   }"

text \<open>\<open>junk_name\<close> and \<open>junk_type\<close> are the uninitialised bytes \<open>name[1..15]\<close> of
  \<open>empty_dir\<close> and \<open>type\<close> of \<open>empty_inode\<close>.\<close>

definition make_fs :: "os \<Rightarrow> byte list \<Rightarrow> byte \<Rightarrow> string option \<Rightarrow> fs \<Rightarrow> (int \<times> fs) option" where
  "make_fs os junk_name junk_type disk_name s = (
     let (r0, d0) = make_disk os disk_name (dsk s) in
     if r0 = -1 then Some (-1, s\<lparr>dsk := d0\<rparr>) else
     let (r1, d1) = open_disk os disk_name d0 in
     if r1 = -1 then Some (-1, s\<lparr>dsk := d1\<rparr>) else
     let sb = make_super in do {
       buf1 \<leftarrow> memcpy zero_block 0 (enc_super sb);
       let (r2, d2) = block_write os 0 buf1 d1;
       if r2 = -1 then Some (-1, s\<lparr>dsk := d2\<rparr>) else do {
         let empty_dir = \<lparr>de_used = False, de_inode_number = -1, de_name = NUL # junk_name,
                          de_size = 0, de_count = 0\<rparr>;
         buf2 \<leftarrow> fill_loop 0 MAX_NUM_OF_FILES (enc_dirent empty_dir) buf1;
         let (r3, d3) = block_write os (d_offset sb) buf2 d2;
         if r3 = -1 then Some (-1, s\<lparr>dsk := d3\<rparr>) else do {
           let empty_inode = \<lparr>itype = junk_type, next_direct_offset = -2\<rparr>;
           (r4, buf3, d4) \<leftarrow> make_inodes os (enc_inode empty_inode) (inode_metadata_offset sb) 0
                               (nat (inode_metadata_blocks sb)) buf2 d3;
           if r4 = -1 then Some (-1, s\<lparr>dsk := d4\<rparr>) else do {
             buf4 \<leftarrow> fill_loop 0 (nat (used_block_bitmap_count sb)) [CHR ''0''] buf3;
             let (r5, d5) = block_write os (used_block_bitmap_offset sb) buf4 d4;
             if r5 = -1 then Some (-1, s\<lparr>dsk := d5\<rparr>) else
             let (r6, d6) = close_disk d5 in
             if r6 = -1 then Some (-1, s\<lparr>dsk := d6\<rparr>) else Some (0, s\<lparr>dsk := d6\<rparr>)
           }
         }
       }
     })"


section \<open>mount_fs and umount_fs\<close>

definition inodes_per_block :: nat where
  "inodes_per_block = BLOCK_SIZE div sizeof_Inode"

definition zero_dirent :: Directory_Entry where
  "zero_dirent = \<lparr>de_used = False, de_inode_number = 0,
     de_name = replicate (MAX_FILENAME_LENGTH + 1) NUL, de_size = 0, de_count = 0\<rparr>"

definition zero_inode :: Inode where
  "zero_inode = \<lparr>itype = NUL, next_direct_offset = 0\<rparr>"

text \<open>\<open>memcpy(Table + i * BLOCK_SIZE / sizeof(Inode), buffer, BLOCK_SIZE)\<close>.\<close>

definition put_inodes :: "Inode list \<Rightarrow> nat \<Rightarrow> byte list \<Rightarrow> Inode list option" where
  "put_inodes T i buf =
     (let p = i * BLOCK_SIZE div sizeof_Inode in
      if p + inodes_per_block \<le> length T
      then Some (take p T @ decode_array sizeof_Inode dec_inode inodes_per_block buf
                 @ drop (p + inodes_per_block) T)
      else None)"

fun mount_inodes ::
  "os \<Rightarrow> disk \<Rightarrow> int \<Rightarrow> nat \<Rightarrow> nat \<Rightarrow> Inode list \<Rightarrow> byte list \<Rightarrow> (int \<times> Inode list \<times> byte list) option" where
  "mount_inodes os d off i 0 T buf = Some (0, T, buf)"
| "mount_inodes os d off i (Suc n) T buf = (
     let (r, buf') = block_read os (off + int i) buf d in
     if r = -1 then Some (-1, T, buf')
     else do {
       T' \<leftarrow> put_inodes T i buf';
       mount_inodes os d off (Suc i) n T' buf'
     })"

text \<open>\<open>junk\<close> is the content of the \<open>malloc\<close>ed bitmap. The directory is copied with
  \<open>sizeof(Directory) * MAX_NUM_OF_FILES\<close> bytes, where \<open>Directory\<close> is a pointer.\<close>

definition mount_dir :: "byte list \<Rightarrow> Directory_Entry list" where
  "mount_dir buf =
     (let n = sizeof_pointer * MAX_NUM_OF_FILES div sizeof_Directory_Entry
      in decode_array sizeof_Directory_Entry dec_dirent n buf
         @ replicate (MAX_NUM_OF_FILES - n) zero_dirent)"

definition mount_fs :: "os \<Rightarrow> byte list \<Rightarrow> string option \<Rightarrow> fs \<Rightarrow> (int \<times> fs) option" where
  "mount_fs os junk disk_name s =
     (if disk_name = None then Some (-1, s)
      else if mounted s then Some (-1, s)
      else let (r0, d) = open_disk os disk_name (dsk s) in
      if r0 = -1 then Some (-1, s\<lparr>dsk := d\<rparr>)
      else let s1 = s\<lparr>dsk := d, super := None\<rparr>; (r1, buf1) = block_read os 0 zero_block d in
      if r1 = -1 then Some (-1, s1)
      else let sb = dec_super buf1;
               s2 = s1\<lparr>super := Some sb, Directory := Some (replicate MAX_NUM_OF_FILES zero_dirent)\<rparr>;
               (r2, buf2) = block_read os (d_offset sb) buf1 d in
      if r2 = -1 then Some (-1, s2)
      else do {
        let s3 = s2\<lparr>Directory := Some (mount_dir buf2)\<rparr>;
        (r3, T, buf3) \<leftarrow> mount_inodes os d (inode_metadata_offset sb) 0 (nat (inode_metadata_blocks sb))
                           (replicate DISK_BLOCKS zero_inode) buf2;
        let s4 = s3\<lparr>Table := Some T\<rparr>;
        if r3 = -1 then Some (-1, s4)
        else let s5 = s4\<lparr>used_block_bitmap := Some junk\<rparr>;
                 (r4, buf4) = block_read os (used_block_bitmap_offset sb) buf3 d in
        if r4 = -1 then Some (-1, s5)
        else if used_block_bitmap_count sb < 0 \<or> used_block_bitmap_count sb > int (length buf4) then None
        else do {
          bm \<leftarrow> memcpy junk 0 (take (nat (used_block_bitmap_count sb)) buf4);
          Some (0, s5\<lparr>used_block_bitmap := Some bm,
                      fd_array := map (\<lambda>f. f\<lparr>fd_used := False\<rparr>) (fd_array s), mounted := True\<rparr>)
        }
      })"

fun umount_inodes :: "os \<Rightarrow> Inode list \<Rightarrow> int \<Rightarrow> nat \<Rightarrow> nat \<Rightarrow> disk \<Rightarrow> (int \<times> disk) option" where
  "umount_inodes os T off i 0 d = Some (0, d)"
| "umount_inodes os T off i (Suc n) d = (
     let p = i * BLOCK_SIZE div sizeof_Inode in
     if p + inodes_per_block \<le> length T
     then let buf = concat (map enc_inode (take inodes_per_block (drop p T)));
              (r, d') = block_write os (off + int i) buf d
          in if r = -1 then Some (-1, d') else umount_inodes os T off (Suc i) n d'
     else None)"

definition clear_fd :: "File_Descriptor \<Rightarrow> File_Descriptor" where
  "clear_fd f = (if fd_used f then \<lparr>fd_used = False, fd_inode_number = -1, fd_offset = 0\<rparr> else f)"

definition umount_fs :: "os \<Rightarrow> string option \<Rightarrow> fs \<Rightarrow> (int \<times> fs) option" where
  "umount_fs os disk_name s =
     (if disk_name = None then Some (-1, s)
      else if \<not> mounted s then Some (-1, s)
      else do {
        sb \<leftarrow> super s;
        buf1 \<leftarrow> memcpy zero_block 0 (enc_super sb);
        let (r1, d1) = block_write os 0 buf1 (dsk s);
        if r1 = -1 then Some (-1, s\<lparr>dsk := d1\<rparr>)
        else do {
          dir \<leftarrow> Directory s;
          buf2 \<leftarrow> memcpy buf1 0 (concat (map enc_dirent dir));
          let (r2, d2) = block_write os (d_offset sb) buf2 d1;
          if r2 = -1 then Some (-1, s\<lparr>dsk := d2\<rparr>)
          else do {
            T \<leftarrow> Table s;
            (r3, d3) \<leftarrow> umount_inodes os T (inode_metadata_offset sb) 0 (nat (inode_metadata_blocks sb)) d2;
            if r3 = -1 then Some (-1, s\<lparr>dsk := d3\<rparr>)
            else let s' = s\<lparr>dsk := d3, fd_array := map clear_fd (fd_array s)\<rparr>;
                     (r4, d4) = close_disk d3 in
            if r4 = -1 then Some (-1, s'\<lparr>dsk := d4\<rparr>)
            else Some (0, s'\<lparr>dsk := d4, mounted := False\<rparr>)
          }
        }
      })"


section \<open>fs_open and fs_close\<close>

definition fs_open :: "string \<Rightarrow> fs \<Rightarrow> (int \<times> fs) option" where
  "fs_open name s =
     (case find_idx (\<lambda>f. \<not> fd_used f) (fd_array s) of
        None \<Rightarrow> Some (-1, s)
      | Some fildes \<Rightarrow> do {
          dir \<leftarrow> Directory s;
          m \<leftarrow> find_idx_m (\<lambda>e. strcmp_eq name (de_name e)) dir;
          (case m of
             None \<Rightarrow> Some (-1, s)
           | Some i \<Rightarrow> let e = dir ! i in
               Some (int fildes,
                 s\<lparr>fd_array := (fd_array s)[fildes := \<lparr>fd_used = True,
                                fd_inode_number = de_inode_number e, fd_offset = 0\<rparr>],
                   Directory := Some (dir[i := e\<lparr>de_count := de_count e + 1\<rparr>])\<rparr>))
        })"

text \<open>The directory search shared by the operations on descriptors: the first used entry
  whose inode is the descriptor's. \<open>fd_array[fildes]\<close> is read only at used entries.\<close>

definition dir_of_fd :: "Directory_Entry list \<Rightarrow> File_Descriptor list \<Rightarrow> int \<Rightarrow> nat option option" where
  "dir_of_fd dir fds fildes =
     find_idx_m (\<lambda>e. if de_used e
                     then do { f \<leftarrow> array_get fds fildes; Some (de_inode_number e = fd_inode_number f) }
                     else Some False) dir"

definition fs_close :: "int \<Rightarrow> fs \<Rightarrow> (int \<times> fs) option" where
  "fs_close fildes s = do {
     dir \<leftarrow> Directory s;
     m \<leftarrow> dir_of_fd dir (fd_array s) fildes;
     (case m of
        None \<Rightarrow> Some (-1, s)
      | Some index \<Rightarrow> do {
          f \<leftarrow> array_get (fd_array s) fildes;
          if \<not> fd_used f then Some (-1, s)
          else let e = dir ! index in
            Some (0, s\<lparr>fd_array := (fd_array s)[nat fildes := \<lparr>fd_used = False,
                           fd_inode_number = -1, fd_offset = 0\<rparr>],
                       Directory := Some (dir[index := e\<lparr>de_count := de_count e - 1\<rparr>])\<rparr>)
        })
   }"


section \<open>fs_create and fs_delete\<close>

text \<open>Counting the files and looking for the name among them: \<open>None\<close> inside is the early
  return of -1.\<close>

fun create_scan :: "string \<Rightarrow> Directory_Entry list \<Rightarrow> nat \<Rightarrow> nat option option" where
  "create_scan name [] count = Some (Some count)"
| "create_scan name (e # es) count =
     (if de_used e
      then do {
        same \<leftarrow> strcmp_eq name (de_name e);
        if same then Some None else create_scan name es (count + 1)
      }
      else create_scan name es count)"

function create_loop ::
  "string \<Rightarrow> int \<Rightarrow> Inode list \<Rightarrow> byte list \<Rightarrow> Directory_Entry list \<Rightarrow>
     (int \<times> Inode list \<times> byte list \<times> Directory_Entry list) option" where
  "create_loop name inode T bm dir =
     (if inode < int DISK_BLOCKS
      then do {
        b \<leftarrow> array_get bm inode;
        if b = NUL
        then do {
          bm' \<leftarrow> array_set bm inode (CHR 0x01);
          n \<leftarrow> array_get T inode;
          T' \<leftarrow> array_set T inode (n\<lparr>next_direct_offset := -1, itype := CHR 0x01\<rparr>);
          (case find_idx (\<lambda>e. \<not> de_used e) dir of
             None \<Rightarrow> create_loop name (inode + 1) T' bm' dir
           | Some i \<Rightarrow> do {
               nm \<leftarrow> strcpy (de_name (dir ! i)) name;
               Some (0, T', bm', dir[i := \<lparr>de_used = True, de_inode_number = inode, de_name = nm,
                                           de_size = 0, de_count = 0\<rparr>])
             })
        }
        else create_loop name (inode + 1) T bm dir
      }
      else Some (-1, T, bm, dir))"
  by pat_completeness auto
termination
  by (relation "measure (\<lambda>(name, inode, T, bm, dir). nat (int DISK_BLOCKS - inode))") auto

declare create_loop.simps [simp del]

definition fs_create :: "string \<Rightarrow> fs \<Rightarrow> (int \<times> fs) option" where
  "fs_create name s =
     (if length name > MAX_FILENAME_LENGTH then Some (-1, s)
      else do {
        dir \<leftarrow> Directory s;
        m \<leftarrow> create_scan name dir 0;
        (case m of
           None \<Rightarrow> Some (-1, s)
         | Some count \<Rightarrow>
             if count = MAX_NUM_OF_FILES then Some (-1, s)
             else do {
               sb \<leftarrow> super s;
               bm \<leftarrow> used_block_bitmap s;
               T \<leftarrow> Table s;
               (r, T', bm', dir') \<leftarrow> create_loop name (data_offset sb) T bm dir;
               Some (r, s\<lparr>Table := Some T', used_block_bitmap := Some bm', Directory := Some dir'\<rparr>)
             })
      })"

text \<open>Entries of the inode table that are not free: each round of the loops below that follow a
  chain frees one, or leaves the table.\<close>

definition live_inodes :: "Inode list \<Rightarrow> nat" where
  "live_inodes T = length (filter (\<lambda>n. next_direct_offset n \<noteq> -2) T)"

lemma live_inodes_set:
  assumes "array_get T i = Some n" "next_direct_offset n \<noteq> -2"
    "array_set T i (n\<lparr>next_direct_offset := -2\<rparr>) = Some T'"
  shows "live_inodes T' < live_inodes T"
proof -
  define k where "k = nat i"
  from assms have k: "k < length T" "n = T ! k" "T' = T[k := n\<lparr>next_direct_offset := -2\<rparr>]"
    by (auto simp: array_get_eq_Some array_set_eq_Some k_def)
  then have T: "T = take k T @ n # drop (Suc k) T"
    and T': "T' = take k T @ n\<lparr>next_direct_offset := -2\<rparr> # drop (Suc k) T"
    by (simp_all add: id_take_nth_drop [symmetric] upd_conv_take_nth_drop)
  have "live_inodes T = Suc (live_inodes T')"
    unfolding live_inodes_def by (subst T, subst T') (use assms(2) in simp)
  then show ?thesis by simp
qed

definition chase_measure :: "int \<Rightarrow> Inode list \<Rightarrow> nat" where
  "chase_measure inode T = 2 * live_inodes T + (if inode < 0 then 0 else 1)"

lemma chase_measure_step:
  assumes "array_get T i = Some n" "array_set T i (n\<lparr>next_direct_offset := -2\<rparr>) = Some T'"
  shows "chase_measure (next_direct_offset n) T' < chase_measure i T"
proof (cases "next_direct_offset n = -2")
  case True
  then have "n\<lparr>next_direct_offset := -2\<rparr> = n" by simp
  with assms have "T' = T" "0 \<le> i"
    by (auto simp: array_get_eq_Some array_set_eq_Some)
  with True show ?thesis by (simp add: chase_measure_def)
next
  case False
  with assms have "live_inodes T' < live_inodes T" by (blast intro: live_inodes_set)
  then show ?thesis by (simp add: chase_measure_def)
qed

function delete_loop :: "int \<Rightarrow> Inode list \<Rightarrow> byte list \<Rightarrow> (int \<times> Inode list \<times> byte list) option" where
  "delete_loop inode T bm = do {
     n \<leftarrow> array_get T inode;
     if next_direct_offset n \<noteq> -1
     then do {
       bm' \<leftarrow> array_set bm inode NUL;
       T' \<leftarrow> array_set T inode (n\<lparr>next_direct_offset := -2\<rparr>);
       delete_loop (next_direct_offset n) T' bm'
     }
     else Some (inode, T, bm)
   }"
  by pat_completeness auto
termination
  by (relation "measure (\<lambda>(inode, T, bm). chase_measure inode T)") (auto intro: chase_measure_step)

declare delete_loop.simps [simp del]

definition fs_delete :: "string \<Rightarrow> fs \<Rightarrow> (int \<times> fs) option" where
  "fs_delete name s = do {
     dir \<leftarrow> Directory s;
     m \<leftarrow> find_idx_m (\<lambda>e. strcmp_eq name (de_name e)) dir;
     (case m of
        None \<Rightarrow> Some (-1, s)
      | Some index \<Rightarrow>
          if de_count (dir ! index) > 0 then Some (-1, s)
          else do {
            T \<leftarrow> Table s;
            bm \<leftarrow> used_block_bitmap s;
            (inode, T', bm') \<leftarrow> delete_loop (de_inode_number (dir ! index)) T bm;
            bm'' \<leftarrow> array_set bm' inode NUL;
            n \<leftarrow> array_get T' inode;
            T'' \<leftarrow> array_set T' inode (n\<lparr>next_direct_offset := -2\<rparr>);
            Some (0, s\<lparr>Table := Some T'', used_block_bitmap := Some bm'',
                       Directory := Some (dir[index := \<lparr>de_used = False, de_inode_number = -1,
                         de_name = memset0 (de_name (dir ! index)) MAX_FILENAME_LENGTH,
                         de_size = 0, de_count = 0\<rparr>])\<rparr>)
          })
   }"


section \<open>fs_read\<close>

text \<open>The number of blocks that the buffers of \<open>fs_read\<close> and \<open>fs_write\<close> hold for a file of
  the given size, and the loops that move the blocks of a file.\<close>

definition file_blocks :: "int \<Rightarrow> int" where
  "file_blocks sz = (sz - 1) sdiv int BLOCK_SIZE + 1"

fun read_loop :: "os \<Rightarrow> disk \<Rightarrow> Inode list \<Rightarrow> nat \<Rightarrow> int \<Rightarrow> (int \<times> byte list) option" where
  "read_loop os d T 0 inode = Some (0, [])"
| "read_loop os d T (Suc n) inode = (
     let (r, buf) = block_read os inode zero_block d in
     if r = -1 then Some (-1, [])
     else do {
       t \<leftarrow> array_get T inode;
       if next_direct_offset t = -1 then Some (0, buf)
       else do {
         (r', rest) \<leftarrow> read_loop os d T n (next_direct_offset t);
         Some (r', buf @ rest)
       }
     })"

definition fs_read :: "os \<Rightarrow> int \<Rightarrow> u64 \<Rightarrow> fs \<Rightarrow> (int \<times> byte list \<times> fs) option" where
  "fs_read os fildes nbyte s =
     (if fildes < 0 \<or> fildes > int MAX_FILE_DESCRIPTOR then Some (-1, [], s)
      else do {
        f \<leftarrow> array_get (fd_array s) fildes;
        if \<not> fd_used f \<or> nbyte \<le> 0 then Some (-1, [], s)
        else do {
          dir \<leftarrow> Directory s;
          m \<leftarrow> dir_of_fd dir (fd_array s) fildes;
          index \<leftarrow> m;
          let e = dir ! index;
          T \<leftarrow> Table s;
          (r, bytes) \<leftarrow> read_loop os (dsk s) T (nat (file_blocks (de_size e))) (de_inode_number e);
          if r = -1 then Some (-1, [], s)
          else do {
            let buffer = bytes @ replicate (BLOCK_SIZE * nat (file_blocks (de_size e)) - length bytes) NUL;
            if fd_offset f < 0 \<or> nat (fd_offset f) + unat nbyte > length buffer then None
            else let data = take (unat nbyte) (drop (nat (fd_offset f)) buffer) in
              if size_of_int (fd_offset f) + nbyte > size_of_int (de_size e)
              then Some (de_size e - fd_offset f, data,
                         s\<lparr>fd_array := (fd_array s)[nat fildes := f\<lparr>fd_offset := de_size e\<rparr>]\<rparr>)
              else Some (int_of_size nbyte, data,
                         s\<lparr>fd_array := (fd_array s)[nat fildes :=
                             f\<lparr>fd_offset := int_of_size (size_of_int (fd_offset f) + nbyte)\<rparr>]\<rparr>)
          }
        }
      })"


section \<open>fs_write\<close>

text \<open>The search for a free block: \<open>Some None\<close> when the loop ends without one.\<close>

function find_free :: "int \<Rightarrow> byte list \<Rightarrow> int option option" where
  "find_free j bm =
     (if j < int DISK_BLOCKS
      then do {
        b \<leftarrow> array_get bm j;
        if b = NUL then Some (Some j) else find_free (j + 1) bm
      }
      else Some None)"
  by pat_completeness auto
termination
  by (relation "measure (\<lambda>(j, bm). nat (int DISK_BLOCKS - j))") auto

declare find_free.simps [simp del]

text \<open>Following the chain for \<open>n\<close> blocks and extending it at its end; -1 when the disk is full.\<close>

fun alloc_loop :: "int \<Rightarrow> nat \<Rightarrow> int \<Rightarrow> Inode list \<Rightarrow> byte list \<Rightarrow> (int \<times> Inode list \<times> byte list) option" where
  "alloc_loop doff 0 inode T bm = Some (0, T, bm)"
| "alloc_loop doff (Suc n) inode T bm = do {
     t \<leftarrow> array_get T inode;
     if next_direct_offset t = -1
     then do {
       m \<leftarrow> find_free doff bm;
       (case m of
          None \<Rightarrow> if doff < int DISK_BLOCKS then Some (-1, T, bm) else alloc_loop doff n (-1) T bm
        | Some j \<Rightarrow> do {
            bm' \<leftarrow> array_set bm j (CHR 0x01);
            T1 \<leftarrow> array_set T inode (t\<lparr>next_direct_offset := j\<rparr>);
            tj \<leftarrow> array_get T1 j;
            T2 \<leftarrow> array_set T1 j (tj\<lparr>next_direct_offset := -1\<rparr>);
            t' \<leftarrow> array_get T2 inode;
            alloc_loop doff n (next_direct_offset t') T2 bm'
          })
     }
     else alloc_loop doff n (next_direct_offset t) T bm
   }"

fun read_all :: "os \<Rightarrow> disk \<Rightarrow> Inode list \<Rightarrow> nat \<Rightarrow> int \<Rightarrow> (int \<times> byte list) option" where
  "read_all os d T 0 inode = Some (0, [])"
| "read_all os d T (Suc n) inode = (
     let (r, buf) = block_read os inode zero_block d in
     if r = -1 then Some (-1, [])
     else do {
       t \<leftarrow> array_get T inode;
       (r', rest) \<leftarrow> read_all os d T n (next_direct_offset t);
       Some (r', buf @ rest)
     })"

fun write_all :: "os \<Rightarrow> Inode list \<Rightarrow> nat \<Rightarrow> int \<Rightarrow> byte list \<Rightarrow> disk \<Rightarrow> (int \<times> disk) option" where
  "write_all os T 0 inode buffer d = Some (0, d)"
| "write_all os T (Suc n) inode buffer d = (
     let (r, d') = block_write os inode (take BLOCK_SIZE buffer) d in
     if r = -1 then Some (-1, d')
     else do {
       t \<leftarrow> array_get T inode;
       write_all os T n (next_direct_offset t) (drop BLOCK_SIZE buffer) d'
     })"

definition fs_write :: "os \<Rightarrow> int \<Rightarrow> byte list \<Rightarrow> u64 \<Rightarrow> fs \<Rightarrow> (int \<times> fs) option" where
  "fs_write os fildes buf nbyte0 s =
     (if fildes < 0 \<or> fildes > int MAX_FILE_DESCRIPTOR then Some (-1, s)
      else do {
        f \<leftarrow> array_get (fd_array s) fildes;
        if \<not> fd_used f then Some (-1, s)
        else do {
          dir \<leftarrow> Directory s;
          m \<leftarrow> dir_of_fd dir (fd_array s) fildes;
          index \<leftarrow> m;
          let e = dir ! index;
          let off = size_of_int (fd_offset f);
          let nbyte = (if off + nbyte0 > size_of_int MAX_FILESIZE
                       then size_of_int (MAX_FILESIZE - fd_offset f) else nbyte0);
          sb \<leftarrow> super s;
          T \<leftarrow> Table s;
          bm \<leftarrow> used_block_bitmap s;
          (r1, T', bm') \<leftarrow> alloc_loop (data_offset sb)
             (unat ((off + nbyte - 1) div size_of_int (int BLOCK_SIZE))) (de_inode_number e) T bm;
          let s1 = s\<lparr>Table := Some T', used_block_bitmap := Some bm'\<rparr>;
          if r1 = -1 then Some (-1, s1)
          else do {
            let sz = (if off + nbyte > size_of_int (de_size e) then int_of_size (off + nbyte) else de_size e);
            let s2 = s1\<lparr>Directory := Some (dir[index := e\<lparr>de_size := sz\<rparr>])\<rparr>;
            (r2, old) \<leftarrow> read_all os (dsk s) T' (nat (file_blocks sz)) (de_inode_number e);
            if r2 = -1 then Some (-1, s2)
            else if unat nbyte > length buf \<or> fd_offset f < 0 then None
            else do {
              new \<leftarrow> memcpy old (nat (fd_offset f)) (take (unat nbyte) buf);
              (r3, d') \<leftarrow> write_all os T' (nat (file_blocks sz)) (de_inode_number e) new (dsk s);
              let s3 = s2\<lparr>dsk := d'\<rparr>;
              if r3 = -1 then Some (-1, s3)
              else Some (int_of_size nbyte,
                         s3\<lparr>fd_array := (fd_array s)[nat fildes := f\<lparr>fd_offset := int_of_size (off + nbyte)\<rparr>]\<rparr>)
            }
          }
        }
      })"


section \<open>fs_get_filesize, fs_listfiles, fs_lseek\<close>

definition fs_get_filesize :: "int \<Rightarrow> fs \<Rightarrow> int option" where
  "fs_get_filesize fildes s = do {
     dir \<leftarrow> Directory s;
     m \<leftarrow> dir_of_fd dir (fd_array s) fildes;
     Some (case m of None \<Rightarrow> -1 | Some i \<Rightarrow> de_size (dir ! i))
   }"

text \<open>The names written to \<open>*files\<close>, without the terminating null pointer.\<close>

definition fs_listfiles :: "fs \<Rightarrow> (int \<times> string list) option" where
  "fs_listfiles s = do {
     dir \<leftarrow> Directory s;
     Some (0, map (\<lambda>e. cstr (de_name e)) (filter de_used dir))
   }"

definition fs_lseek :: "int \<Rightarrow> int \<Rightarrow> fs \<Rightarrow> (int \<times> fs) option" where
  "fs_lseek fildes offset s =
     (if fildes < 0 \<or> fildes > int MAX_FILE_DESCRIPTOR then Some (-1, s)
      else do {
        f \<leftarrow> array_get (fd_array s) fildes;
        if \<not> fd_used f then Some (-1, s)
        else do {
          dir \<leftarrow> Directory s;
          m \<leftarrow> dir_of_fd dir (fd_array s) fildes;
          (case m of
             None \<Rightarrow> Some (-1, s)
           | Some i \<Rightarrow>
               if offset < 0 \<or> offset > de_size (dir ! i) then Some (-1, s)
               else Some (0, s\<lparr>fd_array := (fd_array s)[nat fildes := f\<lparr>fd_offset := int_of_off offset\<rparr>]\<rparr>))
        }
      })"


section \<open>fs_truncate\<close>

fun skip_loop :: "Inode list \<Rightarrow> nat \<Rightarrow> int \<Rightarrow> int option" where
  "skip_loop T 0 inode = Some inode"
| "skip_loop T (Suc n) inode = do { t \<leftarrow> array_get T inode; skip_loop T n (next_direct_offset t) }"

function trunc_loop :: "int \<Rightarrow> Inode list \<Rightarrow> Inode list option" where
  "trunc_loop inode T =
     (if inode \<noteq> -1
      then do {
        n \<leftarrow> array_get T inode;
        T' \<leftarrow> array_set T inode (n\<lparr>next_direct_offset := -2\<rparr>);
        trunc_loop (next_direct_offset n) T'
      }
      else Some T)"
  by pat_completeness auto
termination
  by (relation "measure (\<lambda>(inode, T). chase_measure inode T)") (auto intro: chase_measure_step)

declare trunc_loop.simps [simp del]

definition fs_truncate :: "int \<Rightarrow> int \<Rightarrow> fs \<Rightarrow> (int \<times> fs) option" where
  "fs_truncate fildes len s =
     (if fildes < 0 \<or> fildes > int MAX_FILE_DESCRIPTOR then Some (-1, s)
      else do {
        f \<leftarrow> array_get (fd_array s) fildes;
        if \<not> fd_used f then Some (-1, s)
        else do {
          dir \<leftarrow> Directory s;
          m \<leftarrow> dir_of_fd dir (fd_array s) fildes;
          i \<leftarrow> m;
          let e = dir ! i;
          if len > de_size e then Some (-1, s)
          else do {
            T \<leftarrow> Table s;
            trunc \<leftarrow> skip_loop T (nat ((len - 1) sdiv int BLOCK_SIZE)) (de_inode_number e);
            T' \<leftarrow> trunc_loop trunc T;
            n \<leftarrow> array_get T' trunc;
            T'' \<leftarrow> array_set T' trunc (n\<lparr>next_direct_offset := -1\<rparr>);
            Some (0, s\<lparr>Table := Some T'', Directory := Some (dir[i := e\<lparr>de_size := int_of_off len\<rparr>])\<rparr>)
          }
        }
      })"

end
