(* ===== verification/FS_Chain.thy ===== *)
theory FS_Chain
  imports File_System
begin

text \<open>
  The inode table as linked lists of blocks. \<open>chain T i bs\<close> says that following
  \<open>next_direct_offset\<close> from block \<open>i\<close> visits exactly \<open>bs\<close> and ends at -1. The loops of
  \<^verbatim>\<open>fs.c\<close> that follow a chain are characterised here once, over the list of its blocks.
\<close>

section \<open>Chains\<close>

fun chain :: "Inode list \<Rightarrow> int \<Rightarrow> int list \<Rightarrow> bool" where
  "chain T i [] \<longleftrightarrow> i = -1"
| "chain T i (b # bs) \<longleftrightarrow> i = b \<and> 0 \<le> b \<and> b < int (length T) \<and> chain T (next_direct_offset (T ! nat b)) bs"

lemma chain_range: "chain T i bs \<Longrightarrow> b \<in> set bs \<Longrightarrow> 0 \<le> b \<and> b < int (length T)"
  by (induction T i bs rule: chain.induct) auto

lemma chain_hd: "chain T i bs \<Longrightarrow> bs \<noteq> [] \<Longrightarrow> hd bs = i"
  by (cases bs) auto

lemma chain_unique: "chain T i bs \<Longrightarrow> chain T i cs \<Longrightarrow> bs = cs"
proof (induction T i bs arbitrary: cs rule: chain.induct)
  case (1 T i)
  then show ?case by (cases cs) auto
next
  case (2 T i b bs)
  then show ?case by (cases cs) auto
qed

lemma chain_suffix: "chain T i (as @ b # bs) \<Longrightarrow> chain T b (b # bs)"
  by (induction as arbitrary: i) auto

lemma chain_distinct: "chain T i bs \<Longrightarrow> distinct bs"
proof (induction T i bs rule: chain.induct)
  case (1 T i)
  then show ?case by simp
next
  case (2 T i b bs)
  have "b \<notin> set bs"
  proof
    assume "b \<in> set bs"
    then obtain as cs where bs: "bs = as @ b # cs" by (auto simp: in_set_conv_decomp)
    have "chain T b (b # cs)" using "2.prems" by (auto simp: bs dest: chain_suffix)
    moreover have "chain T b (b # bs)" using "2.prems" by auto
    ultimately have "b # cs = b # bs" by (rule chain_unique)
    then show False by (simp add: bs)
  qed
  with 2 show ?case by auto
qed

lemma chain_upd_other:
  "b \<notin> set bs \<Longrightarrow> 0 \<le> b \<Longrightarrow> chain (T[nat b := n]) i bs = chain T i bs"
  by (induction T i bs rule: chain.induct) (auto simp: nth_list_update)

lemma chain_cong:
  "length T' = length T \<Longrightarrow> (\<And>b. b \<in> set bs \<Longrightarrow> next_direct_offset (T' ! nat b) = next_direct_offset (T ! nat b)) \<Longrightarrow>
     chain T' i bs = chain T i bs"
  by (induction T i bs rule: chain.induct) auto

lemma chain_length:
  assumes "chain T i bs"
  shows "length bs \<le> length T"
proof -
  have "length bs = card (set bs)"
    using chain_distinct [OF assms] by (simp add: distinct_card)
  also have "\<dots> \<le> card {0..<int (length T)}"
    by (rule card_mono) (use chain_range [OF assms] in auto)
  finally show ?thesis by simp
qed

text \<open>The blocks of a file, computed: enough fuel is the size of the table.\<close>

fun walk :: "Inode list \<Rightarrow> nat \<Rightarrow> int \<Rightarrow> int list" where
  "walk T 0 i = []"
| "walk T (Suc n) i =
     (case array_get T i of None \<Rightarrow> [] | Some t \<Rightarrow> i # walk T n (next_direct_offset t))"

definition blocks :: "Inode list \<Rightarrow> int \<Rightarrow> int list" where
  "blocks T i = walk T (length T) i"

lemma walk_chain: "chain T i bs \<Longrightarrow> length bs \<le> n \<Longrightarrow> walk T n i = bs"
proof (induction T i bs arbitrary: n rule: chain.induct)
  case (1 T i)
  then show ?case by (cases n) (auto simp: array_get_def)
next
  case (2 T i b bs)
  then show ?case by (cases n) (auto simp: array_get_in)
qed

lemma blocks_eq: "chain T i bs \<Longrightarrow> blocks T i = bs"
  by (simp add: blocks_def walk_chain chain_length)


section \<open>Changing a set of array elements\<close>

definition upd_at :: "int set \<Rightarrow> ('a \<Rightarrow> 'a) \<Rightarrow> 'a list \<Rightarrow> 'a list" where
  "upd_at S f xs = map (\<lambda>k. if int k \<in> S then f (xs ! k) else xs ! k) [0..<length xs]"

lemma length_upd_at [simp]: "length (upd_at S f xs) = length xs"
  by (simp add: upd_at_def)

lemma nth_upd_at [simp]: "k < length xs \<Longrightarrow> upd_at S f xs ! k = (if int k \<in> S then f (xs ! k) else xs ! k)"
  by (simp add: upd_at_def)

lemma upd_at_empty [simp]: "upd_at {} f xs = xs"
  by (rule nth_equalityI) auto

lemma upd_at_insert:
  assumes "0 \<le> b" "b \<notin> S"
  shows "upd_at (insert b S) f xs = upd_at S f (xs[nat b := f (xs ! nat b)])"
  using assms by (auto intro!: nth_equalityI simp: nth_list_update)

lemma upd_at_cons:
  assumes "0 \<le> b" "b \<notin> set bs"
  shows "upd_at (set (b # bs)) f xs = upd_at (set bs) f (xs[nat b := f (xs ! nat b)])"
  using upd_at_insert [OF assms] by simp

abbreviation free_inode :: "Inode \<Rightarrow> Inode" where
  "free_inode n \<equiv> n\<lparr>next_direct_offset := -2\<rparr>"


section \<open>The loops over chains\<close>

lemma read_loop_chain:
  assumes "dev_ready os d" "length T = DISK_BLOCKS"
  shows "chain T i bs \<Longrightarrow> bs \<noteq> [] \<Longrightarrow> read_loop os d T n i = Some (0, concat (map (blk d) (take n bs)))"
proof (induction n arbitrary: i bs)
  case 0
  then show ?case by simp
next
  case (Suc n)
  then obtain cs where bs: "bs = i # cs" and i: "0 \<le> i" "i < int DISK_BLOCKS"
      and c: "chain T (next_direct_offset (T ! nat i)) cs"
    using assms(2) by (cases bs) auto
  have rd: "block_read os i zero_block d = (0, blk d i)"
    using assms(1) i by (simp add: block_read_ready zero_block_def)
  show ?case
  proof (cases cs)
    case Nil
    with c rd i assms(2) show ?thesis by (simp add: bs array_get_in)
  next
    case (Cons c' cs')
    with c have ne: "next_direct_offset (T ! nat i) \<noteq> -1" by auto
    from Suc.IH [OF c] Cons have
      "read_loop os d T n (next_direct_offset (T ! nat i)) = Some (0, concat (map (blk d) (take n cs)))"
      by simp
    with rd i ne assms(2) show ?thesis by (simp add: bs array_get_in)
  qed
qed

lemma read_all_chain:
  assumes "dev_ready os d" "length T = DISK_BLOCKS"
  shows "chain T i bs \<Longrightarrow> n \<le> length bs \<Longrightarrow> read_all os d T n i = Some (0, concat (map (blk d) (take n bs)))"
proof (induction n arbitrary: i bs)
  case 0
  then show ?case by simp
next
  case (Suc n)
  then obtain cs where bs: "bs = i # cs" and i: "0 \<le> i" "i < int DISK_BLOCKS"
      and c: "chain T (next_direct_offset (T ! nat i)) cs" and n: "n \<le> length cs"
    using assms(2) by (cases bs) auto
  have rd: "block_read os i zero_block d = (0, blk d i)"
    using assms(1) i by (simp add: block_read_ready zero_block_def)
  from Suc.IH [OF c n] rd i assms(2) show ?case by (simp add: bs array_get_in)
qed

definition buffers :: "nat \<Rightarrow> byte list \<Rightarrow> byte list list" where
  "buffers n buf = map (\<lambda>k. chunk BLOCK_SIZE k buf) [0..<n]"

lemma length_buffers [simp]: "length (buffers n buf) = n"
  by (simp add: buffers_def)

lemma buffers_Suc: "buffers (Suc n) buf = take BLOCK_SIZE buf # buffers n (drop BLOCK_SIZE buf)"
proof -
  have "map (\<lambda>k. chunk BLOCK_SIZE k buf) [1..<Suc n] = map (\<lambda>k. chunk BLOCK_SIZE (Suc k) buf) [0..<n]"
    by (simp add: map_Suc_upt [symmetric] comp_def del: upt_Suc)
  then show ?thesis
    by (simp add: buffers_def upt_conv_Cons chunk_def add.commute del: upt_Suc)
qed

lemma buffers_length:
  "length buf = n * BLOCK_SIZE \<Longrightarrow> b \<in> set (buffers n buf) \<Longrightarrow> length b = BLOCK_SIZE"
proof (induction n arbitrary: buf)
  case 0
  then show ?case by (simp add: buffers_def)
next
  case (Suc n)
  then show ?case using Suc.IH [of "drop BLOCK_SIZE buf"] by (auto simp: buffers_Suc)
qed

lemma concat_buffers: "length buf = n * BLOCK_SIZE \<Longrightarrow> concat (buffers n buf) = buf"
  by (induction n arbitrary: buf) (auto simp: buffers_Suc buffers_def [of 0])

lemma write_all_chain:
  assumes "length T = DISK_BLOCKS"
  shows "dev_ready os d \<Longrightarrow> chain T i bs \<Longrightarrow> n \<le> length bs \<Longrightarrow> length buf = n * BLOCK_SIZE \<Longrightarrow>
     write_all os T n i buf d = Some (0, write_seq (block_write os) (zip (take n bs) (buffers n buf)) d)"
proof (induction n arbitrary: i bs buf d)
  case 0
  then show ?case by simp
next
  case (Suc n)
  then obtain cs where bs: "bs = i # cs" and i: "0 \<le> i" "i < int DISK_BLOCKS"
      and c: "chain T (next_direct_offset (T ! nat i)) cs" and n: "n \<le> length cs"
    using assms by (cases bs) auto
  obtain d' where wr: "block_write os i (take BLOCK_SIZE buf) d = (0, d')"
    using block_write_ready [OF Suc.prems(1) i] by auto
  have d': "dev_ready os d'"
    using block_write_dev_ready [OF Suc.prems(1) i, of "take BLOCK_SIZE buf"] wr Suc.prems(4) by simp
  have len: "length (drop BLOCK_SIZE buf) = n * BLOCK_SIZE"
    using Suc.prems(4) by simp
  from Suc.IH [OF d' c n len] wr i assms show ?case
    by (simp add: bs array_get_in buffers_Suc)
qed

lemma delete_loop_chain:
  "chain T i (bs @ [l]) \<Longrightarrow> length bm = length T \<Longrightarrow>
     delete_loop i T bm = Some (l, upd_at (set bs) free_inode T, upd_at (set bs) (\<lambda>_. NUL) bm)"
proof (induction bs arbitrary: i T bm)
  case Nil
  then show ?case by (subst delete_loop.simps) (auto simp: array_get_in)
next
  case (Cons b bs)
  let ?T = "T[nat b := free_inode (T ! nat b)]" and ?bm = "bm[nat b := NUL]"
  from Cons.prems have b: "i = b" "0 \<le> b" "b < int (length T)"
      and c: "chain T (next_direct_offset (T ! nat b)) (bs @ [l])"
    by auto
  have nb: "b \<notin> set (bs @ [l])"
    using chain_distinct [OF Cons.prems(1)] by auto
  have ne: "next_direct_offset (T ! nat b) \<noteq> -1"
    using c by (cases bs) auto
  have "chain ?T (next_direct_offset (T ! nat b)) (bs @ [l])"
    using c nb b by (simp add: chain_upd_other del: set_append)
  from Cons.IH [OF this, of ?bm] Cons.prems(2)
  have "delete_loop (next_direct_offset (T ! nat b)) ?T ?bm =
          Some (l, upd_at (set bs) free_inode ?T, upd_at (set bs) (\<lambda>_. NUL) ?bm)"
    by simp
  moreover have "b \<notin> set bs" using nb by simp
  ultimately show ?case
    using b ne Cons.prems(2)
    by (subst delete_loop.simps) (simp add: array_get_in array_set_in upd_at_cons del: set_simps)
qed

lemma skip_loop_chain:
  "chain T i bs \<Longrightarrow> n < length bs \<Longrightarrow> skip_loop T n i = Some (bs ! n)"
proof (induction n arbitrary: i bs)
  case 0
  then show ?case by (cases bs) auto
next
  case (Suc n)
  then obtain cs where "bs = i # cs" "0 \<le> i" "i < int (length T)"
      "chain T (next_direct_offset (T ! nat i)) cs" "n < length cs"
    by (cases bs) auto
  with Suc.IH [of "next_direct_offset (T ! nat i)" cs] show ?case by (simp add: array_get_in)
qed

lemma trunc_loop_chain:
  "chain T i bs \<Longrightarrow> trunc_loop i T = Some (upd_at (set bs) free_inode T)"
proof (induction bs arbitrary: i T)
  case Nil
  then show ?case by (subst trunc_loop.simps) simp
next
  case (Cons b bs)
  let ?T = "T[nat b := free_inode (T ! nat b)]"
  from Cons.prems have b: "i = b" "0 \<le> b" "b < int (length T)"
      and c: "chain T (next_direct_offset (T ! nat b)) bs"
    by auto
  have nb: "b \<notin> set bs" using chain_distinct [OF Cons.prems] by auto
  have "chain ?T (next_direct_offset (T ! nat b)) bs"
    using c nb b by (simp add: chain_upd_other)
  from Cons.IH [OF this] b nb show ?case
    by (subst trunc_loop.simps) (simp add: array_get_in array_set_in upd_at_cons del: set_simps)
qed


section \<open>Free blocks\<close>

definition free_set :: "int \<Rightarrow> byte list \<Rightarrow> int set" where
  "free_set lo bm = {j. lo \<le> j \<and> j < int DISK_BLOCKS \<and> bm ! nat j = NUL}"

lemma finite_free_set [simp]: "finite (free_set lo bm)"
  by (rule finite_subset [of _ "{lo..<int DISK_BLOCKS}"]) (auto simp: free_set_def)

lemma find_free_spec:
  assumes "length bm = DISK_BLOCKS" "0 \<le> j"
  shows "find_free j bm = Some (if free_set j bm = {} then None else Some (Min (free_set j bm)))"
  using assms
proof (induction j bm rule: find_free.induct)
  case (1 j bm)
  show ?case
  proof (cases "j < int DISK_BLOCKS")
    case False
    then show ?thesis by (subst find_free.simps) (auto simp: free_set_def)
  next
    case True
    then have get: "array_get bm j = Some (bm ! nat j)"
      using "1.prems" by (simp add: array_get_in)
    show ?thesis
    proof (cases "bm ! nat j = NUL")
      case b: True
      have "Min (free_set j bm) = j"
        by (rule Min_eqI [OF finite_free_set]) (use True b in \<open>auto simp: free_set_def\<close>)
      with True b get show ?thesis
        by (subst find_free.simps) (auto simp: free_set_def)
    next
      case b: False
      have "free_set j bm = free_set (j + 1) bm"
        using b by (auto simp: free_set_def order_le_less)
      moreover from "1.IH" [OF True get b] "1.prems"
      have "find_free (j + 1) bm =
              Some (if free_set (j + 1) bm = {} then None else Some (Min (free_set (j + 1) bm)))"
        by simp
      ultimately show ?thesis
        using True b get by (subst find_free.simps) simp
    qed
  qed
qed

lemma find_free_Some:
  assumes "length bm = DISK_BLOCKS" "0 \<le> lo" "free_set lo bm \<noteq> {}"
  obtains j where "find_free lo bm = Some (Some j)" "j \<in> free_set lo bm"
  using assms Min_in [OF finite_free_set assms(3)] find_free_spec [OF assms(1,2)] that by simp


section \<open>Extending a chain\<close>

definition extends :: "int \<Rightarrow> byte list \<Rightarrow> Inode list \<Rightarrow> int \<Rightarrow> int list \<Rightarrow> Inode list \<Rightarrow> byte list \<Rightarrow> bool" where
  "extends lo bm T l js T' bm' \<longleftrightarrow>
     length T' = length T \<and> distinct js \<and> set js \<subseteq> free_set lo bm \<and>
     bm' = upd_at (set js) (\<lambda>_. CHR 0x01) bm \<and>
     (\<forall>k<length T. int k \<notin> set js \<longrightarrow> int k \<noteq> l \<longrightarrow> T' ! k = T ! k)"

lemma extends_refl: "extends lo bm T l [] T bm"
  by (simp add: extends_def)

lemma free_set_mark:
  assumes "length bm = DISK_BLOCKS" "j \<in> free_set lo bm" "0 \<le> lo"
  shows "free_set lo (bm[nat j := CHR 0x01]) = free_set lo bm - {j}"
  using assms by (auto simp: free_set_def nth_list_update nat_eq_iff split: if_splits)

lemma extends_step:
  assumes j: "j \<in> free_set lo bm" "0 \<le> lo" "length bm = DISK_BLOCKS" "length T = DISK_BLOCKS"
    and b: "0 \<le> b" "b < int DISK_BLOCKS" "b \<noteq> j"
    and T2: "T2 = T[nat b := tb, nat j := tj]"
    and ext: "extends lo (bm[nat j := CHR 0x01]) T2 j js T' bm'"
  shows "extends lo bm T b (j # js) T' bm'"
proof -
  have j0: "0 \<le> j" using j(1,2) by (auto simp: free_set_def)
  from ext have js: "set js \<subseteq> free_set lo bm - {j}"
    by (simp add: extends_def free_set_mark j)
  have bm': "bm' = upd_at (set (j # js)) (\<lambda>_. CHR 0x01) bm"
    using ext js j0 by (subst upd_at_cons) (auto simp: extends_def)
  have "T' ! k = T ! k" if "k < length T" "int k \<notin> set (j # js)" "int k \<noteq> b" for k
    using ext that b j0 by (auto simp: extends_def T2 nth_list_update)
  with ext js bm' j(1) show ?thesis by (auto simp: extends_def T2)
qed

text \<open>What \<open>alloc_loop\<close> gives for a chain \<open>bs\<close> that starts at \<open>i\<close>.\<close>

definition allocates :: "int \<Rightarrow> nat \<Rightarrow> int \<Rightarrow> Inode list \<Rightarrow> byte list \<Rightarrow> int list \<Rightarrow> bool" where
  "allocates lo n i T bm bs \<longleftrightarrow> (\<exists>r T' bm' js. alloc_loop lo n i T bm = Some (r, T', bm') \<and> chain T' i (bs @ js) \<and>
     extends lo bm T (last bs) js T' bm' \<and>
     (if Suc n - length bs \<le> card (free_set lo bm)
      then r = 0 \<and> length js = Suc n - length bs
      else r = -1 \<and> length js = card (free_set lo bm)))"

text \<open>The loop walks along the blocks that the file has.\<close>

lemma alloc_walk:
  assumes bs: "chain T i (i # cs)" "cs \<noteq> []" and len: "length T = DISK_BLOCKS" and used: "bm ! nat i \<noteq> NUL"
    and IH: "allocates lo n (hd cs) T bm cs"
  shows "allocates lo (Suc n) i T bm (i # cs)"
proof -
  obtain c' cs' where cs: "cs = c' # cs'" using bs(2) by (cases cs) auto
  have i: "0 \<le> i" "i < int DISK_BLOCKS" and nx: "next_direct_offset (T ! nat i) = c'" "c' \<noteq> -1" using bs(1) len by (auto simp: cs)
  have step: "alloc_loop lo (Suc n) i T bm = alloc_loop lo n c' T bm" using i len nx by (simp add: array_get_in)
  from IH obtain r T' bm' js where *: "alloc_loop lo n c' T bm = Some (r, T', bm')" "chain T' c' (cs @ js)"
      "extends lo bm T (last cs) js T' bm'"
      "if Suc n - length cs \<le> card (free_set lo bm)
       then r = 0 \<and> length js = Suc n - length cs else r = -1 \<and> length js = card (free_set lo bm)"
    by (auto simp: allocates_def cs)
  have "i \<notin> set js" using *(3) used by (auto simp: extends_def free_set_def)
  moreover have "i \<noteq> last cs" using chain_distinct [OF bs(1)] bs(2) by auto
  ultimately have "T' ! nat i = T ! nat i" "length T' = length T" using *(3) i len by (auto simp: extends_def)
  with *(2) nx i len have "chain T' i ((i # cs) @ js)" by (simp add: cs)
  with * step bs(2) show ?thesis by (auto simp: allocates_def)
qed

text \<open>At the end of the file it appends the first free block.\<close>

lemma alloc_append:
  assumes lo: "0 \<le> lo" and c: "chain T i [i]" and len: "length T = DISK_BLOCKS" "length bm = DISK_BLOCKS" and used: "bm ! nat i \<noteq> NUL"
    and j: "find_free lo bm = Some (Some j)" "j \<in> free_set lo bm"
    and IH: "allocates lo n j (T[nat i := (T ! nat i)\<lparr>next_direct_offset := j\<rparr>, nat j := (T ! nat j)\<lparr>next_direct_offset := -1\<rparr>])
      (bm[nat j := CHR 0x01]) [j]"
  shows "allocates lo (Suc n) i T bm [i]"
proof -
  have i: "0 \<le> i" "i < int DISK_BLOCKS" and nx: "next_direct_offset (T ! nat i) = -1" using c len(1) by auto
  from j(2) lo used have j0: "0 \<le> j" "j < int DISK_BLOCKS" "j \<noteq> i" by (auto simp: free_set_def)
  let ?T1 = "T[nat i := (T ! nat i)\<lparr>next_direct_offset := j\<rparr>]"
  let ?T2 = "?T1[nat j := (T ! nat j)\<lparr>next_direct_offset := -1\<rparr>]"
  let ?bm = "bm[nat j := CHR 0x01]"
  have T2i: "?T2 ! nat i = (T ! nat i)\<lparr>next_direct_offset := j\<rparr>"
    using i j0 len(1) by (simp add: nth_list_update)
  have step: "alloc_loop lo (Suc n) i T bm = alloc_loop lo n j ?T2 ?bm"
    using nx j(1) i j0 len T2i by (simp add: array_get_in array_set_in nth_list_update)
  from IH obtain r T' bm' js where *: "alloc_loop lo n j ?T2 ?bm = Some (r, T', bm')"
      "chain T' j ([j] @ js)" "extends lo ?bm ?T2 j js T' bm'"
      "if n \<le> card (free_set lo ?bm)
       then r = 0 \<and> length js = n else r = -1 \<and> length js = card (free_set lo ?bm)"
    by (auto simp: allocates_def)
  have card: "card (free_set lo bm) = Suc (card (free_set lo ?bm))"
    using j(2) lo len(2) card_Suc_Diff1 [OF finite_free_set j(2)] by (simp add: free_set_mark)
  have "i \<notin> set js"
    using *(3) used j0 i by (auto simp: extends_def free_set_def nth_list_update split: if_splits)
  then have "T' ! nat i = ?T2 ! nat i" "length T' = length T"
    using *(3) i j0 len(1) by (auto simp: extends_def)
  with *(2) T2i i len(1) have "chain T' i (i # j # js)" by simp
  moreover have "extends lo bm T i (j # js) T' bm'"
    by (rule extends_step [OF j(2) lo len(2,1) i _ refl *(3)]) (use j0 in simp)
  ultimately show ?thesis
    using *(1,4) step card by (auto intro!: exI [of _ "j # js"] simp: allocates_def)
qed

lemma alloc_loop_allocates:
  assumes lo: "0 \<le> lo" "lo < int DISK_BLOCKS"
  shows "chain T i bs \<Longrightarrow> bs \<noteq> [] \<Longrightarrow> length T = DISK_BLOCKS \<Longrightarrow> length bm = DISK_BLOCKS \<Longrightarrow>
     (\<And>b. b \<in> set bs \<Longrightarrow> bm ! nat b \<noteq> NUL) \<Longrightarrow> allocates lo n i T bm bs"
proof (induction n arbitrary: i T bm bs)
  case 0
  then have "Suc 0 - length bs = 0" by (cases bs) auto
  with 0 show ?case by (auto intro!: exI [of _ "[]"] simp: extends_refl allocates_def)
next
  case (Suc n)
  then obtain cs where bs: "bs = i # cs" and i: "0 \<le> i" "i < int DISK_BLOCKS"
      and c: "chain T (next_direct_offset (T ! nat i)) cs"
    by (cases bs) auto
  have used: "bm ! nat i \<noteq> NUL" using Suc.prems(5) by (simp add: bs)
  show ?case
  proof (cases "cs = []")
    case False
    then have "chain T (hd cs) cs" using c by (cases cs) auto
    then have "allocates lo n (hd cs) T bm cs" using Suc.IH [of T "hd cs" cs bm] Suc.prems False by (simp add: bs)
    with alloc_walk [OF _ False Suc.prems(3) used] Suc.prems(1) show ?thesis by (simp add: bs)
  next
    case True
    with c have nx: "next_direct_offset (T ! nat i) = -1" by simp
    show ?thesis
    proof (cases "free_set lo bm = {}")
      case empty: True
      then have "alloc_loop lo (Suc n) i T bm = Some (-1, T, bm)"
        using i Suc.prems(3) nx lo find_free_spec [OF Suc.prems(4) lo(1)] by (simp add: array_get_in)
      with empty True Suc.prems(1) show ?thesis
        by (auto intro!: exI [of _ "[]"] simp: bs extends_refl allocates_def)
    next
      case False
      obtain j where j: "find_free lo bm = Some (Some j)" "j \<in> free_set lo bm"
        using find_free_Some [OF Suc.prems(4) lo(1) False] by blast
      from j(2) lo used have j0: "0 \<le> j" "j < int DISK_BLOCKS" "j \<noteq> i" by (auto simp: free_set_def)
      let ?T2 = "T[nat i := (T ! nat i)\<lparr>next_direct_offset := j\<rparr>, nat j := (T ! nat j)\<lparr>next_direct_offset := -1\<rparr>]"
      have "allocates lo n j ?T2 (bm[nat j := CHR 0x01]) [j]"
        by (rule Suc.IH) (use Suc.prems(3,4) j0 in \<open>auto simp: nth_list_update\<close>)
      with alloc_append [OF lo(1) _ Suc.prems(3,4) used j] Suc.prems(1) show ?thesis by (simp add: bs True)
    qed
  qed
qed

lemma alloc_loop_chain:
  assumes lo: "0 \<le> lo" "lo < int DISK_BLOCKS"
  shows "chain T i bs \<Longrightarrow> bs \<noteq> [] \<Longrightarrow> length T = DISK_BLOCKS \<Longrightarrow> length bm = DISK_BLOCKS \<Longrightarrow>
     (\<And>b. b \<in> set bs \<Longrightarrow> bm ! nat b \<noteq> NUL) \<Longrightarrow>
     \<exists>r T' bm' js. alloc_loop lo n i T bm = Some (r, T', bm') \<and> chain T' i (bs @ js) \<and>
       extends lo bm T (last bs) js T' bm' \<and>
       (if Suc n - length bs \<le> card (free_set lo bm)
        then r = 0 \<and> length js = Suc n - length bs
        else r = -1 \<and> length js = card (free_set lo bm))"
  unfolding allocates_def [symmetric] by (rule alloc_loop_allocates [OF lo])

end
