(* ===== verification/FS_Inv.thy ===== *)
theory FS_Inv
  imports FS_Chain
begin

text \<open>
  The well-formedness invariant of a mounted file system and its abstraction: the files as
  a map from names to byte sequences, the descriptors as a map to name and position. The
  lemmas here say how the invariant and the abstraction change when one directory entry and
  the blocks of one file change; every operation is an instance.
\<close>

section \<open>Files\<close>

definition fblocks :: "Inode list \<Rightarrow> Directory_Entry \<Rightarrow> int list" where
  "fblocks T e = blocks T (de_inode_number e)"

abbreviation data_start :: int where
  "data_start \<equiv> data_offset make_super"

lemma data_start_eq: "data_start = 20"
  by (simp add: make_super_def Let_def sizeof_defs)

lemma data_start_range: "0 \<le> data_start" "data_start < int DISK_BLOCKS"
  by (simp_all add: data_start_eq DISK_BLOCKS_def)

definition file_ok :: "Inode list \<Rightarrow> byte list \<Rightarrow> Directory_Entry \<Rightarrow> bool" where
  "file_ok T bm e \<longleftrightarrow>
     chain T (de_inode_number e) (fblocks T e) \<and> fblocks T e \<noteq> [] \<and>
     (\<forall>b\<in>set (fblocks T e). data_start \<le> b \<and> bm ! nat b \<noteq> NUL) \<and>
     0 \<le> de_size e \<and> de_size e \<le> int (length (fblocks T e) * BLOCK_SIZE) \<and> de_size e \<le> MAX_FILESIZE"

definition files_ok :: "Inode list \<Rightarrow> byte list \<Rightarrow> Directory_Entry list \<Rightarrow> bool" where
  "files_ok T bm D \<longleftrightarrow>
     (\<forall>i<length D. de_used (D ! i) \<longrightarrow> file_ok T bm (D ! i)) \<and>
     (\<forall>i<length D. \<forall>j<length D. i \<noteq> j \<longrightarrow> de_used (D ! i) \<longrightarrow> de_used (D ! j) \<longrightarrow>
        set (fblocks T (D ! i)) \<inter> set (fblocks T (D ! j)) = {})"

definition names_ok :: "Directory_Entry list \<Rightarrow> bool" where
  "names_ok D \<longleftrightarrow>
     (\<forall>e\<in>set D. length (de_name e) = MAX_FILENAME_LENGTH + 1 \<and> NUL \<in> set (de_name e) \<and>
        (de_used e \<longleftrightarrow> cstr (de_name e) \<noteq> [])) \<and>
     (\<forall>i<length D. \<forall>j<length D. de_used (D ! i) \<longrightarrow> de_used (D ! j) \<longrightarrow>
        cstr (de_name (D ! i)) = cstr (de_name (D ! j)) \<longrightarrow> i = j)"

definition fd_refs :: "File_Descriptor list \<Rightarrow> int \<Rightarrow> nat" where
  "fd_refs fds inode = length (filter (\<lambda>f. fd_used f \<and> fd_inode_number f = inode) fds)"

definition fds_ok :: "Directory_Entry list \<Rightarrow> File_Descriptor list \<Rightarrow> bool" where
  "fds_ok D fds \<longleftrightarrow>
     (\<forall>f\<in>set fds. fd_used f \<longrightarrow> 0 \<le> fd_offset f \<and> fd_offset f \<le> MAX_FILESIZE \<and>
        (\<exists>e\<in>set D. de_used e \<and> de_inode_number e = fd_inode_number f)) \<and>
     (\<forall>e\<in>set D. de_used e \<longrightarrow> de_count e = int (fd_refs fds (de_inode_number e)))"

definition fs_wf :: "os \<Rightarrow> fs \<Rightarrow> bool" where
  "fs_wf os s \<longleftrightarrow> mounted s \<and> dev_ready os (dsk s) \<and> super s = Some make_super \<and>
     (\<exists>T bm D. Table s = Some T \<and> used_block_bitmap s = Some bm \<and> Directory s = Some D \<and>
        length T = DISK_BLOCKS \<and> length bm = DISK_BLOCKS \<and> length D = MAX_NUM_OF_FILES \<and>
        length (fd_array s) = MAX_FILE_DESCRIPTOR \<and>
        files_ok T bm D \<and> names_ok D \<and> fds_ok D (fd_array s))"

lemma fs_wfE:
  assumes "fs_wf os s"
  obtains T bm D where "mounted s" "dev_ready os (dsk s)" "super s = Some make_super"
    "Table s = Some T" "used_block_bitmap s = Some bm" "Directory s = Some D"
    "length T = DISK_BLOCKS" "length bm = DISK_BLOCKS" "length D = MAX_NUM_OF_FILES"
    "length (fd_array s) = MAX_FILE_DESCRIPTOR" "files_ok T bm D" "names_ok D" "fds_ok D (fd_array s)"
  using assms by (auto simp: fs_wf_def)

lemma file_okD:
  assumes "files_ok T bm D" "i < length D" "de_used (D ! i)"
  shows "chain T (de_inode_number (D ! i)) (fblocks T (D ! i))" "fblocks T (D ! i) \<noteq> []"
    "\<And>b. b \<in> set (fblocks T (D ! i)) \<Longrightarrow> data_start \<le> b \<and> bm ! nat b \<noteq> NUL"
    "0 \<le> de_size (D ! i)" "de_size (D ! i) \<le> int (length (fblocks T (D ! i)) * BLOCK_SIZE)"
    "de_size (D ! i) \<le> MAX_FILESIZE"
  using assms by (auto simp: files_ok_def file_ok_def)

lemma files_ok_disj:
  assumes "files_ok T bm D" "i < length D" "j < length D" "i \<noteq> j" "de_used (D ! i)" "de_used (D ! j)"
  shows "set (fblocks T (D ! i)) \<inter> set (fblocks T (D ! j)) = {}"
  using assms by (simp add: files_ok_def)

lemma inode_in_fblocks:
  assumes "files_ok T bm D" "i < length D" "de_used (D ! i)"
  shows "de_inode_number (D ! i) \<in> set (fblocks T (D ! i))"
  using chain_hd [OF file_okD(1,2) [OF assms]] file_okD(2) [OF assms] by (metis hd_in_set)

lemma inode_inj:
  assumes "files_ok T bm D" "i < length D" "j < length D" "de_used (D ! i)" "de_used (D ! j)"
    "de_inode_number (D ! i) = de_inode_number (D ! j)"
  shows "i = j"
proof (rule ccontr)
  assume "i \<noteq> j"
  with assms have "set (fblocks T (D ! i)) \<inter> set (fblocks T (D ! j)) = {}"
    by (auto simp: files_ok_def)
  with inode_in_fblocks [OF assms(1,2,4)] inode_in_fblocks [OF assms(1,3,5)] assms(6) show False
    by auto
qed

lemma fblocks_cong:
  assumes "chain T (de_inode_number e) (fblocks T e)" "length T' = length T"
    "\<And>b. b \<in> set (fblocks T e) \<Longrightarrow> next_direct_offset (T' ! nat b) = next_direct_offset (T ! nat b)"
  shows "fblocks T' e = fblocks T e"
proof -
  have "chain T' (de_inode_number e) (fblocks T e)"
    using chain_cong [OF assms(2,3)] assms(1) by blast
  from blocks_eq [OF this] show ?thesis by (simp only: fblocks_def)
qed

text \<open>One entry changes, and the other files keep their blocks.\<close>

definition keeps_file :: "Inode list \<Rightarrow> Inode list \<Rightarrow> byte list \<Rightarrow> Directory_Entry \<Rightarrow> bool" where
  "keeps_file T T' bm' e \<longleftrightarrow>
     (\<forall>b\<in>set (fblocks T e). next_direct_offset (T' ! nat b) = next_direct_offset (T ! nat b) \<and> bm' ! nat b \<noteq> NUL)"

lemma keeps_file_blocks:
  assumes "file_ok T bm e" "length T' = length T" "keeps_file T T' bm' e"
  shows "fblocks T' e = fblocks T e" "file_ok T' bm' e"
proof -
  show eq: "fblocks T' e = fblocks T e"
    by (rule fblocks_cong) (use assms in \<open>auto simp: file_ok_def keeps_file_def\<close>)
  have "chain T' (de_inode_number e) (fblocks T e)"
    using chain_cong [OF assms(2), of "fblocks T e"] assms(1,3) by (simp add: file_ok_def keeps_file_def)
  with assms(1,3) eq show "file_ok T' bm' e" by (auto simp: file_ok_def keeps_file_def)
qed

lemma files_ok_update:
  assumes ok: "files_ok T bm D" and k: "k < length D" and len: "length T' = length T"
    and keep: "\<And>i. i < length D \<Longrightarrow> i \<noteq> k \<Longrightarrow> de_used (D ! i) \<Longrightarrow> keeps_file T T' bm' (D ! i)"
    and new: "de_used e' \<Longrightarrow> file_ok T' bm' e'"
    and disj: "\<And>i. de_used e' \<Longrightarrow> i < length D \<Longrightarrow> i \<noteq> k \<Longrightarrow> de_used (D ! i) \<Longrightarrow>
                 set (fblocks T' e') \<inter> set (fblocks T (D ! i)) = {}"
  shows "files_ok T' bm' (D[k := e'])"
    and "\<And>i. i < length D \<Longrightarrow> i \<noteq> k \<Longrightarrow> de_used (D ! i) \<Longrightarrow> fblocks T' (D ! i) = fblocks T (D ! i)"
proof -
  have old: "file_ok T bm (D ! i)" if "i < length D" "de_used (D ! i)" for i
    using ok that by (simp add: files_ok_def)
  show eq: "fblocks T' (D ! i) = fblocks T (D ! i)"
    if "i < length D" "i \<noteq> k" "de_used (D ! i)" for i
    by (rule keeps_file_blocks(1) [OF old len keep]) (use that in auto)
  have "file_ok T' bm' (D[k := e'] ! i)" if "i < length D" "de_used (D[k := e'] ! i)" for i
  proof (cases "i = k")
    case True
    with that new k show ?thesis by simp
  next
    case False
    with that keeps_file_blocks(2) [OF old len keep, of i] show ?thesis by simp
  qed
  moreover have "set (fblocks T' (D[k := e'] ! i)) \<inter> set (fblocks T' (D[k := e'] ! j)) = {}"
    if "i < length D" "j < length D" "i \<noteq> j" "de_used (D[k := e'] ! i)" "de_used (D[k := e'] ! j)" for i j
  proof -
    consider "i = k" | "j = k" "i \<noteq> k" | "i \<noteq> k" "j \<noteq> k" by blast
    then show ?thesis
    proof cases
      case 1
      with that disj [of j] eq [of j] k show ?thesis by simp
    next
      case 2
      with that disj [of i] eq [of i] k show ?thesis by (simp add: Int_commute)
    next
      case 3
      with that ok eq [of i] eq [of j] show ?thesis by (simp add: files_ok_def)
    qed
  qed
  ultimately show "files_ok T' bm' (D[k := e'])" by (simp add: files_ok_def)
qed


section \<open>Names\<close>

definition lookup_dir :: "Directory_Entry list \<Rightarrow> string \<Rightarrow> nat option" where
  "lookup_dir D nm = find_idx (\<lambda>e. de_used e \<and> cstr (de_name e) = nm) D"

lemma names_okD:
  assumes "names_ok D" "i < length D"
  shows "length (de_name (D ! i)) = MAX_FILENAME_LENGTH + 1" "NUL \<in> set (de_name (D ! i))"
    "de_used (D ! i) \<longleftrightarrow> cstr (de_name (D ! i)) \<noteq> []"
  using assms by (auto simp: names_ok_def)

lemma names_ok_inj:
  assumes "names_ok D" "i < length D" "j < length D" "de_used (D ! i)" "de_used (D ! j)"
    "cstr (de_name (D ! i)) = cstr (de_name (D ! j))"
  shows "i = j"
  using assms by (simp add: names_ok_def)

lemma lookup_dir_Some:
  assumes "names_ok D"
  shows "lookup_dir D nm = Some i \<longleftrightarrow> i < length D \<and> de_used (D ! i) \<and> cstr (de_name (D ! i)) = nm"
proof
  assume "lookup_dir D nm = Some i"
  then show "i < length D \<and> de_used (D ! i) \<and> cstr (de_name (D ! i)) = nm"
    by (auto simp: lookup_dir_def dest: find_idx_SomeD)
next
  assume "i < length D \<and> de_used (D ! i) \<and> cstr (de_name (D ! i)) = nm"
  with assms show "lookup_dir D nm = Some i"
    by (auto simp: lookup_dir_def names_ok_def intro!: find_idx_unique)
qed

definition valid_name :: "string \<Rightarrow> bool" where
  "valid_name nm \<longleftrightarrow> nm \<noteq> [] \<and> NUL \<notin> set nm \<and> length nm \<le> MAX_FILENAME_LENGTH"

lemma search_name:
  assumes D: "names_ok D" and nm: "nm \<noteq> []" "NUL \<notin> set nm"
  shows "find_idx_m (\<lambda>e. strcmp_eq nm (de_name e)) D = Some (lookup_dir D nm)"
  unfolding lookup_dir_def
proof (rule find_idx_m_total)
  fix e
  assume e: "e \<in> set D"
  then have "NUL \<in> set (de_name e)" "de_used e \<longleftrightarrow> cstr (de_name e) \<noteq> []"
    using D by (auto simp: names_ok_def)
  then show "strcmp_eq nm (de_name e) = Some (de_used e \<and> cstr (de_name e) = nm)"
    using nm by (auto simp: strcmp_eq_cstr)
qed

lemma names_ok_update:
  assumes D: "names_ok D" and k: "k < length D"
    and e: "length (de_name e') = MAX_FILENAME_LENGTH + 1" "NUL \<in> set (de_name e')"
      "de_used e' \<longleftrightarrow> cstr (de_name e') \<noteq> []"
    and fresh: "\<And>i. i < length D \<Longrightarrow> i \<noteq> k \<Longrightarrow> de_used e' \<Longrightarrow> de_used (D ! i) \<Longrightarrow>
                  cstr (de_name (D ! i)) \<noteq> cstr (de_name e')"
  shows "names_ok (D[k := e'])"
proof -
  have "length (de_name x) = MAX_FILENAME_LENGTH + 1 \<and> NUL \<in> set (de_name x) \<and>
          (de_used x \<longleftrightarrow> cstr (de_name x) \<noteq> [])" if "x \<in> set (D[k := e'])" for x
    using set_update_subset_insert [of D k e'] that D e by (auto simp: names_ok_def)
  moreover have "i = j" if "i < length D" "j < length D" "de_used (D[k := e'] ! i)" "de_used (D[k := e'] ! j)"
      "cstr (de_name (D[k := e'] ! i)) = cstr (de_name (D[k := e'] ! j))" for i j
  proof -
    consider "i = k" "j = k" | "i = k" "j \<noteq> k" | "i \<noteq> k" "j = k" | "i \<noteq> k" "j \<noteq> k" by blast
    then show ?thesis
    proof cases
      case 2
      with that fresh [of j] k show ?thesis by simp
    next
      case 3
      with that fresh [of i] k show ?thesis by simp
    next
      case 4
      with that D show ?thesis by (simp add: names_ok_def)
    qed simp
  qed
  ultimately show ?thesis by (simp add: names_ok_def)
qed


section \<open>The abstract file system\<close>

text \<open>A file system promises a map from names to contents and open files with a name and a
  position.\<close>

record afs =
  afiles :: "string \<rightharpoonup> byte list"
  afds :: "int \<rightharpoonup> string \<times> nat"

definition content :: "disk \<Rightarrow> Inode list \<Rightarrow> Directory_Entry \<Rightarrow> byte list" where
  "content d T e = take (nat (de_size e)) (concat (map (blk d) (fblocks T e)))"

definition fs_files :: "fs \<Rightarrow> string \<rightharpoonup> byte list" where
  "fs_files s nm = do {
     T \<leftarrow> Table s; D \<leftarrow> Directory s; k \<leftarrow> lookup_dir D nm;
     Some (content (dsk s) T (D ! k))
   }"

definition fd_view :: "fs \<Rightarrow> int \<rightharpoonup> string \<times> nat" where
  "fd_view s fildes = do {
     D \<leftarrow> Directory s; f \<leftarrow> array_get (fd_array s) fildes;
     if fd_used f
     then do {
       k \<leftarrow> find_idx (\<lambda>e. de_used e \<and> de_inode_number e = fd_inode_number f) D;
       Some (cstr (de_name (D ! k)), nat (fd_offset f))
     }
     else None
   }"

definition fs_abs :: "fs \<Rightarrow> afs" where
  "fs_abs s = \<lparr>afiles = fs_files s, afds = fd_view s\<rparr>"

lemma fs_files_Some:
  assumes "Table s = Some T" "Directory s = Some D" "names_ok D"
  shows "fs_files s nm = Some c \<longleftrightarrow>
     (\<exists>k<length D. de_used (D ! k) \<and> cstr (de_name (D ! k)) = nm \<and> c = content (dsk s) T (D ! k))"
  using assms by (auto simp: fs_files_def bind_eq_Some_conv lookup_dir_Some)

lemma fs_files_None:
  assumes "Table s = Some T" "Directory s = Some D"
  shows "fs_files s nm = None \<longleftrightarrow> \<not> (\<exists>e\<in>set D. de_used e \<and> cstr (de_name e) = nm)"
  using assms by (simp add: fs_files_def lookup_dir_def bind_eq_None_conv find_idx_None)

lemma length_content:
  assumes "file_ok T bm e"
  shows "length (content d T e) = nat (de_size e)"
proof -
  have "length (concat (map (blk d) (fblocks T e))) = BLOCK_SIZE * length (fblocks T e)"
    by (rule length_concat_map_const) simp
  moreover have "nat (de_size e) \<le> length (fblocks T e) * BLOCK_SIZE"
    using assms by (auto simp: file_ok_def nat_le_iff)
  ultimately show ?thesis by (simp add: content_def mult.commute)
qed

text \<open>Replacing one entry of the directory, when the other files keep their contents.\<close>

lemma fs_files_update:
  assumes s: "Table s = Some T" "Directory s = Some D" "names_ok D"
    and s': "Table s' = Some T'" "Directory s' = Some (D[k := e'])" "names_ok (D[k := e'])"
    and k: "k < length D"
    and keep: "\<And>i. i < length D \<Longrightarrow> i \<noteq> k \<Longrightarrow> de_used (D ! i) \<Longrightarrow>
                 content (dsk s') T' (D ! i) = content (dsk s) T (D ! i)"
    and name: "de_used (D ! k) \<Longrightarrow> cstr (de_name (D ! k)) = nm" "de_used e' \<Longrightarrow> cstr (de_name e') = nm"
    and some: "de_used (D ! k) \<or> de_used e' \<or> nm \<notin> dom (fs_files s)"
  shows "fs_files s' = (fs_files s)(nm := (if de_used e' then Some (content (dsk s') T' e') else None))"
proof (rule ext)
  fix n
  have in_D: "(\<exists>i<length D. i \<noteq> k \<and> de_used (D ! i) \<and> cstr (de_name (D ! i)) = n \<and> c = content (dsk s) T (D ! i))
      \<longleftrightarrow> n \<noteq> nm \<and> fs_files s n = Some c" for c
  proof
    assume "\<exists>i<length D. i \<noteq> k \<and> de_used (D ! i) \<and> cstr (de_name (D ! i)) = n \<and> c = content (dsk s) T (D ! i)"
    then obtain i where i: "i < length D" "i \<noteq> k" "de_used (D ! i)" "cstr (de_name (D ! i)) = n"
        "c = content (dsk s) T (D ! i)" by blast
    then have f: "fs_files s n = Some c" using fs_files_Some [OF s] by blast
    have "n \<noteq> nm"
    proof
      assume n: "n = nm"
      with some f have "de_used (D ! k) \<or> de_used e'" by auto
      then show False
      proof
        assume "de_used (D ! k)"
        with i n name(1) k s(3) show False using names_ok_inj [of D i k] by simp
      next
        assume "de_used e'"
        with i n name(2) k s'(3) show False using names_ok_inj [of "D[k := e']" i k] by simp
      qed
    qed
    with f show "n \<noteq> nm \<and> fs_files s n = Some c" by simp
  next
    assume "n \<noteq> nm \<and> fs_files s n = Some c"
    then show "\<exists>i<length D. i \<noteq> k \<and> de_used (D ! i) \<and> cstr (de_name (D ! i)) = n \<and> c = content (dsk s) T (D ! i)"
      using fs_files_Some [OF s, of n c] name(1) by auto
  qed
  have "fs_files s' n = Some c \<longleftrightarrow>
      (de_used e' \<and> n = nm \<and> c = content (dsk s') T' e') \<or> n \<noteq> nm \<and> fs_files s n = Some c" for c
  proof -
    have "fs_files s' n = Some c \<longleftrightarrow>
        (\<exists>i<length D. de_used (D[k := e'] ! i) \<and> cstr (de_name (D[k := e'] ! i)) = n \<and>
           c = content (dsk s') T' (D[k := e'] ! i))"
      using fs_files_Some [OF s', of n c] by simp
    also have "\<dots> \<longleftrightarrow> (de_used e' \<and> n = nm \<and> c = content (dsk s') T' e') \<or>
        (\<exists>i<length D. i \<noteq> k \<and> de_used (D ! i) \<and> cstr (de_name (D ! i)) = n \<and> c = content (dsk s) T (D ! i))"
      using ex_list_update [OF k, of "\<lambda>e. de_used e \<and> cstr (de_name e) = n \<and> c = content (dsk s') T' e" e']
        keep name(2) by auto
    finally show ?thesis by (simp only: in_D)
  qed
  then have "fs_files s' n = Some c \<longleftrightarrow>
      ((fs_files s)(nm := (if de_used e' then Some (content (dsk s') T' e') else None))) n = Some c" for c
    by auto
  then show "fs_files s' n = ((fs_files s)(nm := (if de_used e' then Some (content (dsk s') T' e') else None))) n"
    by (metis not_None_eq)
qed

end
