(* ===== verification/FS_Names.thy ===== *)
theory FS_Names
  imports FS_Inv
begin

text \<open>
  Creating, opening, closing and deleting files: each operation keeps the invariant
  \<open>fs_wf\<close> and acts on the abstract file system as its specification says.
\<close>

section \<open>Specifications\<close>

definition spec_create :: "string \<Rightarrow> afs \<Rightarrow> afs" where
  "spec_create nm a = a\<lparr>afiles := (afiles a)(nm \<mapsto> [])\<rparr>"

definition spec_delete :: "string \<Rightarrow> afs \<Rightarrow> afs" where
  "spec_delete nm a = a\<lparr>afiles := (afiles a)(nm := None)\<rparr>"

definition spec_open :: "int \<Rightarrow> string \<Rightarrow> afs \<Rightarrow> afs" where
  "spec_open fd nm a = a\<lparr>afds := (afds a)(fd \<mapsto> (nm, 0))\<rparr>"

definition spec_close :: "int \<Rightarrow> afs \<Rightarrow> afs" where
  "spec_close fd a = a\<lparr>afds := (afds a)(fd := None)\<rparr>"

definition num_files :: "fs \<Rightarrow> nat" where
  "num_files s = (case Directory s of None \<Rightarrow> 0 | Some D \<Rightarrow> length (filter de_used D))"

definition free_blocks :: "fs \<Rightarrow> nat" where
  "free_blocks s = (case used_block_bitmap s of None \<Rightarrow> 0 | Some bm \<Rightarrow> card (free_set data_start bm))"


text \<open>The number of blocks chained to a file.\<close>

definition file_nblocks :: "fs \<Rightarrow> string \<Rightarrow> nat" where
  "file_nblocks s nm =
     (case do { T \<leftarrow> Table s; D \<leftarrow> Directory s; k \<leftarrow> lookup_dir D nm; Some (length (fblocks T (D ! k))) }
      of None \<Rightarrow> 0 | Some n \<Rightarrow> n)"

lemma file_nblocks_eq:
  assumes "Table s = Some T" "Directory s = Some D" "names_ok D" "k < length D" "de_used (D ! k)"
  shows "file_nblocks s (cstr (de_name (D ! k))) = length (fblocks T (D ! k))"
proof -
  have "lookup_dir D (cstr (de_name (D ! k))) = Some k" using assms(3-5) by (simp add: lookup_dir_Some)
  with assms(1,2) show ?thesis by (simp add: file_nblocks_def)
qed


text \<open>The integer fields fit in an \<open>int\<close> and the names have their declared length.\<close>

definition fs_rep :: "fs \<Rightarrow> bool" where
  "fs_rep s \<longleftrightarrow> (\<forall>T. Table s = Some T \<longrightarrow> (\<forall>n\<in>set T. inode_rep n)) \<and>
     (\<forall>D. Directory s = Some D \<longrightarrow> (\<forall>e\<in>set D. dirent_rep e))"

lemma fs_rep_update:
  assumes "fs_rep s" "Table s = Some T" "Directory s = Some D"
    "Table s' = Some (T[i := n])" "Directory s' = Some (D[k := e])" "inode_rep n" "dirent_rep e"
  shows "fs_rep s'"
  using assms set_update_subset_insert [of T i n] set_update_subset_insert [of D k e] by (auto simp: fs_rep_def)


section \<open>Descriptors\<close>

lemma fd_view_Some:
  assumes "Directory s = Some D" "files_ok T bm D"
  shows "fd_view s fildes = Some (nm, off) \<longleftrightarrow>
     (\<exists>f k. array_get (fd_array s) fildes = Some f \<and> fd_used f \<and> off = nat (fd_offset f) \<and>
        k < length D \<and> de_used (D ! k) \<and> de_inode_number (D ! k) = fd_inode_number f \<and>
        nm = cstr (de_name (D ! k)))"
proof
  assume "fd_view s fildes = Some (nm, off)"
  then show "\<exists>f k. array_get (fd_array s) fildes = Some f \<and> fd_used f \<and> off = nat (fd_offset f) \<and>
        k < length D \<and> de_used (D ! k) \<and> de_inode_number (D ! k) = fd_inode_number f \<and>
        nm = cstr (de_name (D ! k))"
    using assms(1) by (auto simp: fd_view_def bind_eq_Some_conv split: if_splits dest: find_idx_SomeD)
next
  assume "\<exists>f k. array_get (fd_array s) fildes = Some f \<and> fd_used f \<and> off = nat (fd_offset f) \<and>
        k < length D \<and> de_used (D ! k) \<and> de_inode_number (D ! k) = fd_inode_number f \<and>
        nm = cstr (de_name (D ! k))"
  then obtain f k where f: "array_get (fd_array s) fildes = Some f" "fd_used f" "off = nat (fd_offset f)"
      and k: "k < length D" "de_used (D ! k)" "de_inode_number (D ! k) = fd_inode_number f"
        "nm = cstr (de_name (D ! k))" by blast
  have "find_idx (\<lambda>e. de_used e \<and> de_inode_number e = fd_inode_number f) D = Some k"
    by (rule find_idx_unique) (use k inode_inj [OF assms(2)] in auto)
  with f k assms(1) show "fd_view s fildes = Some (nm, off)" by (simp add: fd_view_def)
qed

lemma fd_view_eqI:
  assumes "\<And>nm off. fd_view s fildes = Some (nm, off) \<longleftrightarrow> P nm off"
    and "\<And>nm off. m = Some (nm, off) \<longleftrightarrow> P nm off"
  shows "fd_view s fildes = m"
  using assms by (metis not_None_eq surj_pair)

lemma dir_of_fd_eq:
  assumes "array_get fds fildes = Some f"
  shows "dir_of_fd D fds fildes = Some (find_idx (\<lambda>e. de_used e \<and> de_inode_number e = fd_inode_number f) D)"
  unfolding dir_of_fd_def using assms by (intro find_idx_m_total) auto

lemma dir_of_fd_unique:
  assumes "files_ok T bm D" "array_get fds fildes = Some f"
    "k < length D" "de_used (D ! k)" "de_inode_number (D ! k) = fd_inode_number f"
  shows "dir_of_fd D fds fildes = Some (Some k)"
proof -
  have "find_idx (\<lambda>e. de_used e \<and> de_inode_number e = fd_inode_number f) D = Some k"
    by (rule find_idx_unique) (use assms inode_inj [OF assms(1)] in auto)
  then show ?thesis by (simp add: dir_of_fd_eq [OF assms(2)])
qed

text \<open>The facts that every operation on an open descriptor starts from.\<close>

lemma fd_viewE:
  assumes "fs_wf os s" "fd_view s fildes = Some (nm, off)"
  obtains T bm D f k where
    "dev_ready os (dsk s)" "super s = Some make_super"
    "Table s = Some T" "used_block_bitmap s = Some bm" "Directory s = Some D"
    "length T = DISK_BLOCKS" "length bm = DISK_BLOCKS" "length D = MAX_NUM_OF_FILES"
    "files_ok T bm D" "names_ok D" "fds_ok D (fd_array s)"
    "0 \<le> fildes" "fildes < int MAX_FILE_DESCRIPTOR" "array_get (fd_array s) fildes = Some f" "fd_used f"
    "fd_offset f = int off" "fd_offset f \<le> MAX_FILESIZE"
    "k < length D" "de_used (D ! k)" "de_inode_number (D ! k) = fd_inode_number f"
    "cstr (de_name (D ! k)) = nm" "dir_of_fd D (fd_array s) fildes = Some (Some k)"
    "fs_files s nm = Some (content (dsk s) T (D ! k))" "length (fd_array s) = MAX_FILE_DESCRIPTOR"
proof -
  from assms(1) obtain T bm D where wf: "mounted s" "dev_ready os (dsk s)" "super s = Some make_super"
    "Table s = Some T" "used_block_bitmap s = Some bm" "Directory s = Some D"
    "length T = DISK_BLOCKS" "length bm = DISK_BLOCKS" "length D = MAX_NUM_OF_FILES"
    "length (fd_array s) = MAX_FILE_DESCRIPTOR" "files_ok T bm D" "names_ok D" "fds_ok D (fd_array s)"
    by (rule fs_wfE)
  from assms(2) obtain f k where f: "array_get (fd_array s) fildes = Some f" "fd_used f" "off = nat (fd_offset f)"
      and k: "k < length D" "de_used (D ! k)" "de_inode_number (D ! k) = fd_inode_number f"
        "nm = cstr (de_name (D ! k))"
    by (auto simp: fd_view_Some [OF wf(6,11)])
  have fi: "f \<in> set (fd_array s)" using f(1) by (auto simp: array_get_eq_Some)
  with wf(13) f(2) have off: "0 \<le> fd_offset f" "fd_offset f \<le> MAX_FILESIZE" by (auto simp: fds_ok_def)
  have "fs_files s nm = Some (content (dsk s) T (D ! k))"
    using k by (auto simp: fs_files_Some [OF wf(4,6,12)])
  moreover have "0 \<le> fildes" "fildes < int MAX_FILE_DESCRIPTOR"
    using f(1) wf(10) by (auto simp: array_get_eq_Some)
  ultimately show ?thesis
    using that wf f k off dir_of_fd_unique [OF wf(11) f(1) k(1-3)] by simp
qed

lemma fds_okE:
  assumes "fds_ok D fds" "f \<in> set fds" "fd_used f"
  obtains k where "k < length D" "de_used (D ! k)" "de_inode_number (D ! k) = fd_inode_number f"
  using assms unfolding fds_ok_def by (metis in_set_conv_nth)

text \<open>Replacing one directory entry while the descriptors stay: the replaced and the new entry
  must be referenced by the same descriptors.\<close>

definition same_refs :: "File_Descriptor list \<Rightarrow> Directory_Entry \<Rightarrow> Directory_Entry \<Rightarrow> bool" where
  "same_refs fds e e' \<longleftrightarrow>
     (\<forall>f\<in>set fds. fd_used f \<longrightarrow>
        (de_used e \<and> de_inode_number e = fd_inode_number f) =
        (de_used e' \<and> de_inode_number e' = fd_inode_number f))"

lemma ex_set_update:
  assumes "k < length xs" "P (xs ! k) = P x'"
  shows "(\<exists>x\<in>set (xs[k := x']). P x) \<longleftrightarrow> (\<exists>x\<in>set xs. P x)"
proof -
  have "(\<exists>x\<in>set (xs[k := x']). P x) \<longleftrightarrow> (\<exists>i<length xs. P (xs[k := x'] ! i))"
    by (metis in_set_conv_nth length_list_update)
  also have "\<dots> \<longleftrightarrow> (\<exists>i<length xs. P (xs ! i))"
    unfolding ex_list_update [OF assms(1)] using assms by auto
  finally show ?thesis by (metis in_set_conv_nth)
qed

lemma fds_ok_update:
  assumes ok: "fds_ok D fds" and k: "k < length D" and same: "same_refs fds (D ! k) e'"
    and cnt: "de_used e' \<Longrightarrow> de_count e' = int (fd_refs fds (de_inode_number e'))"
  shows "fds_ok (D[k := e']) fds"
  unfolding fds_ok_def
proof (intro conjI ballI impI)
  fix f
  assume f: "f \<in> set fds" "fd_used f"
  with ok show "0 \<le> fd_offset f" "fd_offset f \<le> MAX_FILESIZE" by (auto simp: fds_ok_def)
  have "(\<exists>e\<in>set (D[k := e']). de_used e \<and> de_inode_number e = fd_inode_number f) \<longleftrightarrow>
        (\<exists>e\<in>set D. de_used e \<and> de_inode_number e = fd_inode_number f)"
    by (rule ex_set_update [OF k]) (use f same in \<open>auto simp: same_refs_def\<close>)
  with f ok show "\<exists>e\<in>set (D[k := e']). de_used e \<and> de_inode_number e = fd_inode_number f"
    by (auto simp: fds_ok_def)
next
  fix e
  assume "e \<in> set (D[k := e'])" "de_used e"
  then show "de_count e = int (fd_refs fds (de_inode_number e))"
    using set_update_subset_insert [of D k e'] ok cnt by (auto simp: fds_ok_def)
qed

lemma fd_view_update:
  assumes s: "Directory s = Some D" "files_ok T bm D"
    and s': "Directory s' = Some (D[k := e'])" "files_ok T' bm' (D[k := e'])"
    and k: "k < length D" and same: "same_refs (fd_array s) (D ! k) e'"
    and name: "de_used (D ! k) \<Longrightarrow> de_used e' \<Longrightarrow> cstr (de_name e') = cstr (de_name (D ! k))"
    and fds: "fd_array s' = fd_array s"
  shows "fd_view s' = fd_view s"
proof (rule ext, rule fd_view_eqI [OF fd_view_Some [OF s']])
  fix fildes n off
  let ?P = "\<lambda>f e. de_used e \<and> de_inode_number e = fd_inode_number f \<and> n = cstr (de_name e)"
  have "(\<exists>i<length D. ?P f (D[k := e'] ! i)) \<longleftrightarrow> (\<exists>i<length D. ?P f (D ! i))"
    if "array_get (fd_array s) fildes = Some f" "fd_used f" for f
  proof -
    have "f \<in> set (fd_array s)" using that(1) by (auto simp: array_get_eq_Some)
    with same name that(2) have "?P f e' = ?P f (D ! k)" by (auto simp: same_refs_def)
    with k show ?thesis unfolding ex_list_update [OF k, of "?P f"] by auto
  qed
  then show "fd_view s fildes = Some (n, off) \<longleftrightarrow>
      (\<exists>f i. array_get (fd_array s') fildes = Some f \<and> fd_used f \<and> off = nat (fd_offset f) \<and>
         i < length (D[k := e']) \<and> de_used (D[k := e'] ! i) \<and>
         de_inode_number (D[k := e'] ! i) = fd_inode_number f \<and> n = cstr (de_name (D[k := e'] ! i)))"
    unfolding fd_view_Some [OF s] fds length_list_update by blast
qed

text \<open>An operation that replaces one directory entry, and the blocks of that entry, keeps the invariant
  and changes one file.\<close>

lemma replace_entry:
  assumes wf: "fs_wf os s" and s: "Table s = Some T" "used_block_bitmap s = Some bm" "Directory s = Some D" and k: "k < length D"
    and ok: "files_ok T' bm' (D[k := e'])" and len: "length T' = DISK_BLOCKS" "length bm' = DISK_BLOCKS" and d': "dev_ready os d'"
    and names: "names_ok (D[k := e'])" and refs: "same_refs (fd_array s) (D ! k) e'"
    and cnt: "de_used e' \<Longrightarrow> de_count e' = int (fd_refs (fd_array s) (de_inode_number e'))"
    and keep: "\<And>i. i < length D \<Longrightarrow> i \<noteq> k \<Longrightarrow> de_used (D ! i) \<Longrightarrow> content d' T' (D ! i) = content (dsk s) T (D ! i)"
    and name: "de_used (D ! k) \<Longrightarrow> cstr (de_name (D ! k)) = nm" "de_used e' \<Longrightarrow> cstr (de_name e') = nm"
    and some: "de_used (D ! k) \<or> de_used e'"
    and s': "s' = s\<lparr>Table := Some T', used_block_bitmap := Some bm', Directory := Some (D[k := e']), dsk := d'\<rparr>"
  shows "fs_wf os s'" "fd_view s' = fd_view s"
    "fs_files s' = (fs_files s)(nm := (if de_used e' then Some (content d' T' e') else None))"
proof -
  from wf s have w: "mounted s" "super s = Some make_super" "length D = MAX_NUM_OF_FILES"
    "length (fd_array s) = MAX_FILE_DESCRIPTOR" "files_ok T bm D" "names_ok D" "fds_ok D (fd_array s)"
    by (auto elim!: fs_wfE)
  have fds: "fds_ok (D[k := e']) (fd_array s)" by (rule fds_ok_update [OF w(7) k refs cnt])
  have s'D: "Table s' = Some T'" "Directory s' = Some (D[k := e'])" "dsk s' = d'" "fd_array s' = fd_array s"
    by (simp_all add: s')
  show "fs_wf os s'" using w ok names fds len d' by (simp add: fs_wf_def s')
  show "fd_view s' = fd_view s"
    by (rule fd_view_update [OF s(3) w(5) s'D(2) ok k refs]) (use name in \<open>simp_all add: s'D\<close>)
  show "fs_files s' = (fs_files s)(nm := (if de_used e' then Some (content d' T' e') else None))"
    unfolding s'D(3) [symmetric] by (rule fs_files_update [OF s(1,3) w(6) s'D(1,2) names k]) (use keep name some in \<open>auto simp: s'D\<close>)
qed


section \<open>fs_create\<close>

lemma create_scan_spec:
  assumes "NUL \<notin> set nm" "\<And>e. e \<in> set D \<Longrightarrow> NUL \<in> set (de_name e)"
  shows "create_scan nm D c =
     Some (if \<exists>e\<in>set D. de_used e \<and> cstr (de_name e) = nm then None
           else Some (c + length (filter de_used D)))"
  using assms by (induction nm D c rule: create_scan.induct) (auto simp: strcmp_eq_cstr)

lemma create_loop_full:
  assumes "length bm = DISK_BLOCKS" "0 \<le> lo" "free_set lo bm = {}"
  shows "create_loop nm lo T bm D = Some (-1, T, bm, D)"
  using assms
proof (induction nm lo T bm D rule: create_loop.induct)
  case (1 nm lo T bm D)
  show ?case
  proof (cases "lo < int DISK_BLOCKS")
    case True
    with 1 have b: "array_get bm lo = Some (bm ! nat lo)" "bm ! nat lo \<noteq> NUL"
      by (auto simp: array_get_in free_set_def)
    moreover have "free_set (lo + 1) bm = {}" using "1.prems"(3) by (auto simp: free_set_def)
    ultimately have "create_loop nm (lo + 1) T bm D = Some (-1, T, bm, D)"
      using "1.IH"(2) [OF True b] "1.prems" by simp
    with True b show ?thesis by (subst create_loop.simps) simp
  qed (subst create_loop.simps, simp)
qed

lemma create_loop_ok:
  assumes "length bm = DISK_BLOCKS" "length T = DISK_BLOCKS" "0 \<le> lo" "free_set lo bm \<noteq> {}"
    "find_idx (\<lambda>e. \<not> de_used e) D = Some i" "length nm < length (de_name (D ! i))"
  shows "\<exists>j a. j \<in> free_set lo bm \<and> strcpy (de_name (D ! i)) nm = Some a \<and>
     create_loop nm lo T bm D =
       Some (0, T[nat j := (T ! nat j)\<lparr>next_direct_offset := -1, itype := CHR 0x01\<rparr>], bm[nat j := CHR 0x01],
             D[i := \<lparr>de_used = True, de_inode_number = j, de_name = a, de_size = 0, de_count = 0\<rparr>])"
  using assms
proof (induction nm lo T bm D rule: create_loop.induct)
  case (1 nm lo T bm D)
  from "1.prems"(4) have lo: "lo < int DISK_BLOCKS" by (auto simp: free_set_def)
  with "1.prems" have b: "array_get bm lo = Some (bm ! nat lo)" by (simp add: array_get_in)
  show ?case
  proof (cases "bm ! nat lo = NUL")
    case True
    then have "lo \<in> free_set lo bm" using lo by (simp add: free_set_def)
    moreover obtain a where "strcpy (de_name (D ! i)) nm = Some a"
      using "1.prems"(6) by (auto simp: strcpy_def)
    ultimately show ?thesis
      using True lo b "1.prems"
      by (intro exI [of _ lo] exI [of _ a]) (subst create_loop.simps, simp add: array_get_in array_set_in)
  next
    case False
    then have "free_set lo bm = free_set (lo + 1) bm" by (auto simp: free_set_def order_le_less)
    with "1.IH"(2) [OF lo b False] "1.prems" False lo b show ?thesis
      by (subst create_loop.simps) simp
  qed
qed

lemma create_entry_ok:
  assumes "files_ok T bm D" "length T = DISK_BLOCKS" "length bm = DISK_BLOCKS" "i < length D" "\<not> de_used (D ! i)"
    and j: "j \<in> free_set data_start bm"
    and T': "T' = T[nat j := (T ! nat j)\<lparr>next_direct_offset := -1, itype := CHR 0x01\<rparr>]"
    and bm': "bm' = bm[nat j := CHR 0x01]"
    and e': "de_inode_number e' = j" "de_size e' = 0"
  shows "files_ok T' bm' (D[i := e'])" "fblocks T' e' = [j]"
    and "\<And>k. k < length D \<Longrightarrow> k \<noteq> i \<Longrightarrow> de_used (D ! k) \<Longrightarrow> fblocks T' (D ! k) = fblocks T (D ! k)"
    and "\<And>k. k < length D \<Longrightarrow> de_used (D ! k) \<Longrightarrow> de_inode_number (D ! k) \<noteq> j"
proof -
  have j0: "data_start \<le> j" "0 \<le> j" "j < int DISK_BLOCKS" "bm ! nat j = NUL"
    using j data_start_range by (auto simp: free_set_def)
  have "chain T' j [j]" using j0 assms(2) by (simp add: T')
  then show fb: "fblocks T' e' = [j]" by (simp add: fblocks_def e' blocks_eq)
  have notin: "j \<notin> set (fblocks T (D ! k))" if "k < length D" "de_used (D ! k)" for k
    using file_okD(3) [OF assms(1) that, of j] j0 by auto
  have keep: "keeps_file T T' bm' (D ! k)" if "k < length D" "k \<noteq> i" "de_used (D ! k)" for k
    unfolding keeps_file_def
  proof
    fix b
    assume b: "b \<in> set (fblocks T (D ! k))"
    with notin that have "b \<noteq> j" by auto
    moreover have "0 \<le> b" "bm ! nat b \<noteq> NUL"
      using file_okD(3) [OF assms(1) that(1,3) b] data_start_range by auto
    ultimately show "next_direct_offset (T' ! nat b) = next_direct_offset (T ! nat b) \<and> bm' ! nat b \<noteq> NUL"
      using j0 by (auto simp: T' bm' nth_list_update nat_eq_iff)
  qed
  have ok: "file_ok T' bm' e'"
    using \<open>chain T' j [j]\<close> fb j0 assms(3) by (simp add: file_ok_def e' bm' MAX_FILESIZE_def)
  note upd = files_ok_update [OF assms(1,4) _ keep ok]
  show "files_ok T' bm' (D[i := e'])"
    by (rule upd(1)) (use notin fb in \<open>auto simp: T'\<close>)
  show "fblocks T' (D ! k) = fblocks T (D ! k)" if "k < length D" "k \<noteq> i" "de_used (D ! k)" for k
    by (rule upd(2)) (use notin fb that in \<open>auto simp: T'\<close>)
  show "de_inode_number (D ! k) \<noteq> j" if "k < length D" "de_used (D ! k)" for k
    using inode_in_fblocks [OF assms(1) that] notin [OF that] by auto
qed

lemma fd_refs_zero:
  "(\<And>f. f \<in> set fds \<Longrightarrow> fd_used f \<Longrightarrow> fd_inode_number f \<noteq> i) \<Longrightarrow> fd_refs fds i = 0"
  by (auto simp: fd_refs_def filter_empty_conv)

lemma fs_create_step:
  assumes wf: "fs_wf os s" and nm: "valid_name nm" and new: "fs_files s nm = None"
    and room: "num_files s < MAX_NUM_OF_FILES" "0 < free_blocks s"
  obtains s' where "fs_create nm s = Some (0, s')" "fs_wf os s'" "fs_abs s' = spec_create nm (fs_abs s)"
    "free_blocks s = Suc (free_blocks s')" "file_nblocks s' nm = 1" "fs_rep s \<Longrightarrow> fs_rep s'"
proof -
  from wf obtain T bm D where w: "mounted s" "dev_ready os (dsk s)" "super s = Some make_super"
    "Table s = Some T" "used_block_bitmap s = Some bm" "Directory s = Some D"
    "length T = DISK_BLOCKS" "length bm = DISK_BLOCKS" "length D = MAX_NUM_OF_FILES"
    "length (fd_array s) = MAX_FILE_DESCRIPTOR" "files_ok T bm D" "names_ok D" "fds_ok D (fd_array s)"
    by (rule fs_wfE)
  have absent: "\<not> (\<exists>e\<in>set D. de_used e \<and> cstr (de_name e) = nm)"
    using new fs_files_None [OF w(4,6)] by blast
  have cnt: "length (filter de_used D) < MAX_NUM_OF_FILES" using room(1) w(6) by (simp add: num_files_def)
  then have "filter de_used D \<noteq> D" using w(9) by auto
  then obtain i where i: "find_idx (\<lambda>e. \<not> de_used e) D = Some i"
    using find_idx_None [of "\<lambda>e. \<not> de_used e" D] by (cases "find_idx (\<lambda>e. \<not> de_used e) D") (auto simp: filter_id_conv)
  from find_idx_SomeD [OF i] have iD: "i < length D" "\<not> de_used (D ! i)" by auto
  have fr: "free_set data_start bm \<noteq> {}" using room(2) w(5) by (auto simp: free_blocks_def)
  have len: "length nm < length (de_name (D ! i))"
    using names_okD(1) [OF w(12) iD(1)] nm by (simp add: valid_name_def)
  from create_loop_ok [OF w(8,7) data_start_range(1) fr i len] obtain j a where
      j: "j \<in> free_set data_start bm" and a: "strcpy (de_name (D ! i)) nm = Some a" and
      loop: "create_loop nm data_start T bm D =
       Some (0, T[nat j := (T ! nat j)\<lparr>next_direct_offset := -1, itype := CHR 0x01\<rparr>], bm[nat j := CHR 0x01],
             D[i := \<lparr>de_used = True, de_inode_number = j, de_name = a, de_size = 0, de_count = 0\<rparr>])"
    by blast
  define T' where "T' = T[nat j := (T ! nat j)\<lparr>next_direct_offset := -1, itype := CHR 0x01\<rparr>]"
  define bm' where "bm' = bm[nat j := CHR 0x01 :: byte]"
  define e' where "e' = \<lparr>de_used = True, de_inode_number = j, de_name = a, de_size = 0, de_count = 0\<rparr>"
  define s' where "s' = s\<lparr>Table := Some T', used_block_bitmap := Some bm', Directory := Some (D[i := e'])\<rparr>"
  have e'_simps [simp]: "de_used e'" "de_inode_number e' = j" "de_name e' = a" "de_size e' = 0" "de_count e' = 0"
    by (simp_all add: e'_def)
  have "create_scan nm D 0 = Some (Some (length (filter de_used D)))"
    using absent nm w(12) by (subst create_scan_spec) (auto simp: valid_name_def names_ok_def)
  then have run: "fs_create nm s = Some (0, s')"
    using nm cnt w(3-6) loop by (simp add: fs_create_def valid_name_def s'_def T'_def bm'_def e'_def)
  have str: "cstr a = nm" "length a = MAX_FILENAME_LENGTH + 1" "NUL \<in> set a"
    using strcpy_cstr [OF a] nm names_okD(1) [OF w(12) iD(1)] by (auto simp: valid_name_def)
  note ent = create_entry_ok [OF w(11,7,8) iD j T'_def bm'_def e'_simps(2,4)]
  have names: "names_ok (D[i := e'])"
    by (rule names_ok_update [OF w(12) iD(1)]) (use str nm absent in \<open>auto simp: valid_name_def\<close>)
  have noref: "fd_inode_number f \<noteq> j" if "f \<in> set (fd_array s)" "fd_used f" for f
    using fds_okE [OF w(13) that] ent(4) by metis
  have refs: "same_refs (fd_array s) (D ! i) e'" using noref iD by (auto simp: same_refs_def)
  have s'D: "Table s' = Some T'" "Directory s' = Some (D[i := e'])" by (simp_all add: s'_def)
  have "s' = s\<lparr>Table := Some T', used_block_bitmap := Some bm', Directory := Some (D[i := e']), dsk := dsk s\<rparr>" by (simp add: s'_def)
  note re = replace_entry [OF wf w(4-6) iD(1) ent(1) _ _ w(2) names refs _ _ _ _ _ this, of nm]
  have le: "length T' = DISK_BLOCKS" "length bm' = DISK_BLOCKS" using w(7,8) by (simp_all add: T'_def bm'_def)
  have cnt: "de_count e' = int (fd_refs (fd_array s) (de_inode_number e'))" using noref fd_refs_zero [of "fd_array s" j] by auto
  have wf': "fs_wf os s'" and view: "fd_view s' = fd_view s" and files: "fs_files s' = (fs_files s)(nm \<mapsto> [])"
    using re [OF le cnt] ent(3) iD(2) str(1) by (simp_all add: content_def)
  then have "fs_abs s' = spec_create nm (fs_abs s)"
    by (simp add: fs_abs_def spec_create_def fun_eq_iff)
  moreover have "free_blocks s = Suc (free_blocks s')"
    using free_set_mark [OF w(8) j data_start_range(1)] card_Suc_Diff1 [OF finite_free_set j] w(5)
    by (simp add: free_blocks_def s'_def bm'_def)
  moreover have "file_nblocks s' nm = 1"
    using file_nblocks_eq [OF s'D(1,2) names, of i] iD(1) str(1) ent(2) by simp
  moreover have "fs_rep s'" if "fs_rep s"
    by (rule fs_rep_update [OF that w(4,6), of s' "nat j" _ i e'])
      (use j str data_start_range in \<open>auto simp: s'_def T'_def inode_rep_def dirent_rep_def int32_def free_set_def DISK_BLOCKS_def\<close>)
  ultimately show ?thesis using run wf' that by blast
qed


section \<open>fs_open and fs_close\<close>

definition refs :: "File_Descriptor \<Rightarrow> int \<Rightarrow> bool" where
  "refs f n \<longleftrightarrow> fd_used f \<and> fd_inode_number f = n"

lemma fd_refs_update:
  assumes "i < length fds"
  shows "fd_refs (fds[i := f']) n + of_bool (refs (fds ! i) n) = fd_refs fds n + of_bool (refs f' n)"
proof -
  have "fd_refs fds n = fd_refs (take i fds) n + of_bool (refs (fds ! i) n) + fd_refs (drop (Suc i) fds) n"
    by (subst id_take_nth_drop [OF assms]) (simp add: fd_refs_def refs_def)
  moreover have "fd_refs (fds[i := f']) n = fd_refs (take i fds) n + of_bool (refs f' n) + fd_refs (drop (Suc i) fds) n"
    by (subst upd_conv_take_nth_drop [OF assms]) (simp add: fd_refs_def refs_def)
  ultimately show ?thesis by simp
qed

text \<open>An entry whose number of blocks and place stay; only its bookkeeping changes.\<close>

lemma files_ok_entry:
  assumes ok: "files_ok T bm D" and k: "k < length D" and e: "de_used (D ! k)"
    and e': "de_inode_number e' = de_inode_number (D ! k)" "de_size e' = de_size (D ! k)"
  shows "files_ok T bm (D[k := e'])"
proof (rule files_ok_update(1) [OF ok k refl])
  show "keeps_file T T bm (D ! i)" if "i < length D" "de_used (D ! i)" for i
    using file_okD(3) [OF ok that] by (simp add: keeps_file_def)
  show "file_ok T bm e'"
    using file_okD [OF ok k e] e' by (auto simp: file_ok_def fblocks_def)
  show "set (fblocks T e') \<inter> set (fblocks T (D ! i)) = {}"
    if "i < length D" "i \<noteq> k" "de_used (D ! i)" for i
    using ok k e that e'(1) by (auto simp: files_ok_def fblocks_def)
qed

text \<open>One descriptor and the entry it refers to change together.\<close>

lemma fds_ok_fd_update:
  assumes ok: "fds_ok D fds" and files: "files_ok T bm D" and i: "i < length fds" and k: "k < length D"
    and e: "de_used (D ! k)" "de_used e'" "de_inode_number e' = de_inode_number (D ! k)"
    and new: "fd_used f' \<Longrightarrow> fd_inode_number f' = de_inode_number (D ! k) \<and> 0 \<le> fd_offset f' \<and> fd_offset f' \<le> MAX_FILESIZE"
    and old: "fd_used (fds ! i) \<Longrightarrow> fd_inode_number (fds ! i) = de_inode_number (D ! k)"
    and cnt: "de_count e' + of_bool (fd_used (fds ! i)) = de_count (D ! k) + of_bool (fd_used f')"
  shows "fds_ok (D[k := e']) (fds[i := f'])"
  unfolding fds_ok_def
proof (intro conjI ballI impI)
  fix f
  assume f: "f \<in> set (fds[i := f'])" "fd_used f"
  then have cases: "f = f' \<or> f \<in> set fds" using set_update_subset_insert [of fds i f'] by auto
  then show "0 \<le> fd_offset f" "fd_offset f \<le> MAX_FILESIZE"
    using f ok new by (auto simp: fds_ok_def)
  have "D ! k \<in> set D" using k by simp
  with cases have "\<exists>e\<in>set D. de_used e \<and> de_inode_number e = fd_inode_number f"
    using f(2) ok new e(1) unfolding fds_ok_def by metis
  moreover have "(\<exists>e\<in>set (D[k := e']). de_used e \<and> de_inode_number e = fd_inode_number f) \<longleftrightarrow>
        (\<exists>e\<in>set D. de_used e \<and> de_inode_number e = fd_inode_number f)"
    by (rule ex_set_update [OF k]) (use e in auto)
  ultimately show "\<exists>e\<in>set (D[k := e']). de_used e \<and> de_inode_number e = fd_inode_number f" by blast
next
  fix x
  assume "x \<in> set (D[k := e'])" "de_used x"
  then obtain j where j: "j < length D" "x = D[k := e'] ! j" "de_used (D[k := e'] ! j)"
    by (auto simp: in_set_conv_nth)
  show "de_count x = int (fd_refs (fds[i := f']) (de_inode_number x))"
  proof (cases "j = k")
    case True
    have "de_count (D ! k) = int (fd_refs fds (de_inode_number (D ! k)))"
      using ok k e(1) by (simp add: fds_ok_def)
    with cnt True j k e(3) old new fd_refs_update [OF i, of f' "de_inode_number (D ! k)"]
    show ?thesis by (cases "fd_used (fds ! i)"; cases "fd_used f'") (auto simp: refs_def)
  next
    case False
    with j have dj: "de_used (D ! j)" "x = D ! j" by simp_all
    then have "de_inode_number (D ! j) \<noteq> de_inode_number (D ! k)"
      using inode_inj [OF files j(1) k dj(1) e(1)] False by auto
    with old new have "\<not> refs (fds ! i) (de_inode_number (D ! j))" "\<not> refs f' (de_inode_number (D ! j))"
      by (auto simp: refs_def)
    with fd_refs_update [OF i, of f' "de_inode_number (D ! j)"]
    have "fd_refs (fds[i := f']) (de_inode_number x) = fd_refs fds (de_inode_number x)"
      by (simp add: dj(2))
    with ok j(1) dj show ?thesis by (simp add: fds_ok_def)
  qed
qed

lemma fd_view_fd_array:
  assumes D: "Directory s = Some D" "files_ok T bm D" and i: "i < length (fd_array s)"
    and f': "fd_used f' \<Longrightarrow> k < length D \<and> de_used (D ! k) \<and> de_inode_number (D ! k) = fd_inode_number f'"
    and s': "Directory s' = Some D" "fd_array s' = (fd_array s)[i := f']"
  shows "fd_view s' = (fd_view s)(int i := (if fd_used f' then Some (cstr (de_name (D ! k)), nat (fd_offset f')) else None))"
proof (rule ext)
  fix fildes
  show "fd_view s' fildes = ((fd_view s)(int i := (if fd_used f' then Some (cstr (de_name (D ! k)), nat (fd_offset f')) else None))) fildes"
  proof (cases "fildes = int i")
    case True
    have "fd_view s' (int i) = (if fd_used f' then Some (cstr (de_name (D ! k)), nat (fd_offset f')) else None)"
    proof (cases "fd_used f'")
      case True
      have "\<exists>f k'. array_get (fd_array s') (int i) = Some f \<and> fd_used f \<and> nat (fd_offset f') = nat (fd_offset f) \<and>
          k' < length D \<and> de_used (D ! k') \<and> de_inode_number (D ! k') = fd_inode_number f \<and>
          cstr (de_name (D ! k)) = cstr (de_name (D ! k'))"
        using True f' i by (intro exI [of _ f'] exI [of _ k]) (simp add: s')
      with True fd_view_Some [OF s'(1) D(2), of "int i" "cstr (de_name (D ! k))" "nat (fd_offset f')"]
      show ?thesis by simp
    next
      case False
      with i show ?thesis by (simp add: fd_view_def s')
    qed
    with True show ?thesis by simp
  next
    case False
    then have "array_get (fd_array s') fildes = array_get (fd_array s) fildes"
      by (auto simp: s' array_get_def nat_eq_iff)
    with False show ?thesis by (simp add: fd_view_def s' D(1))
  qed
qed

text \<open>The common shape of the operations that change one descriptor and the bookkeeping of the
  entry it refers to.\<close>

lemma fd_op_abs:
  assumes wf: "fs_wf os s" "Table s = Some T" "used_block_bitmap s = Some bm" "Directory s = Some D"
    and i: "i < length (fd_array s)" and k: "k < length D"
    and e: "de_used (D ! k)" "e' = (D ! k)\<lparr>de_count := c\<rparr>"
    and new: "fd_used f' \<Longrightarrow> fd_inode_number f' = de_inode_number (D ! k) \<and> 0 \<le> fd_offset f' \<and> fd_offset f' \<le> MAX_FILESIZE"
    and old: "fd_used (fd_array s ! i) \<Longrightarrow> fd_inode_number (fd_array s ! i) = de_inode_number (D ! k)"
    and cnt: "c + of_bool (fd_used (fd_array s ! i)) = de_count (D ! k) + of_bool (fd_used f')"
    and s': "s' = s\<lparr>fd_array := (fd_array s)[i := f'], Directory := Some (D[k := e'])\<rparr>"
  shows "fs_wf os s'" "fs_abs s' = (fs_abs s)\<lparr>afds := (fd_view s)(int i :=
           (if fd_used f' then Some (cstr (de_name (D ! k)), nat (fd_offset f')) else None))\<rparr>"
proof -
  from wf have w: "mounted s" "dev_ready os (dsk s)" "super s = Some make_super"
    "length T = DISK_BLOCKS" "length bm = DISK_BLOCKS" "length D = MAX_NUM_OF_FILES"
    "length (fd_array s) = MAX_FILE_DESCRIPTOR" "files_ok T bm D" "names_ok D" "fds_ok D (fd_array s)"
    by (auto simp: fs_wf_def)
  have files: "files_ok T bm (D[k := e'])"
    by (rule files_ok_entry [OF w(8) k e(1)]) (simp_all add: e(2))
  have names: "names_ok (D[k := e'])"
    by (rule names_ok_update [OF w(9) k])
      (use names_okD [OF w(9) k] e names_ok_inj [OF w(9) _ k] in auto)
  have fds: "fds_ok (D[k := e']) ((fd_array s)[i := f'])"
    by (rule fds_ok_fd_update [OF w(10,8) i k e(1)]) (use e new old cnt in auto)
  show "fs_wf os s'"
    using wf w files names fds by (simp add: fs_wf_def s')
  have same: "same_refs (fd_array s) (D ! k) e'" by (simp add: same_refs_def e(2))
  let ?s1 = "s\<lparr>Directory := Some (D[k := e'])\<rparr>"
  have "fs_files s' = (fs_files s)(cstr (de_name (D ! k)) :=
          (if de_used e' then Some (content (dsk s') T e') else None))"
    by (rule fs_files_update [OF wf(2,4) w(9) _ _ names k]) (simp_all add: s' wf(2) e)
  moreover have "content (dsk s') T e' = content (dsk s) T (D ! k)"
    by (simp add: content_def fblocks_def e(2) s')
  moreover have "fs_files s (cstr (de_name (D ! k))) = Some (content (dsk s) T (D ! k))"
    using k e(1) by (auto simp: fs_files_Some [OF wf(2,4) w(9)])
  ultimately have "fs_files s' = fs_files s" by (simp add: e fun_upd_idem)
  moreover have v1: "fd_view ?s1 = fd_view s"
    by (rule fd_view_update [OF wf(4) w(8) _ files k same]) (simp_all add: e(2))
  have "fd_view s' = (fd_view ?s1)(int i := (if fd_used f' then Some (cstr (de_name (D[k := e'] ! k)), nat (fd_offset f')) else None))"
    by (rule fd_view_fd_array [OF _ files]) (use i k e new in \<open>auto simp: s'\<close>)
  ultimately show "fs_abs s' = (fs_abs s)\<lparr>afds := (fd_view s)(int i :=
           (if fd_used f' then Some (cstr (de_name (D ! k)), nat (fd_offset f')) else None))\<rparr>"
    using k by (simp only: fs_abs_def v1 nth_list_update_eq afs.simps) (simp add: e(2))
qed

lemma fs_open_step:
  assumes wf: "fs_wf os s" and nm: "nm \<noteq> []" "NUL \<notin> set nm" "nm \<in> dom (fs_files s)"
    and i: "find_idx (\<lambda>f. \<not> fd_used f) (fd_array s) = Some i"
  obtains s' where "fs_open nm s = Some (int i, s')" "fs_wf os s'" "fs_abs s' = spec_open (int i) nm (fs_abs s)"
    "free_blocks s' = free_blocks s" "file_nblocks s' nm = file_nblocks s nm"
proof -
  from wf obtain T bm D where w: "mounted s" "dev_ready os (dsk s)" "super s = Some make_super"
    "Table s = Some T" "used_block_bitmap s = Some bm" "Directory s = Some D"
    "length T = DISK_BLOCKS" "length bm = DISK_BLOCKS" "length D = MAX_NUM_OF_FILES"
    "length (fd_array s) = MAX_FILE_DESCRIPTOR" "files_ok T bm D" "names_ok D" "fds_ok D (fd_array s)"
    by (rule fs_wfE)
  from nm(3) obtain k where k: "lookup_dir D nm = Some k"
    using w(4,6) by (auto simp: fs_files_def bind_eq_Some_conv)
  then have kD: "k < length D" "de_used (D ! k)" "cstr (de_name (D ! k)) = nm"
    by (auto simp: lookup_dir_Some [OF w(12)])
  define f' where "f' = \<lparr>fd_used = True, fd_inode_number = de_inode_number (D ! k), fd_offset = 0\<rparr>"
  define s' where "s' = s\<lparr>fd_array := (fd_array s)[i := f'],
     Directory := Some (D[k := (D ! k)\<lparr>de_count := de_count (D ! k) + 1\<rparr>])\<rparr>"
  have run: "fs_open nm s = Some (int i, s')"
    using i w(6) k search_name [OF w(12) nm(1,2)] by (simp add: fs_open_def s'_def f'_def Let_def)
  have abs: "fs_wf os s'" "fs_abs s' = (fs_abs s)\<lparr>afds := (fd_view s)(int i :=
           (if fd_used f' then Some (cstr (de_name (D ! k)), nat (fd_offset f')) else None))\<rparr>"
    by (rule fd_op_abs [OF wf w(4-6) _ kD(1,2) refl _ _ _ s'_def];
        use find_idx_SomeD [OF i] in \<open>simp add: f'_def MAX_FILESIZE_def\<close>)+
  have s'D: "Table s' = Some T" "Directory s' = Some (D[k := (D ! k)\<lparr>de_count := de_count (D ! k) + 1\<rparr>])"
    using w(4) by (simp_all add: s'_def)
  have "names_ok (D[k := (D ! k)\<lparr>de_count := de_count (D ! k) + 1\<rparr>])" using abs(1) s'D(2) by (auto elim: fs_wfE)
  then have "file_nblocks s' nm = file_nblocks s nm"
    using file_nblocks_eq [OF s'D, of k] file_nblocks_eq [OF w(4,6,12) kD(1,2)] kD by (simp add: fblocks_def)
  moreover have "free_blocks s' = free_blocks s" by (simp add: free_blocks_def s'_def)
  ultimately show ?thesis
    using abs by (intro that [OF run]) (simp_all add: spec_open_def f'_def kD(3) fs_abs_def)
qed

lemma fs_close_step:
  assumes wf: "fs_wf os s" and fd: "fd_view s fildes = Some (nm, off)"
  obtains s' where "fs_close fildes s = Some (0, s')" "fs_wf os s'" "fs_abs s' = spec_close fildes (fs_abs s)"
proof -
  from wf fd obtain T bm D f k where w:
    "dev_ready os (dsk s)" "super s = Some make_super"
    "Table s = Some T" "used_block_bitmap s = Some bm" "Directory s = Some D"
    "length T = DISK_BLOCKS" "length bm = DISK_BLOCKS" "length D = MAX_NUM_OF_FILES"
    "files_ok T bm D" "names_ok D" "fds_ok D (fd_array s)"
    "0 \<le> fildes" "fildes < int MAX_FILE_DESCRIPTOR" "array_get (fd_array s) fildes = Some f" "fd_used f"
    "fd_offset f = int off" "fd_offset f \<le> MAX_FILESIZE"
    "k < length D" "de_used (D ! k)" "de_inode_number (D ! k) = fd_inode_number f"
    "cstr (de_name (D ! k)) = nm" "dir_of_fd D (fd_array s) fildes = Some (Some k)"
    "fs_files s nm = Some (content (dsk s) T (D ! k))" "length (fd_array s) = MAX_FILE_DESCRIPTOR"
    by (rule fd_viewE)
  define f' where "f' = \<lparr>fd_used = False, fd_inode_number = -1, fd_offset = 0\<rparr>"
  define s' where "s' = s\<lparr>fd_array := (fd_array s)[nat fildes := f'],
     Directory := Some (D[k := (D ! k)\<lparr>de_count := de_count (D ! k) - 1\<rparr>])\<rparr>"
  have run: "fs_close fildes s = Some (0, s')"
    using w by (simp add: fs_close_def s'_def f'_def Let_def)
  have f: "f = fd_array s ! nat fildes" "nat fildes < length (fd_array s)"
    using w(14) by (auto simp: array_get_eq_Some)
  have "fs_wf os s'" "fs_abs s' = (fs_abs s)\<lparr>afds := (fd_view s)(int (nat fildes) :=
           (if fd_used f' then Some (cstr (de_name (D ! k)), nat (fd_offset f')) else None))\<rparr>"
    by (rule fd_op_abs [OF wf w(3-5) f(2) w(18,19) refl _ _ _ s'_def];
        use w(15,20) f(1) in \<open>simp add: f'_def\<close>)+
  then show ?thesis
    using w(12) by (intro that [OF run]) (simp_all add: spec_close_def f'_def fs_abs_def)
qed


section \<open>fs_delete\<close>

lemma upd_at_snoc:
  assumes "0 \<le> l" "l \<notin> set bs" "nat l < length xs"
  shows "(upd_at (set bs) f xs)[nat l := f (upd_at (set bs) f xs ! nat l)] = upd_at (set (bs @ [l])) f xs"
  using assms by (auto intro!: nth_equalityI simp: nth_list_update)

lemma delete_blocks:
  assumes c: "chain T i bs" "bs \<noteq> []" and len: "length bm = length T"
  shows "\<exists>l T1 bm1. delete_loop i T bm = Some (l, T1, bm1) \<and> 0 \<le> l \<and> l < int (length T) \<and>
     length T1 = length T \<and> length bm1 = length T \<and>
     T1[nat l := free_inode (T1 ! nat l)] = upd_at (set bs) free_inode T \<and>
     bm1[nat l := NUL] = upd_at (set bs) (\<lambda>_. NUL) bm"
proof -
  obtain cs l where bs: "bs = cs @ [l]" using c(2) by (metis append_butlast_last_id)
  have l: "0 \<le> l" "l < int (length T)" using chain_range [OF c(1), of l] by (auto simp: bs)
  have "l \<notin> set cs" using chain_distinct [OF c(1)] by (simp add: bs)
  with l upd_at_snoc [of l cs T free_inode] upd_at_snoc [of l cs bm "\<lambda>_. NUL"] len
    delete_loop_chain [OF c(1) [unfolded bs] len]
  show ?thesis by (simp add: bs)
qed

lemma delete_entry_ok:
  assumes ok: "files_ok T bm D" and len: "length T = DISK_BLOCKS" "length bm = DISK_BLOCKS"
    and k: "k < length D" "de_used (D ! k)" and e': "\<not> de_used e'"
    and T': "T' = upd_at (set (fblocks T (D ! k))) free_inode T"
    and bm': "bm' = upd_at (set (fblocks T (D ! k))) (\<lambda>_. NUL) bm"
  shows "files_ok T' bm' (D[k := e'])"
    and "\<And>i. i < length D \<Longrightarrow> i \<noteq> k \<Longrightarrow> de_used (D ! i) \<Longrightarrow> fblocks T' (D ! i) = fblocks T (D ! i)"
proof -
  have keep: "keeps_file T T' bm' (D ! i)" if i: "i < length D" "i \<noteq> k" "de_used (D ! i)" for i
    unfolding keeps_file_def
  proof
    fix b
    assume b: "b \<in> set (fblocks T (D ! i))"
    with ok k i have "b \<notin> set (fblocks T (D ! k))" by (auto simp: files_ok_def)
    moreover have "0 \<le> b" "b < int DISK_BLOCKS" "bm ! nat b \<noteq> NUL"
      using chain_range [OF file_okD(1) [OF ok i(1,3)] b] file_okD(3) [OF ok i(1,3) b] len by auto
    ultimately show "next_direct_offset (T' ! nat b) = next_direct_offset (T ! nat b) \<and> bm' ! nat b \<noteq> NUL"
      using len by (simp add: T' bm')
  qed
  have lT: "length T' = length T" by (simp add: T')
  show "files_ok T' bm' (D[k := e'])"
    by (rule files_ok_update(1) [OF ok k(1) lT keep]) (use e' in auto)
  show "fblocks T' (D ! i) = fblocks T (D ! i)" if "i < length D" "i \<noteq> k" "de_used (D ! i)" for i
    by (rule files_ok_update(2) [OF ok k(1) lT keep, where e' = e']) (use e' that in auto)
qed

lemma fd_refs_closed:
  assumes wf: "Directory s = Some D" "files_ok T bm D" and k: "k < length D" "de_used (D ! k)"
    and closed: "\<And>fd off. fd_view s fd \<noteq> Some (cstr (de_name (D ! k)), off)"
    and f: "f \<in> set (fd_array s)" "fd_used f"
  shows "fd_inode_number f \<noteq> de_inode_number (D ! k)"
proof
  assume eq: "fd_inode_number f = de_inode_number (D ! k)"
  from f(1) obtain i where i: "i < length (fd_array s)" "f = fd_array s ! i" by (auto simp: in_set_conv_nth)
  then have "array_get (fd_array s) (int i) = Some f" by simp
  with f(2) k eq have "fd_view s (int i) = Some (cstr (de_name (D ! k)), nat (fd_offset f))"
    unfolding fd_view_Some [OF wf] by metis
  with closed show False by blast
qed

lemma free_set_release:
  assumes "length bm = DISK_BLOCKS" "\<And>b. b \<in> S \<Longrightarrow> lo \<le> b \<and> b < int DISK_BLOCKS" "0 \<le> lo"
  shows "free_set lo (upd_at S (\<lambda>_. NUL) bm) = free_set lo bm \<union> S"
proof -
  have "upd_at S (\<lambda>_. NUL) bm ! nat j = (if j \<in> S then NUL else bm ! nat j)"
    if "lo \<le> j" "j < int DISK_BLOCKS" for j
    using that assms(1,3) by simp
  with assms(2) show ?thesis by (auto simp: free_set_def)
qed

lemma fs_delete_step:
  assumes wf: "fs_wf os s" and nm: "nm \<noteq> []" "NUL \<notin> set nm" "fs_files s nm = Some c"
    and closed: "\<And>fd off. fd_view s fd \<noteq> Some (nm, off)"
  obtains s' where "fs_delete nm s = Some (0, s')" "fs_wf os s'" "fs_abs s' = spec_delete nm (fs_abs s)"
    "free_blocks s' = free_blocks s + file_nblocks s nm"
proof -
  from wf obtain T bm D where w: "mounted s" "dev_ready os (dsk s)" "super s = Some make_super"
    "Table s = Some T" "used_block_bitmap s = Some bm" "Directory s = Some D"
    "length T = DISK_BLOCKS" "length bm = DISK_BLOCKS" "length D = MAX_NUM_OF_FILES"
    "length (fd_array s) = MAX_FILE_DESCRIPTOR" "files_ok T bm D" "names_ok D" "fds_ok D (fd_array s)"
    by (rule fs_wfE)
  from nm(3) obtain k where k: "lookup_dir D nm = Some k"
    using w(4,6) by (auto simp: fs_files_def bind_eq_Some_conv)
  then have kD: "k < length D" "de_used (D ! k)" "cstr (de_name (D ! k)) = nm"
    by (auto simp: lookup_dir_Some [OF w(12)])
  let ?bs = "fblocks T (D ! k)"
  define T' where "T' = upd_at (set ?bs) free_inode T"
  define bm' where "bm' = upd_at (set ?bs) (\<lambda>_. NUL) bm"
  define e' where "e' = \<lparr>de_used = False, de_inode_number = -1,
     de_name = memset0 (de_name (D ! k)) MAX_FILENAME_LENGTH, de_size = 0, de_count = 0\<rparr>"
  define s' where "s' = s\<lparr>Table := Some T', used_block_bitmap := Some bm', Directory := Some (D[k := e'])\<rparr>"
  note fo = file_okD [OF w(11) kD(1,2)]
  have noref: "fd_inode_number f \<noteq> de_inode_number (D ! k)" if "f \<in> set (fd_array s)" "fd_used f" for f
    by (rule fd_refs_closed [OF w(6,11) kD(1,2) _ that]) (use closed kD(3) in blast)
  have cnt: "de_count (D ! k) = 0"
    using w(13) kD(1,2) fd_refs_zero [of "fd_array s"] noref by (auto simp: fds_ok_def)
  obtain l T1 bm1 where dl: "delete_loop (de_inode_number (D ! k)) T bm = Some (l, T1, bm1)"
      "0 \<le> l" "l < int (length T)" "length T1 = length T" "length bm1 = length T"
      "T1[nat l := free_inode (T1 ! nat l)] = T'" "bm1[nat l := NUL] = bm'"
    using delete_blocks [OF fo(1,2), of bm] w(7,8) by (auto simp: T'_def bm'_def)
  have run: "fs_delete nm s = Some (0, s')"
    using w(4-6) k search_name [OF w(12) nm(1,2)] cnt dl
    by (simp add: fs_delete_def s'_def e'_def array_get_in array_set_in)
  have e'_unused: "\<not> de_used e'" by (simp add: e'_def)
  note ent = delete_entry_ok [OF w(11,7,8) kD(1,2) e'_unused T'_def bm'_def]
  have names: "names_ok (D[k := e'])"
    by (rule names_ok_update [OF w(12) kD(1)])
      (use names_okD(1) [OF w(12) kD(1)] in \<open>auto simp: e'_def memset0_def cstr_def MAX_FILENAME_LENGTH_def takeWhile_eq_Nil_iff\<close>)
  have refs: "same_refs (fd_array s) (D ! k) e'" using noref by (fastforce simp: same_refs_def e'_def)
  have "s' = s\<lparr>Table := Some T', used_block_bitmap := Some bm', Directory := Some (D[k := e']), dsk := dsk s\<rparr>" by (simp add: s'_def)
  note re = replace_entry [OF wf w(4-6) kD(1) ent(1) _ _ w(2) names refs _ _ _ _ _ this, of nm]
  have le: "length T' = DISK_BLOCKS" "length bm' = DISK_BLOCKS" using w(7,8) by (simp_all add: T'_def bm'_def)
  have wf': "fs_wf os s'" and "fd_view s' = fd_view s" and "fs_files s' = (fs_files s)(nm := None)"
    using re [OF le] ent(2) kD e'_unused by (simp_all add: content_def)
  then have "fs_abs s' = spec_delete nm (fs_abs s)"
    by (simp add: fs_abs_def spec_delete_def e'_def)
  moreover have "free_blocks s' = free_blocks s + file_nblocks s nm"
  proof -
    have r: "data_start \<le> b \<and> b < int DISK_BLOCKS" if "b \<in> set ?bs" for b
      using fo(3) [OF that] chain_range [OF fo(1) that] w(7) by auto
    have "free_set data_start bm' = free_set data_start bm \<union> set ?bs"
      unfolding bm'_def by (rule free_set_release) (use r data_start_range w(8) in auto)
    moreover have "free_set data_start bm \<inter> set ?bs = {}" using fo(3) by (auto simp: free_set_def)
    ultimately have "card (free_set data_start bm') = card (free_set data_start bm) + length ?bs"
      using chain_distinct [OF fo(1)] by (simp add: card_Un_disjoint distinct_card)
    moreover have "file_nblocks s nm = length ?bs" using file_nblocks_eq [OF w(4,6,12) kD(1,2)] kD(3) by simp
    ultimately show ?thesis using w(5) by (simp add: free_blocks_def s'_def)
  qed
  ultimately show ?thesis using run wf' that by blast
qed

end
