(* ===== verification/FS_IO.thy ===== *)
theory FS_IO
  imports FS_Names
begin

text \<open>
  Reading, writing, seeking and truncating through a descriptor.
\<close>

section \<open>Specifications\<close>

definition spec_seek :: "int \<Rightarrow> nat \<Rightarrow> afs \<Rightarrow> afs" where
  "spec_seek fd off a =
     (case afds a fd of None \<Rightarrow> a | Some (nm, _) \<Rightarrow> a\<lparr>afds := (afds a)(fd \<mapsto> (nm, off))\<rparr>)"

definition spec_write :: "int \<Rightarrow> byte list \<Rightarrow> afs \<Rightarrow> afs" where
  "spec_write fd data a =
     (case afds a fd of
        None \<Rightarrow> a
      | Some (nm, off) \<Rightarrow>
          a\<lparr>afiles := (afiles a)(nm := map_option (splice off data) (afiles a nm)),
            afds := (afds a)(fd \<mapsto> (nm, off + length data))\<rparr>)"

definition spec_read :: "int \<Rightarrow> nat \<Rightarrow> afs \<Rightarrow> byte list" where
  "spec_read fd n a =
     (case afds a fd of
        None \<Rightarrow> []
      | Some (nm, off) \<Rightarrow> (case afiles a nm of None \<Rightarrow> [] | Some c \<Rightarrow> take n (drop off c)))"

definition spec_truncate :: "int \<Rightarrow> nat \<Rightarrow> afs \<Rightarrow> afs" where
  "spec_truncate fd len a =
     (case afds a fd of
        None \<Rightarrow> a
      | Some (nm, off) \<Rightarrow> a\<lparr>afiles := (afiles a)(nm := map_option (take len) (afiles a nm))\<rparr>)"


section \<open>Moving the position of a descriptor\<close>

lemma fd_move:
  assumes wf: "fs_wf os s" and fd: "fd_view s fildes = Some (nm, off)"
    and f: "array_get (fd_array s) fildes = Some f"
    and off': "0 \<le> off'" "off' \<le> MAX_FILESIZE"
    and s': "s' = s\<lparr>fd_array := (fd_array s)[nat fildes := f\<lparr>fd_offset := off'\<rparr>]\<rparr>"
  shows "fs_wf os s'" "fs_abs s' = spec_seek fildes (nat off') (fs_abs s)"
proof -
  from wf fd obtain T bm D f0 k where w:
    "dev_ready os (dsk s)" "super s = Some make_super"
    "Table s = Some T" "used_block_bitmap s = Some bm" "Directory s = Some D"
    "length T = DISK_BLOCKS" "length bm = DISK_BLOCKS" "length D = MAX_NUM_OF_FILES"
    "files_ok T bm D" "names_ok D" "fds_ok D (fd_array s)"
    "0 \<le> fildes" "fildes < int MAX_FILE_DESCRIPTOR" "array_get (fd_array s) fildes = Some f0" "fd_used f0"
    "fd_offset f0 = int off" "fd_offset f0 \<le> MAX_FILESIZE"
    "k < length D" "de_used (D ! k)" "de_inode_number (D ! k) = fd_inode_number f0"
    "cstr (de_name (D ! k)) = nm" "dir_of_fd D (fd_array s) fildes = Some (Some k)"
    "fs_files s nm = Some (content (dsk s) T (D ! k))" "length (fd_array s) = MAX_FILE_DESCRIPTOR"
    by (rule fd_viewE)
  have ff: "f = f0" "f = fd_array s ! nat fildes" "nat fildes < length (fd_array s)"
    using w(14) f by (auto simp: array_get_eq_Some)
  have id: "s' = s\<lparr>fd_array := (fd_array s)[nat fildes := f\<lparr>fd_offset := off'\<rparr>],
     Directory := Some (D[k := (D ! k)\<lparr>de_count := de_count (D ! k)\<rparr>])\<rparr>"
    using w(5) by (simp add: s')
  have "fs_wf os s' \<and> fs_abs s' = (fs_abs s)\<lparr>afds := (fd_view s)(int (nat fildes) :=
           (if fd_used (f\<lparr>fd_offset := off'\<rparr>)
            then Some (cstr (de_name (D ! k)), nat (fd_offset (f\<lparr>fd_offset := off'\<rparr>))) else None))\<rparr>"
    using fd_op_abs [OF wf w(3-5) ff(3) w(18,19) refl _ _ _ id] w(15,20) ff off' by simp
  then show "fs_wf os s'" "fs_abs s' = spec_seek fildes (nat off') (fs_abs s)"
    using w(12,15,21) ff(1) fd by (simp_all add: spec_seek_def fs_abs_def)
qed

lemma fs_lseek_step:
  assumes wf: "fs_wf os s" and fd: "fd_view s fildes = Some (nm, off)" and c: "fs_files s nm = Some c"
    and off': "off' \<le> length c"
  obtains s' where "fs_lseek fildes (int off') s = Some (0, s')" "fs_wf os s'"
    "fs_abs s' = spec_seek fildes off' (fs_abs s)"
proof -
  from wf fd obtain T bm D f k where w:
    "dev_ready os (dsk s)" "super s = Some make_super"
    "Table s = Some T" "used_block_bitmap s = Some bm" "Directory s = Some D"
    "length T = DISK_BLOCKS" "length bm = DISK_BLOCKS" "length D = MAX_NUM_OF_FILES"
    "files_ok T bm D" "names_ok D" "fds_ok D (fd_array s)"
    "0 \<le> fildes" "fildes < int MAX_FILE_DESCRIPTOR" "array_get (fd_array s) fildes = Some f" "fd_used f"
    "fd_offset f = int off" "fd_offset f \<le> MAX_FILESIZE"
    "k < length D" "de_used (D ! k)" "de_inode_number (D ! k) = fd_inode_number f"
    "cstr (de_name (D ! k)) = nm" "dir_of_fd D (fd_array s) fildes = Some (Some k)"
    "fs_files s nm = Some (content (dsk s) T (D ! k))" "length (fd_array s) = MAX_FILE_DESCRIPTOR"
    by (rule fd_viewE)
  note fo = file_okD [OF w(9,18,19)]
  have len: "length c = nat (de_size (D ! k))"
    using c w(23) length_content [of T bm "D ! k"] w(9,18,19) by (auto simp: files_ok_def)
  with off' fo(4,6) have o: "int off' \<le> de_size (D ! k)" "int off' \<le> MAX_FILESIZE" by auto
  then have conv: "int_of_off (int off') = int off'"
    by (intro int_of_off_small) (auto simp: MAX_FILESIZE_def)
  let ?s' = "s\<lparr>fd_array := (fd_array s)[nat fildes := f\<lparr>fd_offset := int off'\<rparr>]\<rparr>"
  have "fs_lseek fildes (int off') s = Some (0, ?s')"
    using w o conv by (simp add: fs_lseek_def)
  moreover have "fs_wf os ?s'" "fs_abs ?s' = spec_seek fildes off' (fs_abs s)"
    using fd_move [OF wf fd w(14) _ o(2) refl] by simp_all
  ultimately show ?thesis by (rule that)
qed


section \<open>fs_write\<close>

lemma MAX_FILESIZE_pos: "0 \<le> MAX_FILESIZE"
  by (simp add: MAX_FILESIZE_def)

lemma write_arith:
  assumes n: "0 < unat nbyte" "off + unat nbyte \<le> nat MAX_FILESIZE"
  defines "w \<equiv> size_of_int (int off) + nbyte"
  shows "unat w = off + unat nbyte" "\<not> w > size_of_int MAX_FILESIZE"
    "unat ((w - 1) div size_of_int (int BLOCK_SIZE)) = (off + unat nbyte - 1) div BLOCK_SIZE"
    "0 \<le> sz \<Longrightarrow> sz \<le> MAX_FILESIZE \<Longrightarrow> w > size_of_int sz \<longleftrightarrow> nat sz < off + unat nbyte"
    "int_of_size w = int (off + unat nbyte)" "int_of_size nbyte = int (unat nbyte)"
proof -
  have b: "off + unat nbyte \<le> 2 ^ 24"
    using n(2) by (simp add: MAX_FILESIZE_def)
  have off: "unat (size_of_int (int off)) = off" using b by simp
  show w: "unat w = off + unat nbyte"
    using unat_add_lem [of "size_of_int (int off)" nbyte] off b by (simp add: w_def)
  show "\<not> w > size_of_int MAX_FILESIZE"
    using w b by (simp add: word_less_nat_alt MAX_FILESIZE_def)
  have "w \<noteq> 0" using w n(1) by (metis add_is_0 less_numeral_extra(3) unat_eq_zero)
  then have "unat (w - 1) = off + unat nbyte - 1" using w by (simp add: unat_minus_one)
  then show "unat ((w - 1) div size_of_int (int BLOCK_SIZE)) = (off + unat nbyte - 1) div BLOCK_SIZE"
    by (simp add: unat_div BLOCK_SIZE_def)
  show "w > size_of_int sz \<longleftrightarrow> nat sz < off + unat nbyte" if "0 \<le> sz" "sz \<le> MAX_FILESIZE"
    using that w by (simp add: word_less_nat_alt MAX_FILESIZE_def)
  show "int_of_size w = int (off + unat nbyte)"
    using int_of_size_small [of w] w b by (simp del: of_nat_add)
  show "int_of_size nbyte = int (unat nbyte)"
    using int_of_size_small [of nbyte] b by simp
qed

lemma file_blocks_pos: "0 < sz \<Longrightarrow> nat (file_blocks sz) = (nat sz - 1) div BLOCK_SIZE + 1"
proof -
  assume sz: "0 < sz"
  then have "file_blocks sz = int ((nat sz - 1) div BLOCK_SIZE + 1)"
    by (simp add: file_blocks_def sdiv_nonneg zdiv_int int_ops)
  then show ?thesis by simp
qed

lemma file_blocks_zero: "file_blocks 0 = 1"
  by (simp add: file_blocks_def signed_divide_int_def BLOCK_SIZE_def)

lemma ceil_blocks: "0 < n \<Longrightarrow> n \<le> ((n - 1) div BLOCK_SIZE + 1) * BLOCK_SIZE"
  using mod_less_divisor [OF BLOCK_SIZE_pos(1), of "n - 1"] div_mult_mod_eq [of "n - 1" BLOCK_SIZE]
  unfolding distrib_right by linarith

lemma ceil_blocks_least: "0 < n \<Longrightarrow> n \<le> m * BLOCK_SIZE \<Longrightarrow> (n - 1) div BLOCK_SIZE + 1 \<le> m"
proof -
  assume "0 < n" "n \<le> m * BLOCK_SIZE"
  then have "n - 1 < m * BLOCK_SIZE" by simp
  then have "(n - 1) div BLOCK_SIZE < m" by (simp add: less_mult_imp_div_less)
  then show ?thesis by simp
qed

lemma concat_blk_length [simp]: "length (concat (map (blk d) bs)) = length bs * BLOCK_SIZE"
  by (subst length_concat_map_const [where w = BLOCK_SIZE]) simp_all

lemma concat_blk_prefix: "m \<le> n * BLOCK_SIZE \<Longrightarrow> m \<le> length bs * BLOCK_SIZE \<Longrightarrow>
    take m (concat (map (blk d) (take n bs @ cs))) = take m (concat (map (blk d) bs))"
proof (induction n arbitrary: m bs)
  case 0
  then show ?case by simp
next
  case (Suc n)
  then show ?case by (cases bs) (simp_all add: diff_le_mono)
qed

lemma extend_entry_ok:
  assumes ok: "files_ok T bm D" and len: "length T = DISK_BLOCKS" "length bm = DISK_BLOCKS"
    and k: "k < length D" "de_used (D ! k)"
    and c: "chain T' (de_inode_number (D ! k)) (fblocks T (D ! k) @ js)"
    and ext: "extends data_start bm T (last (fblocks T (D ! k))) js T' bm'"
    and e': "de_inode_number e' = de_inode_number (D ! k)"
    and sz: "0 \<le> de_size e'" "de_size e' \<le> MAX_FILESIZE"
      "de_size e' \<le> int (length (fblocks T (D ! k) @ js) * BLOCK_SIZE)"
  shows "files_ok T' bm' (D[k := e'])" "fblocks T' e' = fblocks T (D ! k) @ js"
    and "\<And>i. i < length D \<Longrightarrow> i \<noteq> k \<Longrightarrow> de_used (D ! i) \<Longrightarrow> fblocks T' (D ! i) = fblocks T (D ! i)"
    and "\<And>i. i < length D \<Longrightarrow> i \<noteq> k \<Longrightarrow> de_used (D ! i) \<Longrightarrow>
           set (fblocks T (D ! i)) \<inter> set (fblocks T (D ! k) @ js) = {}"
proof -
  let ?bs = "fblocks T (D ! k)"
  show fb: "fblocks T' e' = ?bs @ js" using blocks_eq [OF c] by (simp add: fblocks_def e')
  have lT: "length T' = length T" using ext by (simp add: extends_def)
  have bm': "bm' ! nat b = (if b \<in> set js then CHR 0x01 else bm ! nat b)" if "0 \<le> b" "b < int DISK_BLOCKS" for b
    using ext that len by (simp add: extends_def)
  have free: "bm ! nat b = NUL" "data_start \<le> b" if "b \<in> set js" for b
    using ext that by (auto simp: extends_def free_set_def)
  show disj: "set (fblocks T (D ! i)) \<inter> set (?bs @ js) = {}"
    if i: "i < length D" "i \<noteq> k" "de_used (D ! i)" for i
    using files_ok_disj [OF ok i(1) k(1) i(2,3) k(2)] file_okD(3) [OF ok i(1,3)] free by auto
  have rng: "0 \<le> b \<and> b < int DISK_BLOCKS" if "b \<in> set (?bs @ js)" for b
    using chain_range [OF c that] lT len by simp
  have new: "file_ok T' bm' e'"
    unfolding file_ok_def fb e'
  proof (intro conjI ballI)
    fix b
    assume b: "b \<in> set (?bs @ js)"
    show "data_start \<le> b" "bm' ! nat b \<noteq> NUL"
      using b rng [OF b] bm' free file_okD(3) [OF ok k] by auto
  qed (use c sz file_okD(2) [OF ok k] in auto)
  have last: "last ?bs \<in> set (?bs @ js)" using file_okD(2) [OF ok k] by simp
  have keep: "keeps_file T T' bm' (D ! i)" if i: "i < length D" "i \<noteq> k" "de_used (D ! i)" for i
    unfolding keeps_file_def
  proof
    fix b
    assume b: "b \<in> set (fblocks T (D ! i))"
    have r: "0 \<le> b" "b < int DISK_BLOCKS" using chain_range [OF file_okD(1) [OF ok i(1,3)] b] len by auto
    have nb: "b \<notin> set js" "b \<noteq> last ?bs" using disj [OF i] b last by auto
    then have "T' ! nat b = T ! nat b" using ext r len by (auto simp: extends_def)
    with nb r bm' file_okD(3) [OF ok i(1,3) b]
    show "next_direct_offset (T' ! nat b) = next_direct_offset (T ! nat b) \<and> bm' ! nat b \<noteq> NUL" by simp
  qed
  have dj: "set (fblocks T' e') \<inter> set (fblocks T (D ! i)) = {}"
    if "i < length D" "i \<noteq> k" "de_used (D ! i)" for i
    using disj [OF that] by (simp only: fb Int_commute)
  show "files_ok T' bm' (D[k := e'])"
    by (rule files_ok_update(1) [OF ok k(1) lT keep new dj])
  show "fblocks T' (D ! i) = fblocks T (D ! i)" if "i < length D" "i \<noteq> k" "de_used (D ! i)" for i
    by (rule files_ok_update(2) [OF ok k(1) lT keep new dj that])
qed

text \<open>Changing the size and the blocks of one file, and the disk, as \<open>fs_write\<close> and \<open>fs_truncate\<close> do.\<close>

lemma resize_entry:
  assumes wf: "fs_wf os s" and s: "Table s = Some T" "used_block_bitmap s = Some bm" "Directory s = Some D"
    and k: "k < length D" "de_used (D ! k)"
    and e': "e' = (D ! k)\<lparr>de_size := sz\<rparr>"
    and ok: "files_ok T' bm' (D[k := e'])" and len: "length T' = DISK_BLOCKS" "length bm' = DISK_BLOCKS"
    and d': "dev_ready os d'"
    and keep: "\<And>i. i < length D \<Longrightarrow> i \<noteq> k \<Longrightarrow> de_used (D ! i) \<Longrightarrow>
                 content d' T' (D ! i) = content (dsk s) T (D ! i)"
    and s': "s' = s\<lparr>Table := Some T', used_block_bitmap := Some bm', Directory := Some (D[k := e']), dsk := d'\<rparr>"
  shows "fs_wf os s'" "fd_view s' = fd_view s"
    "fs_files s' = (fs_files s)(cstr (de_name (D ! k)) \<mapsto> content d' T' e')"
proof -
  from wf s have w: "mounted s" "super s = Some make_super" "length D = MAX_NUM_OF_FILES"
    "length (fd_array s) = MAX_FILE_DESCRIPTOR" "files_ok T bm D" "names_ok D" "fds_ok D (fd_array s)"
    by (auto elim!: fs_wfE)
  have refs: "same_refs (fd_array s) (D ! k) e'" by (simp add: same_refs_def e')
  have names: "names_ok (D[k := e'])"
    by (rule names_ok_update [OF w(6) k(1)])
      (use names_okD [OF w(6) k(1)] names_ok_inj [OF w(6) _ k(1) _ k(2)] k in \<open>auto simp: e'\<close>)
  have cnt: "de_count e' = int (fd_refs (fd_array s) (de_inode_number e'))" using w(7) k by (simp add: fds_ok_def e')
  note re = replace_entry [OF wf s k(1) ok len d' names refs cnt keep _ _ _ s', of "cstr (de_name (D ! k))"]
  show "fs_wf os s'" "fd_view s' = fd_view s" "fs_files s' = (fs_files s)(cstr (de_name (D ! k)) \<mapsto> content d' T' e')"
    using re k(2) by (simp_all add: e')
qed

text \<open>Writing a buffer over the first blocks of a chain.\<close>

lemma write_blocks:
  assumes d: "dev_ready os d" and c: "chain T i bs" and T: "length T = DISK_BLOCKS"
    and n: "n \<le> length bs" and buf: "length buf = n * BLOCK_SIZE"
  obtains d' where "write_all os T n i buf d = Some (0, d')" "dev_ready os d'"
    "concat (map (blk d') (take n bs)) = buf"
    "\<And>b. 0 \<le> b \<Longrightarrow> b < int DISK_BLOCKS \<Longrightarrow> b \<notin> set bs \<Longrightarrow> blk d' b = blk d b"
proof -
  let ?d' = "write_seq (block_write os) (zip (take n bs) (buffers n buf)) d"
  have r: "0 \<le> b \<and> b < int DISK_BLOCKS" if "b \<in> set (take n bs)" for b
    using chain_range [OF c] that T by (auto dest: in_set_takeD)
  have di: "distinct (take n bs)" using chain_distinct [OF c] by simp
  have lb: "length (buffers n buf) = length (take n bs)" using n by simp
  note z = dev.write_seq_zip [OF d di lb r buffers_length [OF buf]]
  have "concat (map (blk ?d') (take n bs)) = buf" using z(1) concat_buffers [OF buf] by simp
  moreover have "blk ?d' b = blk d b" if "0 \<le> b" "b < int DISK_BLOCKS" "b \<notin> set bs" for b
    using z(2) that in_set_takeD by metis
  ultimately show ?thesis using that write_all_chain [OF T d c n buf] z(3) by blast
qed

lemma splice_blocks:
  assumes c: "c = take sz old" and off: "off \<le> sz" "off + length data \<le> length old" "sz \<le> length old"
  shows "take (max sz (off + length data)) (take off old @ data @ drop (off + length data) old) = splice off data c"
proof (cases "sz \<le> off + length data")
  case True
  then show ?thesis using off by (cases data) (simp_all add: c splice_def max_def min_def)
next
  case False
  then have "max sz (off + length data) = sz" by simp
  then show ?thesis using off False by (simp add: c splice_def min_def take_drop)
qed

text \<open>Allocation: the chain reaches the last block written.\<close>

lemma write_alloc:
  assumes ok: "files_ok T bm D" "k < length D" "de_used (D ! k)"
    and len: "length T = DISK_BLOCKS" "length bm = DISK_BLOCKS"
    and m: "0 < m" "(m - 1) div BLOCK_SIZE + 1 \<le> length (fblocks T (D ! k)) + card (free_set data_start bm)"
  obtains T' bm' js where
    "alloc_loop data_start ((m - 1) div BLOCK_SIZE) (de_inode_number (D ! k)) T bm = Some (0, T', bm')"
    "chain T' (de_inode_number (D ! k)) (fblocks T (D ! k) @ js)"
    "extends data_start bm T (last (fblocks T (D ! k))) js T' bm'"
    "m \<le> length (fblocks T (D ! k) @ js) * BLOCK_SIZE"
    "length T' = DISK_BLOCKS" "length bm' = DISK_BLOCKS"
proof -
  let ?bs = "fblocks T (D ! k)"
  note fo = file_okD [OF ok]
  have nn: "b \<in> set ?bs \<Longrightarrow> bm ! nat b \<noteq> NUL" for b using fo(3) by simp
  obtain T' bm' js where al:
      "alloc_loop data_start ((m - 1) div BLOCK_SIZE) (de_inode_number (D ! k)) T bm = Some (0, T', bm')"
      "chain T' (de_inode_number (D ! k)) (?bs @ js)" "extends data_start bm T (last ?bs) js T' bm'"
      "length js = Suc ((m - 1) div BLOCK_SIZE) - length ?bs"
    using alloc_loop_chain [OF data_start_range fo(1,2) len nn, of "(m - 1) div BLOCK_SIZE"] m(2)
    by (auto split: if_splits)
  have "(m - 1) div BLOCK_SIZE + 1 \<le> length (?bs @ js)" using al(4) by simp
  then have "m \<le> length (?bs @ js) * BLOCK_SIZE"
    using ceil_blocks [OF m(1)] by (meson le_trans mult_le_mono1)
  moreover have "length T' = DISK_BLOCKS" "length bm' = DISK_BLOCKS"
    using al(3) len by (auto simp: extends_def)
  ultimately show ?thesis using al that by blast
qed

text \<open>Reading the file, splicing the new bytes into it and writing it back.\<close>

lemma overwrite_file:
  assumes d: "dev_ready os d" and c: "chain T i cs" and T: "length T = DISK_BLOCKS"
    and sz: "off \<le> sz" "sz \<le> length cs * BLOCK_SIZE" "data \<noteq> []" "off + length data \<le> length cs * BLOCK_SIZE"
  defines "sz' \<equiv> max sz (off + length data)"
  defines "nb \<equiv> nat (file_blocks (int sz'))"
  obtains old new d' where "read_all os d T nb i = Some (0, old)" "memcpy old off data = Some new"
    "write_all os T nb i new d = Some (0, d')" "dev_ready os d'"
    "take sz' (concat (map (blk d') cs)) = splice off data (take sz (concat (map (blk d) cs)))"
    "\<And>b. 0 \<le> b \<Longrightarrow> b < int DISK_BLOCKS \<Longrightarrow> b \<notin> set cs \<Longrightarrow> blk d' b = blk d b"
proof -
  have p: "0 < sz'" "sz' \<le> length cs * BLOCK_SIZE" using sz by (auto simp: sz'_def less_max_iff_disj)
  have nb: "sz' \<le> nb * BLOCK_SIZE" "nb \<le> length cs"
    using file_blocks_pos [of "int sz'"] ceil_blocks [OF p(1)] ceil_blocks_least [OF p] p(1)
    by (simp_all add: nb_def)
  define old where "old = concat (map (blk d) (take nb cs))"
  have old: "length old = nb * BLOCK_SIZE" using nb(2) by (simp add: old_def)
  define new where "new = take off old @ data @ drop (off + length data) old"
  have mem: "memcpy old off data = Some new" and new: "length new = nb * BLOCK_SIZE"
    using old nb(1) by (simp_all add: memcpy_def new_def sz'_def)
  obtain d' where wr: "write_all os T nb i new d = Some (0, d')" "dev_ready os d'"
      "concat (map (blk d') (take nb cs)) = new"
      "\<And>b. 0 \<le> b \<Longrightarrow> b < int DISK_BLOCKS \<Longrightarrow> b \<notin> set cs \<Longrightarrow> blk d' b = blk d b"
    using write_blocks [OF d c T nb(2) new] by blast
  have pre: "take x (concat (map (blk e) cs)) = take x (concat (map (blk e) (take nb cs)))" if "x \<le> sz'" for e x
    using concat_blk_prefix [of x nb cs e "[]"] that nb(1) p(2) by simp
  have "take sz (concat (map (blk d) cs)) = take sz old"
    using pre [of sz d] by (simp add: old_def sz'_def)
  then have "take sz' (concat (map (blk d') cs)) = splice off data (take sz (concat (map (blk d) cs)))"
    using splice_blocks [OF refl sz(1), of data old] pre [of sz' d'] old nb(1) sz'_def wr(3)
    by (simp add: new_def)
  with read_all_chain [OF d T c nb(2)] mem wr that show ?thesis by (simp add: old_def)
qed

text \<open>The whole of the work on one file: the loops of \<open>fs_write\<close> and what they leave behind.\<close>

lemma write_entry:
  assumes w: "files_ok T bm D" "length T = DISK_BLOCKS" "length bm = DISK_BLOCKS" "dev_ready os d"
    and k: "k < length D" "de_used (D ! k)"
    and off: "off \<le> length (content d T (D ! k))" and data: "data \<noteq> []" "int m \<le> MAX_FILESIZE"
    and m: "m = off + length data"
    and room: "(m - 1) div BLOCK_SIZE + 1 \<le> length (fblocks T (D ! k)) + card (free_set data_start bm)"
    and sz': "sz' = int (max (nat (de_size (D ! k))) m)"
  obtains T' bm' old new d' where
    "alloc_loop data_start ((m - 1) div BLOCK_SIZE) (de_inode_number (D ! k)) T bm = Some (0, T', bm')"
    "read_all os d T' (nat (file_blocks sz')) (de_inode_number (D ! k)) = Some (0, old)"
    "memcpy old off data = Some new"
    "write_all os T' (nat (file_blocks sz')) (de_inode_number (D ! k)) new d = Some (0, d')"
    "files_ok T' bm' (D[k := (D ! k)\<lparr>de_size := sz'\<rparr>])"
    "length T' = DISK_BLOCKS" "length bm' = DISK_BLOCKS" "dev_ready os d'"
    "content d' T' ((D ! k)\<lparr>de_size := sz'\<rparr>) = splice off data (content d T (D ! k))"
    "\<And>i. i < length D \<Longrightarrow> i \<noteq> k \<Longrightarrow> de_used (D ! i) \<Longrightarrow> content d' T' (D ! i) = content d T (D ! i)"
proof -
  note fo = file_okD [OF w(1) k]
  let ?bs = "fblocks T (D ! k)" and ?e' = "(D ! k)\<lparr>de_size := sz'\<rparr>"
  define sz where "sz = nat (de_size (D ! k))"
  have size: "int sz \<le> MAX_FILESIZE" "sz \<le> length ?bs * BLOCK_SIZE" using fo(4-6) by (auto simp: sz_def nat_le_iff)
  have c: "content d T (D ! k) = take sz (concat (map (blk d) ?bs))" by (simp add: content_def sz_def)
  then have off': "off \<le> sz" using off by simp
  have m0: "0 < m" using data(1) by (simp add: m)
  obtain T' bm' js where al:
      "alloc_loop data_start ((m - 1) div BLOCK_SIZE) (de_inode_number (D ! k)) T bm = Some (0, T', bm')"
      "chain T' (de_inode_number (D ! k)) (?bs @ js)" "extends data_start bm T (last ?bs) js T' bm'"
      "m \<le> length (?bs @ js) * BLOCK_SIZE" "length T' = DISK_BLOCKS" "length bm' = DISK_BLOCKS"
    using write_alloc [OF w(1) k w(2,3) m0 room] by blast
  have bsz: "sz \<le> length (?bs @ js) * BLOCK_SIZE" using size(2) by (simp add: distrib_right)
  obtain old new d' where ov: "read_all os d T' (nat (file_blocks sz')) (de_inode_number (D ! k)) = Some (0, old)"
      "memcpy old off data = Some new"
      "write_all os T' (nat (file_blocks sz')) (de_inode_number (D ! k)) new d = Some (0, d')"
      "dev_ready os d'"
      "take (max sz m) (concat (map (blk d') (?bs @ js))) = splice off data (take sz (concat (map (blk d) (?bs @ js))))"
      "\<And>b. 0 \<le> b \<Longrightarrow> b < int DISK_BLOCKS \<Longrightarrow> b \<notin> set (?bs @ js) \<Longrightarrow> blk d' b = blk d b"
    using overwrite_file [OF w(4) al(2,5) off' bsz data(1)] al(4) unfolding m sz' sz_def by metis
  have ms: "0 \<le> de_size ?e'" "de_size ?e' \<le> MAX_FILESIZE" "de_size ?e' \<le> int (length (?bs @ js) * BLOCK_SIZE)"
    using bsz al(4) size(1) data(2) by (auto simp: sz' sz_def [symmetric] max_def simp del: of_nat_mult length_append)
  have e': "de_inode_number ?e' = de_inode_number (D ! k)" by simp
  note ent = extend_entry_ok [OF w(1-3) k al(2,3) e' ms]
  have "content d' T' ?e' = splice off data (content d T (D ! k))"
    using ov(5) size(2) concat_blk_prefix [of sz "length ?bs" ?bs d js]
    unfolding content_def [of d'] ent(2) c by (simp add: sz' sz_def [symmetric])
  moreover have "content d' T' (D ! i) = content d T (D ! i)" if i: "i < length D" "i \<noteq> k" "de_used (D ! i)" for i
  proof -
    have "blk d' b = blk d b" if b: "b \<in> set (fblocks T (D ! i))" for b
      by (rule ov(6)) (use chain_range [OF file_okD(1) [OF w(1) i(1,3)] b] w(2) ent(4) [OF i] b in auto)
    then have "map (blk d') (fblocks T (D ! i)) = map (blk d) (fblocks T (D ! i))" by simp
    then show ?thesis unfolding content_def ent(3) [OF i] by (simp only:)
  qed
  ultimately show ?thesis using that al(1,5,6) ov(1-4) ent(1) by blast
qed

lemma fs_write_step:
  assumes wf: "fs_wf os s" and fd: "fd_view s fildes = Some (nm, off)" and c: "fs_files s nm = Some c"
    and n: "0 < unat nbyte" "off + unat nbyte \<le> nat MAX_FILESIZE" and buf: "unat nbyte \<le> length buf"
    and off: "off \<le> length c"
    and room: "(off + unat nbyte - 1) div BLOCK_SIZE + 1 \<le> file_nblocks s nm + free_blocks s"
  obtains s' where "fs_write os fildes buf nbyte s = Some (int (unat nbyte), s')" "fs_wf os s'"
    "fs_abs s' = spec_write fildes (take (unat nbyte) buf) (fs_abs s)"
proof -
  from wf fd obtain T bm D f k where w:
    "dev_ready os (dsk s)" "super s = Some make_super"
    "Table s = Some T" "used_block_bitmap s = Some bm" "Directory s = Some D"
    "length T = DISK_BLOCKS" "length bm = DISK_BLOCKS" "length D = MAX_NUM_OF_FILES"
    "files_ok T bm D" "names_ok D" "fds_ok D (fd_array s)"
    "0 \<le> fildes" "fildes < int MAX_FILE_DESCRIPTOR" "array_get (fd_array s) fildes = Some f" "fd_used f"
    "fd_offset f = int off" "fd_offset f \<le> MAX_FILESIZE"
    "k < length D" "de_used (D ! k)" "de_inode_number (D ! k) = fd_inode_number f"
    "cstr (de_name (D ! k)) = nm" "dir_of_fd D (fd_array s) fildes = Some (Some k)"
    "fs_files s nm = Some (content (dsk s) T (D ! k))" "length (fd_array s) = MAX_FILE_DESCRIPTOR"
    by (rule fd_viewE)
  note fo = file_okD [OF w(9,18,19)] and ar = write_arith [OF n]
  let ?data = "take (unat nbyte) buf" and ?m = "off + unat nbyte"
  define sz' where "sz' = int (max (nat (de_size (D ! k))) ?m)"
  have data: "?data \<noteq> []" "?m = off + length ?data" using buf n(1) by auto
  have m: "int ?m \<le> MAX_FILESIZE" using n(2) by (metis MAX_FILESIZE_pos le_nat_iff)
  have rm: "(?m - 1) div BLOCK_SIZE + 1 \<le> length (fblocks T (D ! k)) + card (free_set data_start bm)"
    using room w(4) file_nblocks_eq [OF w(3,5,10,18,19)] w(21) by (simp add: free_blocks_def)
  have off': "off \<le> length (content (dsk s) T (D ! k))" using off c w(23) by simp
  obtain T' bm' old new d' where we:
    "alloc_loop data_start ((?m - 1) div BLOCK_SIZE) (de_inode_number (D ! k)) T bm = Some (0, T', bm')"
    "read_all os (dsk s) T' (nat (file_blocks sz')) (de_inode_number (D ! k)) = Some (0, old)"
    "memcpy old off ?data = Some new"
    "write_all os T' (nat (file_blocks sz')) (de_inode_number (D ! k)) new (dsk s) = Some (0, d')"
    "files_ok T' bm' (D[k := (D ! k)\<lparr>de_size := sz'\<rparr>])"
    "length T' = DISK_BLOCKS" "length bm' = DISK_BLOCKS" "dev_ready os d'"
    "content d' T' ((D ! k)\<lparr>de_size := sz'\<rparr>) = splice off ?data (content (dsk s) T (D ! k))"
    "\<And>i. i < length D \<Longrightarrow> i \<noteq> k \<Longrightarrow> de_used (D ! i) \<Longrightarrow> content d' T' (D ! i) = content (dsk s) T (D ! i)"
    using write_entry [OF w(9,6,7,1,18,19) off' data(1) m data(2) rm sz'_def] by blast
  have szeq: "size_of_int (de_size (D ! k)) < size_of_int (int off) + nbyte \<and> sz' = int ?m \<or>
      \<not> size_of_int (de_size (D ! k)) < size_of_int (int off) + nbyte \<and> sz' = de_size (D ! k)"
    unfolding ar(4) [OF fo(4,6)] sz'_def using fo(4) by linarith
  define s1 where "s1 = s\<lparr>Table := Some T', used_block_bitmap := Some bm',
     Directory := Some (D[k := (D ! k)\<lparr>de_size := sz'\<rparr>]), dsk := d'\<rparr>"
  define s' where "s' = s1\<lparr>fd_array := (fd_array s1)[nat fildes := f\<lparr>fd_offset := int ?m\<rparr>]\<rparr>"
  note re = resize_entry [OF wf w(3,4,5,18,19) refl we(5-8,10) s1_def]
  have run: "fs_write os fildes buf nbyte s = Some (int (unat nbyte), s')"
    using szeq
  proof (elim disjE conjE)
    assume "size_of_int (de_size (D ! k)) < size_of_int (int off) + nbyte" "sz' = int ?m"
    then show ?thesis
      using w(2-5,12-16,22) we(1-4) ar(2) buf
      by (simp add: fs_write_def Let_def ar(3,5,6) s'_def s1_def del: of_nat_add)
  next
    assume "\<not> size_of_int (de_size (D ! k)) < size_of_int (int off) + nbyte" "sz' = de_size (D ! k)"
    then show ?thesis
      using w(2-5,12-16,22) we(1-4) ar(2) buf
      by (simp add: fs_write_def Let_def ar(3,5,6) s'_def s1_def del: of_nat_add)
  qed
  have fd1: "fd_view s1 fildes = Some (nm, off)" using re(2) fd by simp
  have f1: "array_get (fd_array s1) fildes = Some f" using w(14) by (simp add: s1_def)
  note mv = fd_move [OF re(1) fd1 f1 _ m s'_def, unfolded nat_int]
  have "fs_abs s' = spec_write fildes ?data (fs_abs s)"
    using mv(2) re(2,3) we(9) fd w(21,23) buf by (simp add: fs_abs_def spec_seek_def spec_write_def)
  with run mv(1) that show ?thesis by simp
qed

text \<open>When the disk has no room the write fails, but the blocks it took stay chained to the file.\<close>

lemma fs_write_full:
  assumes wf: "fs_wf os s" and fd: "fd_view s fildes = Some (nm, off)"
    and w: "w = size_of_int (int off) + nbyte" "\<not> w > size_of_int MAX_FILESIZE"
    and full: "file_nblocks s nm + free_blocks s < unat ((w - 1) div size_of_int (int BLOCK_SIZE)) + 1"
  obtains s' where "fs_write os fildes buf nbyte s = Some (-1, s')" "fs_wf os s'" "fs_abs s' = fs_abs s"
    "free_blocks s' = 0" "file_nblocks s' nm = file_nblocks s nm + free_blocks s"
proof -
  from wf fd obtain T bm D f k where v:
    "dev_ready os (dsk s)" "super s = Some make_super"
    "Table s = Some T" "used_block_bitmap s = Some bm" "Directory s = Some D"
    "length T = DISK_BLOCKS" "length bm = DISK_BLOCKS" "length D = MAX_NUM_OF_FILES"
    "files_ok T bm D" "names_ok D" "fds_ok D (fd_array s)"
    "0 \<le> fildes" "fildes < int MAX_FILE_DESCRIPTOR" "array_get (fd_array s) fildes = Some f" "fd_used f"
    "fd_offset f = int off" "fd_offset f \<le> MAX_FILESIZE"
    "k < length D" "de_used (D ! k)" "de_inode_number (D ! k) = fd_inode_number f"
    "cstr (de_name (D ! k)) = nm" "dir_of_fd D (fd_array s) fildes = Some (Some k)"
    "fs_files s nm = Some (content (dsk s) T (D ! k))" "length (fd_array s) = MAX_FILE_DESCRIPTOR"
    by (rule fd_viewE)
  note fo = file_okD [OF v(9,18,19)]
  let ?bs = "fblocks T (D ! k)" and ?n = "unat ((w - 1) div size_of_int (int BLOCK_SIZE))"
  have nn: "b \<in> set ?bs \<Longrightarrow> bm ! nat b \<noteq> NUL" for b using fo(3) by simp
  have "length ?bs + card (free_set data_start bm) < ?n + 1"
    using full v(4) file_nblocks_eq [OF v(3,5,10,18,19)] v(21) by (simp add: free_blocks_def)
  then obtain T' bm' js where al: "alloc_loop data_start ?n (de_inode_number (D ! k)) T bm = Some (-1, T', bm')"
      "chain T' (de_inode_number (D ! k)) (?bs @ js)" "extends data_start bm T (last ?bs) js T' bm'"
      "length js = card (free_set data_start bm)"
    using alloc_loop_chain [OF data_start_range fo(1,2) v(6,7) nn, of ?n] by (auto split: if_splits)
  have len: "length T' = DISK_BLOCKS" "length bm' = DISK_BLOCKS" using al(3) v(6,7) by (auto simp: extends_def)
  let ?e' = "(D ! k)\<lparr>de_size := de_size (D ! k)\<rparr>"
  define s' where "s' = s\<lparr>Table := Some T', used_block_bitmap := Some bm', Directory := Some (D[k := ?e']), dsk := dsk s\<rparr>"
  have same: "s' = s\<lparr>Table := Some T', used_block_bitmap := Some bm'\<rparr>" using v(5) by (simp add: s'_def)
  have sz: "de_size ?e' \<le> int (length (?bs @ js) * BLOCK_SIZE)"
    using fo(5) by (simp add: distrib_right add_increasing2)
  note ent = extend_entry_ok [OF v(9,6,7,18,19) al(2,3), of ?e', simplified, OF fo(4,6) sz [simplified]]
  have keep: "content (dsk s) T' (D ! i) = content (dsk s) T (D ! i)"
    if "i < length D" "i \<noteq> k" "de_used (D ! i)" for i
    unfolding content_def ent(3) [OF that] ..
  note re = resize_entry [OF wf v(3-5,18,19) refl _ len v(1) keep s'_def]
  have cont: "content (dsk s) T' (D ! k) = content (dsk s) T (D ! k)"
    unfolding content_def ent(2)
    using concat_blk_prefix [of "nat (de_size (D ! k))" "length ?bs" ?bs "dsk s" js] fo(4,5) by (simp add: nat_le_iff)
  have js: "set js = free_set data_start bm"
    using al(3,4) by (intro card_subset_eq) (auto simp: extends_def distinct_card)
  have "free_set data_start bm' = {}"
    using al(3) v(7) data_start_range by (auto simp: extends_def js) (auto simp: free_set_def split: if_splits)
  then have "free_blocks s' = 0" by (simp add: free_blocks_def same)
  moreover have "file_nblocks s' nm = file_nblocks s nm + free_blocks s"
    using ent(2) al(4) v(3-5,10,18,19,21) file_nblocks_eq [of s' T' D k] file_nblocks_eq [OF v(3,5,10,18,19)]
    by (simp add: free_blocks_def same)
  moreover have "fs_write os fildes buf nbyte s = Some (-1, s')"
    using v(2-5,12-16,22) al(1) w by (simp add: fs_write_def same)
  moreover have "fs_wf os s'" "fs_abs s' = fs_abs s"
    using re ent(1) cont v(21,23) by (simp_all add: fs_abs_def fun_upd_idem)
  ultimately show ?thesis using that by blast
qed


section \<open>fs_read\<close>

lemma read_arith:
  assumes "off + unat nbyte \<le> 2 ^ 25" "0 \<le> sz" "sz \<le> MAX_FILESIZE"
  defines "w \<equiv> size_of_int (int off) + nbyte"
  shows "w > size_of_int sz \<longleftrightarrow> nat sz < off + unat nbyte"
    "int_of_size w = int (off + unat nbyte)" "int_of_size nbyte = int (unat nbyte)"
proof -
  have off: "unat (size_of_int (int off)) = off" using assms(1) by simp
  have w: "unat w = off + unat nbyte"
    using unat_add_lem [of "size_of_int (int off)" nbyte] off assms(1) by (simp add: w_def)
  then show "w > size_of_int sz \<longleftrightarrow> nat sz < off + unat nbyte"
    using assms(2,3) by (simp add: word_less_nat_alt MAX_FILESIZE_def)
  show "int_of_size w = int (off + unat nbyte)"
    using int_of_size_small [of w] w assms(1) by (simp del: of_nat_add)
  show "int_of_size nbyte = int (unat nbyte)"
    using int_of_size_small [of nbyte] assms(1) by simp
qed

text \<open>The buffer that \<open>fs_read\<close> fills has a whole number of blocks, at least one: a read that
  stays within it is defined, and delivers the bytes of the file up to its end.\<close>

definition read_room :: "nat \<Rightarrow> nat" where
  "read_room sz = max 1 ((sz + BLOCK_SIZE - 1) div BLOCK_SIZE) * BLOCK_SIZE"

lemma read_room_blocks: "0 \<le> sz \<Longrightarrow> nat (file_blocks sz) * BLOCK_SIZE = read_room (nat sz)"
proof (cases "sz = 0")
  case True
  then show ?thesis by (simp add: file_blocks_zero read_room_def div_less BLOCK_SIZE_pos)
next
  case False
  assume "0 \<le> sz"
  with False have sz: "0 < nat sz" "0 < sz" by auto
  then have "nat sz + BLOCK_SIZE - 1 = (nat sz - 1) + BLOCK_SIZE" by simp
  then have "(nat sz + BLOCK_SIZE - 1) div BLOCK_SIZE = (nat sz - 1) div BLOCK_SIZE + 1"
    by (simp only: div_add_self2 [OF BLOCK_SIZE_pos(2)])
  then show ?thesis using file_blocks_pos [OF sz(2)] by (simp add: read_room_def)
qed

lemma read_room_eq: "nat (file_blocks (int sz)) = max 1 ((sz + BLOCK_SIZE - 1) div BLOCK_SIZE)"
  using read_room_blocks [of "int sz"] BLOCK_SIZE_pos(1) unfolding read_room_def by (simp del: One_nat_def)

lemma read_room_ge: "sz \<le> read_room sz"
proof (cases "sz = 0")
  case False
  then show ?thesis
    using read_room_blocks [of "int sz"] file_blocks_pos [of "int sz"] ceil_blocks [of sz] by simp
qed simp

lemma read_room_le: "read_room sz \<le> sz + BLOCK_SIZE"
proof -
  have "(sz + BLOCK_SIZE - 1) div BLOCK_SIZE * BLOCK_SIZE \<le> sz + BLOCK_SIZE - 1"
    by (rule div_times_less_eq_dividend)
  then have "(sz + BLOCK_SIZE - 1) div BLOCK_SIZE * BLOCK_SIZE \<le> sz + BLOCK_SIZE" by linarith
  then show ?thesis by (simp add: read_room_def max_def)
qed

lemma take_drop_prefix: "take n b = c \<Longrightarrow> take (n - off) (take m (drop off b)) = take m (drop off c)"
  by (auto simp: drop_take min.commute)

lemma read_buffer:
  assumes w: "files_ok T bm D" "length T = DISK_BLOCKS" "dev_ready os d" and k: "k < length D" "de_used (D ! k)"
  obtains bytes where "read_loop os d T (nat (file_blocks (de_size (D ! k)))) (de_inode_number (D ! k)) = Some (0, bytes)"
    "length bytes = read_room (nat (de_size (D ! k)))" "take (nat (de_size (D ! k))) bytes = content d T (D ! k)"
proof -
  note fo = file_okD [OF w(1) k]
  let ?bs = "fblocks T (D ! k)" and ?sz = "nat (de_size (D ! k))" and ?n = "nat (file_blocks (de_size (D ! k)))"
  have sz: "?sz \<le> length ?bs * BLOCK_SIZE" using fo(4,5) by (simp add: nat_le_iff)
  have n: "?n \<le> length ?bs"
  proof (cases "?sz = 0")
    case True
    with fo(2,4) show ?thesis by (cases ?bs) (auto simp: file_blocks_zero)
  next
    case False
    with fo(4) sz show ?thesis using file_blocks_pos [of "de_size (D ! k)"] ceil_blocks_least [of ?sz "length ?bs"] by simp
  qed
  have rr: "?n * BLOCK_SIZE = read_room ?sz" by (rule read_room_blocks [OF fo(4)])
  have "take ?sz (concat (map (blk d) (take ?n ?bs))) = content d T (D ! k)"
    using concat_blk_prefix [of ?sz ?n ?bs d "[]"] rr read_room_ge [of ?sz] sz by (simp add: content_def)
  moreover have "length (concat (map (blk d) (take ?n ?bs))) = read_room ?sz" using n rr by simp
  ultimately show ?thesis using read_loop_chain [OF w(3,2) fo(1,2)] that by blast
qed

lemma fs_read_step:
  assumes wf: "fs_wf os s" and fd: "fd_view s fildes = Some (nm, off)" and c: "fs_files s nm = Some c"
    and n: "0 < unat nbyte" "off + unat nbyte \<le> read_room (length c)" and off: "off \<le> length c"
  obtains s' data where "fs_read os fildes nbyte s = Some (int (length (take (unat nbyte) (drop off c))), data, s')"
    "fs_wf os s'" "fs_abs s' = spec_seek fildes (min (length c) (off + unat nbyte)) (fs_abs s)"
    "length data = unat nbyte" "take (length c - off) data = take (unat nbyte) (drop off c)"
proof -
  from wf fd obtain T bm D f k where v:
    "dev_ready os (dsk s)" "super s = Some make_super"
    "Table s = Some T" "used_block_bitmap s = Some bm" "Directory s = Some D"
    "length T = DISK_BLOCKS" "length bm = DISK_BLOCKS" "length D = MAX_NUM_OF_FILES"
    "files_ok T bm D" "names_ok D" "fds_ok D (fd_array s)"
    "0 \<le> fildes" "fildes < int MAX_FILE_DESCRIPTOR" "array_get (fd_array s) fildes = Some f" "fd_used f"
    "fd_offset f = int off" "fd_offset f \<le> MAX_FILESIZE"
    "k < length D" "de_used (D ! k)" "de_inode_number (D ! k) = fd_inode_number f"
    "cstr (de_name (D ! k)) = nm" "dir_of_fd D (fd_array s) fildes = Some (Some k)"
    "fs_files s nm = Some (content (dsk s) T (D ! k))" "length (fd_array s) = MAX_FILE_DESCRIPTOR"
    by (rule fd_viewE)
  note fo = file_okD [OF v(9,18,19)]
  have cc: "content (dsk s) T (D ! k) = c" using c v(23) by simp
  have len: "length c = nat (de_size (D ! k))" "de_size (D ! k) = int (length c)" "int (length c) \<le> MAX_FILESIZE"
    using c v(23) length_content [of T bm "D ! k"] v(9,18,19) fo(4,6) by (auto simp: files_ok_def)
  obtain bytes where b: "read_loop os (dsk s) T (nat (file_blocks (int (length c)))) (de_inode_number (D ! k)) = Some (0, bytes)"
      "length bytes = read_room (length c)" "take (length c) bytes = c"
    using read_buffer [OF v(9,6,1,18,19), unfolded len(2) nat_int] cc by metis
  have pad: "BLOCK_SIZE * nat (file_blocks (int (length c))) - length bytes = 0"
    using read_room_blocks [of "int (length c)"] b(2) by (simp add: mult.commute)
  let ?data = "take (unat nbyte) (drop off bytes)" and ?last = "min (length c) (off + unat nbyte)"
  have dat: "length ?data = unat nbyte" using n(2) b(2) by simp
  have dat': "take (length c - off) ?data = take (unat nbyte) (drop off c)"
    by (rule take_drop_prefix [OF b(3)])
  have small: "off + unat nbyte \<le> 2 ^ 25" "int (length c) \<le> MAX_FILESIZE"
    using n(2) read_room_le [of "length c"] len(3) by (simp_all add: MAX_FILESIZE_def BLOCK_SIZE_def)
  note ar = read_arith [OF small(1) _ small(2), simplified nat_int]
  define s' where "s' = s\<lparr>fd_array := (fd_array s)[nat fildes := f\<lparr>fd_offset := int ?last\<rparr>]\<rparr>"
  have le: "int ?last \<le> MAX_FILESIZE" using small(2) by linarith
  have nz: "\<not> nbyte \<le> 0" using n(1) by (simp add: word_le_nat_alt)
  have "fs_read os fildes nbyte s = Some (int (length (take (unat nbyte) (drop off c))), ?data, s')"
  proof (cases "length c < off + unat nbyte")
    case True
    then have "int (length (take (unat nbyte) (drop off c))) = int (length c) - int off" "?last = length c"
      using off by auto
    with True v(3,5,12-16,22) b(1,2) pad n(2) nz len(2) ar(1) show ?thesis
      by (simp add: fs_read_def Let_def s'_def)
  next
    case False
    then have "int (length (take (unat nbyte) (drop off c))) = int (unat nbyte)" "?last = off + unat nbyte"
      by auto
    with False v(3,5,12-16,22) b(1,2) pad n(2) nz len(2) ar show ?thesis
      by (simp add: fs_read_def Let_def s'_def del: of_nat_add)
  qed
  with fd_move [OF wf fd v(14) _ le s'_def, unfolded nat_int] dat dat' that show ?thesis by simp
qed

text \<open>A longer read copies bytes from beyond the end of the allocated buffer.\<close>

lemma fs_read_overrun:
  assumes wf: "fs_wf os s" and fd: "fd_view s fildes = Some (nm, off)" and c: "fs_files s nm = Some c"
    and n: "0 < unat nbyte" "off + unat nbyte > read_room (length c)"
  shows "fs_read os fildes nbyte s = None"
proof -
  from wf fd obtain T bm D f k where v:
    "dev_ready os (dsk s)" "super s = Some make_super"
    "Table s = Some T" "used_block_bitmap s = Some bm" "Directory s = Some D"
    "length T = DISK_BLOCKS" "length bm = DISK_BLOCKS" "length D = MAX_NUM_OF_FILES"
    "files_ok T bm D" "names_ok D" "fds_ok D (fd_array s)"
    "0 \<le> fildes" "fildes < int MAX_FILE_DESCRIPTOR" "array_get (fd_array s) fildes = Some f" "fd_used f"
    "fd_offset f = int off" "fd_offset f \<le> MAX_FILESIZE"
    "k < length D" "de_used (D ! k)" "de_inode_number (D ! k) = fd_inode_number f"
    "cstr (de_name (D ! k)) = nm" "dir_of_fd D (fd_array s) fildes = Some (Some k)"
    "fs_files s nm = Some (content (dsk s) T (D ! k))" "length (fd_array s) = MAX_FILE_DESCRIPTOR"
    by (rule fd_viewE)
  note fo = file_okD [OF v(9,18,19)]
  have len: "de_size (D ! k) = int (length c)"
    using c v(23) length_content [of T bm "D ! k"] v(9,18,19) fo(4) by (auto simp: files_ok_def)
  obtain bytes where b: "read_loop os (dsk s) T (nat (file_blocks (int (length c)))) (de_inode_number (D ! k)) = Some (0, bytes)"
      "length bytes = read_room (length c)"
    using read_buffer [OF v(9,6,1,18,19)] len by auto
  have "BLOCK_SIZE * nat (file_blocks (int (length c))) - length bytes = 0"
    using read_room_blocks [of "int (length c)"] b(2) by (simp add: mult.commute)
  moreover have "\<not> nbyte \<le> 0" using n(1) by (simp add: word_le_nat_alt)
  ultimately show ?thesis using v(3,5,12-16,22) b n(2) len by (simp add: fs_read_def Let_def)
qed


section \<open>fs_truncate\<close>

lemma chain_truncate:
  assumes "chain T i bs" "n < length bs"
  shows "chain ((upd_at (set (drop n bs)) free_inode T)[nat (bs ! n) := t\<lparr>next_direct_offset := -1\<rparr>]) i (take (Suc n) bs)"
  using assms
proof (induction n arbitrary: i bs)
  case 0
  then show ?case by (cases bs) auto
next
  case (Suc n)
  then obtain cs where bs: "bs = i # cs" and i: "0 \<le> i" "i < int (length T)"
      and c: "chain T (next_direct_offset (T ! nat i)) cs" and n: "n < length cs"
    by (cases bs) auto
  have "i \<notin> set cs" using chain_distinct [OF Suc.prems(1)] by (simp add: bs)
  then have ni: "i \<notin> set (drop n cs)" "cs ! n \<noteq> i" using n by (auto dest: in_set_dropD)
  have "0 \<le> cs ! n" using chain_range [OF c, of "cs ! n"] n by simp
  with ni i have "(upd_at (set (drop n cs)) free_inode T)[nat (cs ! n) := t\<lparr>next_direct_offset := -1\<rparr>] ! nat i = T ! nat i"
    by (auto simp: nth_list_update)
  with Suc.IH [OF c n] i show ?case by (simp add: bs)
qed

lemma file_blocks_le:
  assumes "bs \<noteq> []" "sz \<le> length bs * BLOCK_SIZE"
  shows "nat (file_blocks (int sz)) \<le> length bs" "0 < nat (file_blocks (int sz))"
    "nat (file_blocks (int sz)) = Suc (nat ((int sz - 1) sdiv int BLOCK_SIZE))"
proof -
  have "nat (file_blocks (int sz)) \<le> length bs \<and> 0 < nat (file_blocks (int sz))"
  proof (cases "sz = 0")
    case True
    with assms(1) show ?thesis by (cases bs) (auto simp: file_blocks_zero)
  next
    case False
    with assms(2) show ?thesis using file_blocks_pos [of "int sz"] ceil_blocks_least [of sz "length bs"] by simp
  qed
  then show "nat (file_blocks (int sz)) \<le> length bs" "0 < nat (file_blocks (int sz))" by auto
  then show "nat (file_blocks (int sz)) = Suc (nat ((int sz - 1) sdiv int BLOCK_SIZE))"
    unfolding file_blocks_def by linarith
qed

lemma truncate_entry:
  assumes w: "files_ok T bm D" "length T = DISK_BLOCKS" and k: "k < length D" "de_used (D ! k)"
    and len: "int len \<le> de_size (D ! k)"
  defines "bs \<equiv> fblocks T (D ! k)" and "n \<equiv> nat ((int len - 1) sdiv int BLOCK_SIZE)"
    and "e' \<equiv> (D ! k)\<lparr>de_size := int len\<rparr>"
  defines "T' \<equiv> upd_at (set (drop n bs)) free_inode T"
  defines "T'' \<equiv> T'[nat (bs ! n) := (T' ! nat (bs ! n))\<lparr>next_direct_offset := -1\<rparr>]"
  shows "n < length bs" "files_ok T'' bm (D[k := e'])" "fblocks T'' e' = take (Suc n) bs" "len \<le> Suc n * BLOCK_SIZE"
    "\<And>i. i < length D \<Longrightarrow> i \<noteq> k \<Longrightarrow> de_used (D ! i) \<Longrightarrow> fblocks T'' (D ! i) = fblocks T (D ! i)"
proof -
  note fo = file_okD [OF w(1) k]
  have "len \<le> length bs * BLOCK_SIZE"
    using len fo(5) unfolding bs_def by linarith
  note fb = file_blocks_le [OF fo(2) this [unfolded bs_def], folded bs_def n_def]
  from fb show n: "n < length bs" by simp
  show room: "len \<le> Suc n * BLOCK_SIZE"
    using read_room_blocks [of "int len"] read_room_ge [of len] fb(3) by simp
  have c: "chain T'' (de_inode_number e') (take (Suc n) bs)"
    unfolding T''_def T'_def using chain_truncate [OF fo(1), folded bs_def, OF n] by (simp add: e'_def)
  show fe: "fblocks T'' e' = take (Suc n) bs" using blocks_eq [OF c] by (simp only: fblocks_def)
  have lT: "length T'' = length T" by (simp add: T''_def T'_def)
  have bn: "bs ! n \<in> set bs" "0 \<le> bs ! n" using n chain_range [OF fo(1), folded bs_def, of "bs ! n"] by auto
  have new: "file_ok T'' bm e'"
    unfolding file_ok_def fe
    using c n room fo(3) [folded bs_def] fo(6) len bn(1)
    by (auto simp: e'_def dest: in_set_takeD simp del: of_nat_mult of_nat_Suc mult_Suc)
  have dj: "set (fblocks T'' e') \<inter> set (fblocks T (D ! i)) = {}" if i: "i < length D" "i \<noteq> k" "de_used (D ! i)" for i
    using files_ok_disj [OF w(1) k(1) i(1) i(2) [symmetric] k(2) i(3)] set_take_subset [of "Suc n" bs]
    unfolding fe bs_def by blast
  have keep: "keeps_file T T'' bm (D ! i)" if i: "i < length D" "i \<noteq> k" "de_used (D ! i)" for i
    unfolding keeps_file_def
  proof
    fix b
    assume b: "b \<in> set (fblocks T (D ! i))"
    have r: "0 \<le> b" "nat b < length T" using chain_range [OF file_okD(1) [OF w(1) i(1,3)] b] by auto
    have "b \<notin> set bs" using files_ok_disj [OF w(1) i(1) k(1) i(2,3) k(2)] b by (auto simp: bs_def)
    then have "b \<notin> set (drop n bs)" "b \<noteq> bs ! n" using bn(1) by (auto dest: in_set_dropD)
    with r bn have "T'' ! nat b = T ! nat b" by (simp add: T''_def T'_def nth_list_update nat_eq_iff)
    with file_okD(3) [OF w(1) i(1,3) b]
    show "next_direct_offset (T'' ! nat b) = next_direct_offset (T ! nat b) \<and> bm ! nat b \<noteq> NUL" by simp
  qed
  show "files_ok T'' bm (D[k := e'])" by (rule files_ok_update(1) [OF w(1) k(1) lT keep new dj])
  show "fblocks T'' (D ! i) = fblocks T (D ! i)" if "i < length D" "i \<noteq> k" "de_used (D ! i)" for i
    by (rule files_ok_update(2) [OF w(1) k(1) lT keep new dj that])
qed

lemma fs_truncate_step:
  assumes wf: "fs_wf os s" and fd: "fd_view s fildes = Some (nm, off)" and c: "fs_files s nm = Some c"
    and len: "len \<le> length c"
  obtains s' where "fs_truncate fildes (int len) s = Some (0, s')" "fs_wf os s'"
    "fs_abs s' = spec_truncate fildes len (fs_abs s)" "free_blocks s' = free_blocks s"
    "file_nblocks s' nm = max 1 ((len + BLOCK_SIZE - 1) div BLOCK_SIZE)"
proof -
  from wf fd obtain T bm D f k where v:
    "dev_ready os (dsk s)" "super s = Some make_super"
    "Table s = Some T" "used_block_bitmap s = Some bm" "Directory s = Some D"
    "length T = DISK_BLOCKS" "length bm = DISK_BLOCKS" "length D = MAX_NUM_OF_FILES"
    "files_ok T bm D" "names_ok D" "fds_ok D (fd_array s)"
    "0 \<le> fildes" "fildes < int MAX_FILE_DESCRIPTOR" "array_get (fd_array s) fildes = Some f" "fd_used f"
    "fd_offset f = int off" "fd_offset f \<le> MAX_FILESIZE"
    "k < length D" "de_used (D ! k)" "de_inode_number (D ! k) = fd_inode_number f"
    "cstr (de_name (D ! k)) = nm" "dir_of_fd D (fd_array s) fildes = Some (Some k)"
    "fs_files s nm = Some (content (dsk s) T (D ! k))" "length (fd_array s) = MAX_FILE_DESCRIPTOR"
    by (rule fd_viewE)
  note fo = file_okD [OF v(9,18,19)]
  have "length c = nat (de_size (D ! k))"
    using c v(23) length_content [of T bm "D ! k"] v(9,18,19) by (auto simp: files_ok_def)
  with len fo(4) have le: "int len \<le> de_size (D ! k)" by linarith
  define bs where "bs = fblocks T (D ! k)"
  define n where "n = nat ((int len - 1) sdiv int BLOCK_SIZE)"
  define T' where "T' = upd_at (set (drop n bs)) free_inode T"
  define T'' where "T'' = T'[nat (bs ! n) := (T' ! nat (bs ! n))\<lparr>next_direct_offset := -1\<rparr>]"
  let ?e' = "(D ! k)\<lparr>de_size := int len\<rparr>"
  note tr = truncate_entry [OF v(9,6,18,19) le, folded bs_def n_def, folded T'_def, folded T''_def]
  have lT: "length T'' = DISK_BLOCKS" using v(6) by (simp add: T''_def T'_def)
  have ch: "chain T (bs ! n) (drop n bs)"
    using chain_suffix [of T "de_inode_number (D ! k)" "take n bs" "bs ! n" "drop (Suc n) bs"] fo(1) tr(1)
    by (simp add: bs_def [symmetric] Cons_nth_drop_Suc id_take_nth_drop [symmetric])
  have bn: "0 \<le> bs ! n" "bs ! n < int (length T')"
    using chain_range [OF fo(1), folded bs_def, of "bs ! n"] tr(1) by (auto simp: T'_def)
  define s' where "s' = s\<lparr>Table := Some T'', used_block_bitmap := Some bm, Directory := Some (D[k := ?e']), dsk := dsk s\<rparr>"
  have keep: "content (dsk s) T'' (D ! i) = content (dsk s) T (D ! i)"
    if "i < length D" "i \<noteq> k" "de_used (D ! i)" for i
    unfolding content_def tr(5) [OF that] ..
  note re = resize_entry [OF wf v(3-5,18,19) refl tr(2) lT v(7,1) keep s'_def]
  have "int_of_off (int len) = int len"
    by (rule int_of_off_small) (use le fo(6) in \<open>auto simp: MAX_FILESIZE_def\<close>)
  then have run: "fs_truncate fildes (int len) s = Some (0, s')"
    using v(3-5,12-16,22) le skip_loop_chain [OF fo(1), folded bs_def, OF tr(1)] trunc_loop_chain [OF ch] bn
    by (simp add: fs_truncate_def n_def [symmetric] T'_def [symmetric] array_get_in array_set_in T''_def s'_def)
  have lb: "len \<le> length bs * BLOCK_SIZE"
    using tr(1,4) mult_le_mono1 [of "Suc n" "length bs" BLOCK_SIZE] by linarith
  have cont: "content (dsk s) T'' ?e' = take len c"
    using c v(23) le concat_blk_prefix [OF tr(4) lb, of "dsk s" "[]"]
    unfolding content_def tr(3) by (auto simp: bs_def [symmetric] min_def nat_le_iff)
  have "fs_abs s' = spec_truncate fildes len (fs_abs s)"
    using re(2,3) cont fd v(21) c by (simp add: fs_abs_def spec_truncate_def)
  moreover have "free_blocks s' = free_blocks s" using v(4) by (simp add: free_blocks_def s'_def)
  moreover have "file_nblocks s' nm = max 1 ((len + BLOCK_SIZE - 1) div BLOCK_SIZE)"
  proof -
    have nk: "names_ok (D[k := ?e'])" using re(1) by (auto simp: s'_def elim: fs_wfE)
    have s'D: "Table s' = Some T''" "Directory s' = Some (D[k := ?e'])" by (simp_all add: s'_def)
    have "file_nblocks s' nm = Suc n"
      using file_nblocks_eq [OF s'D nk, of k] v(18,19,21) tr(1,3) by simp
    then show ?thesis using read_room_eq [of len] file_blocks_le(3) [OF fo(2) lb [unfolded bs_def]] by (simp add: n_def)
  qed
  ultimately show ?thesis using run re(1) that by blast
qed

end
