(* ===== verification/FS_Mount.thy ===== *)
theory FS_Mount
  imports FS_IO
begin

text \<open>
  Formatting, mounting and unmounting: what \<open>make_fs\<close> leaves on the disk, what \<open>mount_fs\<close>
  reads back from it, and what survives \<open>umount_fs\<close> followed by \<open>mount_fs\<close>.
\<close>

section \<open>Closing and reopening the disk\<close>

lemma reopen_disk:
  assumes "dev_ready os d"
  obtains d1 where "close_disk d = (0, d1)" "open_disk os (Some (handle d)) d1 = (0, d)" "\<not> active d1"
proof -
  let ?d1 = "d\<lparr>active := False, handle := []\<rparr>"
  have "close_disk d = (0, ?d1)"
    using assms by (simp add: close_disk_def dev_ready_def disk_open_def)
  moreover have "open_disk os (Some (handle d)) ?d1 = (0, d)"
    using assms by (auto simp: open_disk_def dev_ready_def disk_open_def os_reliable_def)
  ultimately show ?thesis using that by simp
qed

lemma block_write_handle [simp]: "handle (snd (block_write os b buf d)) = handle d"
  by (simp add: block_write_def)

text \<open>One block is written: the form in which \<open>make_fs\<close> and \<open>umount_fs\<close> use the device.\<close>

lemma write_one:
  assumes d: "dev_ready os d" and b: "0 \<le> b" "b < int DISK_BLOCKS" and buf: "length buf = BLOCK_SIZE"
  obtains d' where "block_write os b buf d = (0, d')" "dev_ready os d'" "handle d' = handle d" "blk d' b = buf"
    "\<And>c. 0 \<le> c \<Longrightarrow> c < int DISK_BLOCKS \<Longrightarrow> c \<noteq> b \<Longrightarrow> blk d' c = blk d c"
proof -
  let ?d' = "snd (block_write os b buf d)"
  have "block_write os b buf d = (0, ?d')" using block_write_ready [OF d b] by simp
  with that block_write_dev_ready [OF d b buf] block_write_blk [OF d b buf] b show ?thesis by simp
qed


section \<open>Tables in pieces\<close>

lemma concat_chunks: "length xs = n * w \<Longrightarrow> concat (map (\<lambda>k. chunk w k xs) [i..<n]) = drop (i * w) xs"
proof (induction "n - i" arbitrary: i)
  case 0
  then have "n * w \<le> i * w" by simp
  with 0 show ?case by simp
next
  case (Suc m)
  then have i: "i < n" by simp
  then have "concat (map (\<lambda>k. chunk w k xs) [i..<n]) = chunk w i xs @ concat (map (\<lambda>k. chunk w k xs) [Suc i..<n])"
    by (simp add: upt_conv_Cons)
  also have "\<dots> = take w (drop (i * w) xs) @ drop (w + i * w) xs"
    using Suc.hyps(1) [of "Suc i"] Suc.hyps(2) Suc.prems by (simp add: chunk_def mult.commute)
  also have "\<dots> = drop (i * w) xs"
    by (metis append_take_drop_id drop_drop)
  finally show ?case .
qed

lemma inodes_per_block_eq: "inodes_per_block = 512" "i * BLOCK_SIZE div sizeof_Inode = i * inodes_per_block"
  "inodes_per_block * sizeof_Inode = BLOCK_SIZE" "DISK_BLOCKS = 16 * inodes_per_block"
  by (simp_all add: inodes_per_block_def sizeof_defs)

definition inode_block :: "Inode list \<Rightarrow> nat \<Rightarrow> byte list" where
  "inode_block T i = concat (map enc_inode (chunk inodes_per_block i T))"

lemma length_inode_block:
  "Suc i * inodes_per_block \<le> length T \<Longrightarrow> length (inode_block T i) = BLOCK_SIZE"
  by (simp add: inode_block_def length_concat_map_const [where w = sizeof_Inode] chunk_def
      inodes_per_block_eq(3) [symmetric] mult.commute)

lemma umount_inodes_ok:
  assumes T: "length T = DISK_BLOCKS" and off: "0 \<le> off" "off + 16 \<le> int DISK_BLOCKS"
  shows "dev_ready os d \<Longrightarrow> i + n \<le> 16 \<Longrightarrow>
     \<exists>d'. umount_inodes os T off i n d = Some (0, d') \<and> dev_ready os d' \<and> handle d' = handle d \<and>
       (\<forall>j. i \<le> j \<and> j < i + n \<longrightarrow> blk d' (off + int j) = inode_block T j) \<and>
       (\<forall>c. 0 \<le> c \<and> c < int DISK_BLOCKS \<and> \<not> (off + int i \<le> c \<and> c < off + int (i + n)) \<longrightarrow> blk d' c = blk d c)"
proof (induction n arbitrary: i d)
  case 0
  then show ?case by auto
next
  case (Suc n)
  have "Suc i * inodes_per_block \<le> 16 * inodes_per_block" using Suc.prems(2) by (intro mult_le_mono1) simp
  then have le: "Suc i * inodes_per_block \<le> length T" by (simp add: T inodes_per_block_eq(4))
  have r: "0 \<le> off + int i" "off + int i < int DISK_BLOCKS" using off Suc.prems(2) by auto
  obtain d1 where d1: "block_write os (off + int i) (inode_block T i) d = (0, d1)" "dev_ready os d1"
      "handle d1 = handle d" "blk d1 (off + int i) = inode_block T i"
      "\<And>c. 0 \<le> c \<Longrightarrow> c < int DISK_BLOCKS \<Longrightarrow> c \<noteq> off + int i \<Longrightarrow> blk d1 c = blk d c"
    using write_one [OF Suc.prems(1) r length_inode_block [OF le]] by blast
  obtain d' where d': "umount_inodes os T off (Suc i) n d1 = Some (0, d')" "dev_ready os d'" "handle d' = handle d1"
      "\<And>j. Suc i \<le> j \<Longrightarrow> j < Suc i + n \<Longrightarrow> blk d' (off + int j) = inode_block T j"
      "\<And>c. 0 \<le> c \<Longrightarrow> c < int DISK_BLOCKS \<Longrightarrow> \<not> (off + int (Suc i) \<le> c \<and> c < off + int (Suc i + n)) \<Longrightarrow> blk d' c = blk d1 c"
    using Suc.IH [OF d1(2), of "Suc i"] Suc.prems(2) by auto
  have "umount_inodes os T off i (Suc n) d = Some (0, d')"
    unfolding umount_inodes.simps inodes_per_block_eq(2) Let_def
    using le d1(1) d'(1) by (simp add: inode_block_def chunk_def mult.commute add.commute)
  moreover have "blk d' (off + int j) = inode_block T j" if "i \<le> j" "j < i + Suc n" for j
    using d'(4) [of j] d'(5) [of "off + int i"] d1(4) r that by (cases "j = i") auto
  moreover have "blk d' c = blk d c"
    if "0 \<le> c" "c < int DISK_BLOCKS" "\<not> (off + int i \<le> c \<and> c < off + int (i + Suc n))" for c
    using d'(5) [of c] d1(5) [of c] that by auto
  ultimately show ?case using d'(2,3) d1(3) by auto
qed

lemma mount_inodes_ok:
  assumes d: "dev_ready os d" and off: "0 \<le> off" "off + 16 \<le> int DISK_BLOCKS"
  shows "i + n \<le> 16 \<Longrightarrow> length T = DISK_BLOCKS \<Longrightarrow> length buf = BLOCK_SIZE \<Longrightarrow>
     \<exists>buf'. mount_inodes os d off i n T buf =
       Some (0, take (i * inodes_per_block) T
          @ concat (map (\<lambda>j. decode_array sizeof_Inode dec_inode inodes_per_block (blk d (off + int j))) [i..<i + n])
          @ drop ((i + n) * inodes_per_block) T, buf') \<and> length buf' = BLOCK_SIZE"
proof (induction n arbitrary: i T buf)
  case 0
  then show ?case by simp
next
  case (Suc n)
  let ?dec = "\<lambda>j. decode_array sizeof_Inode dec_inode inodes_per_block (blk d (off + int j))"
  have "Suc i * inodes_per_block \<le> 16 * inodes_per_block" using Suc.prems(1) by (intro mult_le_mono1) simp
  then have le: "i * inodes_per_block + inodes_per_block \<le> length T"
    by (simp add: Suc.prems(2) inodes_per_block_eq(4))
  have r: "0 \<le> off + int i" "off + int i < int DISK_BLOCKS" using off Suc.prems(1) by auto
  let ?T = "take (i * inodes_per_block) T @ ?dec i @ drop (i * inodes_per_block + inodes_per_block) T"
  have rd: "block_read os (off + int i) buf d = (0, blk d (off + int i))"
    by (rule block_read_ready [OF d r Suc.prems(3)])
  have len: "length ?T = DISK_BLOCKS" using le Suc.prems(2) by simp
  obtain buf' where b: "mount_inodes os d off (Suc i) n ?T (blk d (off + int i)) =
       Some (0, take (Suc i * inodes_per_block) ?T @ concat (map ?dec [Suc i..<Suc i + n])
          @ drop ((Suc i + n) * inodes_per_block) ?T, buf')" "length buf' = BLOCK_SIZE"
    using Suc.IH [OF _ len, of "Suc i" "blk d (off + int i)"] Suc.prems(1) by auto
  have t: "take (Suc i * inodes_per_block) ?T = take (i * inodes_per_block) T @ ?dec i"
    using le by simp
  have "drop ((Suc i + n) * inodes_per_block) ?T = drop ((i + Suc n) * inodes_per_block) T"
    using le by (simp add: algebra_simps)
  with b t rd le show ?case
    by (simp add: put_inodes_def inodes_per_block_eq(2) Let_def upt_conv_Cons del: upt_Suc)
qed


section \<open>Unmounting\<close>

lemma make_super_eq: "make_super = \<lparr>used_block_bitmap_count = 2, used_block_bitmap_offset = 2,
    inode_metadata_blocks = 16, inode_metadata_offset = 4, d_offset = 1, d_length = 1, data_offset = 20\<rparr>"
  by (simp add: make_super_def Let_def sizeof_defs)

lemma make_super_sel:
  "used_block_bitmap_count make_super = 2" "used_block_bitmap_offset make_super = 2"
  "inode_metadata_blocks make_super = 16" "inode_metadata_offset make_super = 4" "d_offset make_super = 1"
  by (simp_all add: make_super_eq)

lemma make_super_rep: "super_rep make_super"
  by (simp add: super_rep_def make_super_eq int32_def)

definition super_block :: "Superblock \<Rightarrow> byte list" where
  "super_block sb = enc_super sb @ replicate (BLOCK_SIZE - sizeof_Superblock) NUL"

text \<open>The disk holds the structures of a mounted file system.\<close>

definition persisted :: "disk \<Rightarrow> Inode list \<Rightarrow> Directory_Entry list \<Rightarrow> bool" where
  "persisted d T D \<longleftrightarrow>
     take sizeof_Superblock (blk d 0) = enc_super make_super \<and>
     take (sizeof_Directory_Entry * length D) (blk d 1) = concat (map enc_dirent D) \<and>
     (\<forall>j<16. blk d (4 + int j) = inode_block T j)"

lemma length_dirents:
  assumes "\<forall>e\<in>set D. dirent_rep e"
  shows "length (concat (map enc_dirent D)) = sizeof_Directory_Entry * length D"
  using assms by (intro length_concat_map_const) (simp add: length_enc_dirent)

lemma umount_fs_ok:
  assumes wf: "fs_wf os s" and rep: "fs_rep s" and T: "Table s = Some T" and D: "Directory s = Some D"
  obtains d where "umount_fs os (Some nm) s =
       Some (0, s\<lparr>dsk := snd (close_disk d), fd_array := map clear_fd (fd_array s), mounted := False\<rparr>)"
    "dev_ready os d" "handle d = handle (dsk s)" "persisted d T D"
    "\<And>b. data_start \<le> b \<Longrightarrow> b < int DISK_BLOCKS \<Longrightarrow> blk d b = blk (dsk s) b"
proof -
  from wf T D have w: "mounted s" "dev_ready os (dsk s)" "super s = Some make_super"
    "length T = DISK_BLOCKS" "length D = MAX_NUM_OF_FILES" by (auto elim!: fs_wfE)
  have lD: "length (concat (map enc_dirent D)) = 2048"
    using length_dirents [of D] rep D w(5) by (simp add: fs_rep_def sizeof_defs)
  define b1 where "b1 = super_block make_super"
  define b2 where "b2 = concat (map enc_dirent D) @ drop 2048 b1"
  have b1: "memcpy zero_block 0 (enc_super make_super) = Some b1" "length b1 = BLOCK_SIZE"
    by (simp_all add: memcpy_def zero_block_def b1_def super_block_def sizeof_defs)
  have b2: "memcpy b1 0 (concat (map enc_dirent D)) = Some b2" "length b2 = BLOCK_SIZE"
    using b1(2) lD by (simp_all add: memcpy_def b2_def BLOCK_SIZE_def)
  have rng: "(0::int) < int DISK_BLOCKS" "(1::int) < int DISK_BLOCKS" "4 + 16 \<le> int DISK_BLOCKS"
    by (simp_all add: DISK_BLOCKS_def)
  obtain d1 where d1: "block_write os 0 b1 (dsk s) = (0, d1)" "dev_ready os d1" "handle d1 = handle (dsk s)"
      "blk d1 0 = b1" "\<And>c. 0 \<le> c \<Longrightarrow> c < int DISK_BLOCKS \<Longrightarrow> c \<noteq> 0 \<Longrightarrow> blk d1 c = blk (dsk s) c"
    using write_one [OF w(2) order.refl rng(1) b1(2)] by blast
  obtain d2 where d2: "block_write os 1 b2 d1 = (0, d2)" "dev_ready os d2" "handle d2 = handle d1"
      "blk d2 1 = b2" "\<And>c. 0 \<le> c \<Longrightarrow> c < int DISK_BLOCKS \<Longrightarrow> c \<noteq> 1 \<Longrightarrow> blk d2 c = blk d1 c"
    using write_one [OF d1(2) zero_le_one rng(2) b2(2)] by blast
  obtain d3 where d3: "umount_inodes os T 4 0 16 d2 = Some (0, d3)" "dev_ready os d3" "handle d3 = handle d2"
      "\<And>j. j < 16 \<Longrightarrow> blk d3 (4 + int j) = inode_block T j"
      "\<And>c. 0 \<le> c \<Longrightarrow> c < int DISK_BLOCKS \<Longrightarrow> \<not> (4 \<le> c \<and> c < 20) \<Longrightarrow> blk d3 c = blk d2 c"
    using umount_inodes_ok [OF w(4) _ rng(3) d2(2), of 0 16] by auto
  obtain d4 where d4: "close_disk d3 = (0, d4)" using reopen_disk [OF d3(2)] by blast
  then have "umount_fs os (Some nm) s =
      Some (0, s\<lparr>dsk := snd (close_disk d3), fd_array := map clear_fd (fd_array s), mounted := False\<rparr>)"
    using w(1,3) T D b1 b2 d1(1) d2(1) d3(1) by (simp add: umount_fs_def Let_def make_super_sel)
  moreover have "blk d3 0 = b1" "blk d3 1 = b2"
    using d3(5) [of 0] d3(5) [of 1] d2(4) d2(5) [of 0] d1(4) rng by simp_all
  then have "persisted d3 T D"
    using d3(4) lD w(5) by (simp add: persisted_def b1_def b2_def super_block_def sizeof_defs)
  moreover have "blk d3 b = blk (dsk s) b" if "data_start \<le> b" "b < int DISK_BLOCKS" for b
    using that d3(5) [of b] d2(5) [of b] d1(5) [of b] by (simp add: data_start_eq)
  ultimately show ?thesis using that d3(2,3) d2(3) d1(3) by simp
qed


section \<open>Mounting\<close>

text \<open>The entries of the directory that \<open>mount_fs\<close> reads.\<close>

definition mounted_entries :: nat where
  "mounted_entries = sizeof_pointer * MAX_NUM_OF_FILES div sizeof_Directory_Entry"

lemma mounted_entries_eq: "mounted_entries = 16"
  by (simp add: mounted_entries_def sizeof_defs)

lemma mount_dir_ok:
  assumes "\<forall>e\<in>set D. dirent_rep e" "length D = MAX_NUM_OF_FILES"
    "take (sizeof_Directory_Entry * length D) buf = concat (map enc_dirent D)"
  shows "mount_dir buf = take mounted_entries D @ replicate (MAX_NUM_OF_FILES - mounted_entries) zero_dirent"
proof -
  have le: "mounted_entries \<le> length D" by (simp add: assms(2) mounted_entries_eq MAX_NUM_OF_FILES_def)
  have "decode_array sizeof_Directory_Entry dec_dirent mounted_entries
      (concat (map enc_dirent D) @ drop (sizeof_Directory_Entry * length D) buf) = take mounted_entries D"
    by (rule decode_array_concat) (use assms(1) le in \<open>auto simp: length_enc_dirent dec_enc_dirent\<close>)
  then have "decode_array sizeof_Directory_Entry dec_dirent mounted_entries buf = take mounted_entries D"
    by (simp only: assms(3) [symmetric] append_take_drop_id)
  then show ?thesis by (simp add: mount_dir_def Let_def mounted_entries_def)
qed

lemma mount_table_ok:
  assumes T: "length T = DISK_BLOCKS" "\<forall>n\<in>set T. inode_rep n"
    and d: "\<And>j. j < 16 \<Longrightarrow> blk d (4 + int j) = inode_block T j"
  shows "concat (map (\<lambda>j. decode_array sizeof_Inode dec_inode inodes_per_block (blk d (4 + int j))) [0..<16]) = T"
proof -
  have "decode_array sizeof_Inode dec_inode inodes_per_block (blk d (4 + int j)) = chunk inodes_per_block j T"
    if j: "j < 16" for j
  proof -
    have len: "length (chunk inodes_per_block j T) = inodes_per_block"
      using j by (simp add: chunk_def T(1) inodes_per_block_eq(1) DISK_BLOCKS_def)
    have "dec_inode (enc_inode x) = x" if "x \<in> set (chunk inodes_per_block j T)" for x
      using that T(2) by (auto simp: chunk_def intro!: dec_enc_inode dest: in_set_takeD in_set_dropD)
    then show ?thesis
      using decode_array_concat [of "chunk inodes_per_block j T" enc_inode sizeof_Inode dec_inode inodes_per_block "[]"]
        d [OF j] len by (simp add: inode_block_def)
  qed
  then have "map (\<lambda>j. decode_array sizeof_Inode dec_inode inodes_per_block (blk d (4 + int j))) [0..<16]
      = map (\<lambda>j. chunk inodes_per_block j T) [0..<16]"
    by (intro map_cong) simp_all
  with concat_chunks [of T 16 inodes_per_block 0] T(1) show ?thesis by (simp only: inodes_per_block_eq(4)) simp
qed

lemma mount_fs_ok:
  assumes d: "open_disk os (Some nm) (dsk s) = (0, d)" "dev_ready os d" "\<not> mounted s"
    and T: "length T = DISK_BLOCKS" "\<forall>n\<in>set T. inode_rep n"
    and D: "length D = MAX_NUM_OF_FILES" "\<forall>e\<in>set D. dirent_rep e"
    and p: "persisted d T D" and junk: "length junk = DISK_BLOCKS"
  shows "mount_fs os junk (Some nm) s = Some (0, s\<lparr>super := Some make_super, Table := Some T,
     used_block_bitmap := Some (take 2 (blk d 2) @ drop 2 junk),
     fd_array := map (\<lambda>f. f\<lparr>fd_used := False\<rparr>) (fd_array s),
     Directory := Some (take mounted_entries D @ replicate (MAX_NUM_OF_FILES - mounted_entries) zero_dirent),
     mounted := True, dsk := d\<rparr>)"
proof -
  have rng: "(0::int) < int DISK_BLOCKS" "(1::int) < int DISK_BLOCKS" "(2::int) < int DISK_BLOCKS" "4 + 16 \<le> int DISK_BLOCKS"
    by (simp_all add: DISK_BLOCKS_def)
  have rd: "block_read os b buf d = (0, blk d b)" if "0 \<le> b" "b < int DISK_BLOCKS" "length buf = BLOCK_SIZE" for b buf
    by (rule block_read_ready [OF d(2) that])
  have "blk d 0 = enc_super make_super @ drop sizeof_Superblock (blk d 0)"
    using p by (metis persisted_def append_take_drop_id)
  then have sb: "dec_super (blk d 0) = make_super" by (metis dec_enc_super make_super_rep)
  have dir: "mount_dir (blk d 1) = take mounted_entries D @ replicate (MAX_NUM_OF_FILES - mounted_entries) zero_dirent"
    by (rule mount_dir_ok [OF D(2,1)]) (use p in \<open>simp add: persisted_def\<close>)
  have tab: "concat (map (\<lambda>j. decode_array sizeof_Inode dec_inode inodes_per_block (blk d (4 + int j))) [0..<16]) = T"
    by (rule mount_table_ok [OF T]) (use p in \<open>simp add: persisted_def\<close>)
  obtain buf3 where mi: "mount_inodes os d 4 0 16 (replicate DISK_BLOCKS zero_inode) (blk d 1) = Some (0, T, buf3)"
      "length buf3 = BLOCK_SIZE"
    using mount_inodes_ok [OF d(2) _ rng(4), of 0 16 "replicate DISK_BLOCKS zero_inode" "blk d 1"]
    by (auto simp: tab inodes_per_block_eq(4) [symmetric] simp del: upt_conv_Cons upt_rec_numeral)
  have z: "length zero_block = BLOCK_SIZE" by (simp add: zero_block_def)
  show ?thesis
    using d(1,3) rng sb dir mi junk z
    by (simp add: mount_fs_def rd make_super_sel Let_def memcpy_def BLOCK_SIZE_def DISK_BLOCKS_def numeral_2_eq_2)
qed


section \<open>Unmounting and mounting again\<close>

definition cut_dir :: "Directory_Entry list \<Rightarrow> Directory_Entry list" where
  "cut_dir D = take mounted_entries D @ replicate (MAX_NUM_OF_FILES - mounted_entries) zero_dirent"

definition dir_slot :: "fs \<Rightarrow> string \<Rightarrow> nat option" where
  "dir_slot s nm = do { D \<leftarrow> Directory s; lookup_dir D nm }"

lemma remount_ok:
  assumes wf: "fs_wf os s" and rep: "fs_rep s" and T: "Table s = Some T" and D: "Directory s = Some D"
    and junk: "length junk = DISK_BLOCKS"
  obtains s1 s2 bm where "umount_fs os (Some (handle (dsk s))) s = Some (0, s1)"
    "mount_fs os junk (Some (handle (dsk s))) s1 = Some (0, s2)"
    "super s2 = super s" "Table s2 = Some T" "Directory s2 = Some (cut_dir D)" "mounted s2"
    "used_block_bitmap s2 = Some bm" "drop 2 bm = drop 2 junk" "length bm = DISK_BLOCKS"
    "\<And>f. f \<in> set (fd_array s2) \<Longrightarrow> \<not> fd_used f" "length (fd_array s2) = MAX_FILE_DESCRIPTOR"
    "dev_ready os (dsk s2)" "handle (dsk s2) = handle (dsk s)"
    "\<And>b. data_start \<le> b \<Longrightarrow> b < int DISK_BLOCKS \<Longrightarrow> blk (dsk s2) b = blk (dsk s) b"
proof -
  from wf T D have w: "super s = Some make_super" "length T = DISK_BLOCKS" "length D = MAX_NUM_OF_FILES"
    "length (fd_array s) = MAX_FILE_DESCRIPTOR" by (auto elim!: fs_wfE)
  obtain d where u: "umount_fs os (Some (handle (dsk s))) s =
       Some (0, s\<lparr>dsk := snd (close_disk d), fd_array := map clear_fd (fd_array s), mounted := False\<rparr>)"
    "dev_ready os d" "handle d = handle (dsk s)" "persisted d T D"
    "\<And>b. data_start \<le> b \<Longrightarrow> b < int DISK_BLOCKS \<Longrightarrow> blk d b = blk (dsk s) b"
    using umount_fs_ok [OF wf rep T D] by blast
  obtain d1 where d1: "close_disk d = (0, d1)" "open_disk os (Some (handle d)) d1 = (0, d)"
    using reopen_disk [OF u(2)] by blast
  define bm where "bm = take 2 (blk d 2) @ drop 2 junk"
  let ?s1 = "s\<lparr>dsk := d1, fd_array := map clear_fd (fd_array s), mounted := False\<rparr>"
  have reps: "\<forall>n\<in>set T. inode_rep n" "\<forall>e\<in>set D. dirent_rep e" using rep T D by (auto simp: fs_rep_def)
  have "open_disk os (Some (handle (dsk s))) (dsk ?s1) = (0, d)" using d1(2) u(3) by simp
  note m = mount_fs_ok [OF this u(2) _ w(2) reps(1) w(3) reps(2) u(4) junk, folded cut_dir_def bm_def]
  have bm: "length bm = DISK_BLOCKS" "drop 2 bm = drop 2 junk"
    using junk by (simp_all add: bm_def BLOCK_SIZE_def DISK_BLOCKS_def)
  show ?thesis by (rule that [OF _ m, where bm = bm]) (use u(1,2,3,5) d1 w(1,4) bm in auto)
qed

lemma lookup_cut_dir:
  assumes D: "names_ok D" "length D = MAX_NUM_OF_FILES"
  shows "names_ok (cut_dir D)"
    "lookup_dir (cut_dir D) nm = (case lookup_dir D nm of Some i \<Rightarrow> if i < mounted_entries then Some i else None | None \<Rightarrow> None)"
proof -
  have nth: "cut_dir D ! i = (if i < mounted_entries then D ! i else zero_dirent)" if "i < length D" for i
    using that D(2) by (auto simp: cut_dir_def nth_append min_def)
  have len: "length (cut_dir D) = length D"
    by (simp add: cut_dir_def D(2) mounted_entries_eq MAX_NUM_OF_FILES_def)
  have z: "length (de_name zero_dirent) = MAX_FILENAME_LENGTH + 1" "NUL \<in> set (de_name zero_dirent)"
    "\<not> de_used zero_dirent" "cstr (de_name zero_dirent) = []"
    by (simp_all add: zero_dirent_def cstr_def MAX_FILENAME_LENGTH_def takeWhile_eq_Nil_iff)
  have "\<forall>e\<in>set (cut_dir D). e \<in> set D \<or> e = zero_dirent"
    by (auto simp: cut_dir_def dest: in_set_takeD)
  then have 1: "\<forall>e\<in>set (cut_dir D). length (de_name e) = MAX_FILENAME_LENGTH + 1 \<and> NUL \<in> set (de_name e) \<and>
        (de_used e \<longleftrightarrow> cstr (de_name e) \<noteq> [])"
    using z D(1) unfolding names_ok_def by metis
  have 2: "i = j" if "i < length D" "j < length D" "de_used (cut_dir D ! i)" "de_used (cut_dir D ! j)"
      "cstr (de_name (cut_dir D ! i)) = cstr (de_name (cut_dir D ! j))" for i j
    using that names_ok_inj [OF D(1), of i j] z(3) by (auto simp: nth split: if_splits)
  from 1 2 show ok: "names_ok (cut_dir D)" unfolding names_ok_def len by blast
  have "lookup_dir (cut_dir D) nm = Some i \<longleftrightarrow> i < mounted_entries \<and> lookup_dir D nm = Some i" for i
    unfolding lookup_dir_Some [OF ok] lookup_dir_Some [OF D(1)] len using nth z(3) by (auto split: if_splits)
  then have "lookup_dir (cut_dir D) nm = Some i \<longleftrightarrow>
      (case lookup_dir D nm of Some i \<Rightarrow> if i < mounted_entries then Some i else None | None \<Rightarrow> None) = Some i" for i
    by (auto split: option.splits)
  then show "lookup_dir (cut_dir D) nm =
      (case lookup_dir D nm of Some i \<Rightarrow> if i < mounted_entries then Some i else None | None \<Rightarrow> None)"
    by (metis not_None_eq)
qed

lemma remount_files:
  assumes wf: "fs_wf os s" and T: "Table s = Some T" and D: "Directory s = Some D"
    and s2: "Table s2 = Some T" "Directory s2 = Some (cut_dir D)"
    "\<And>b. data_start \<le> b \<Longrightarrow> b < int DISK_BLOCKS \<Longrightarrow> blk (dsk s2) b = blk (dsk s) b"
  shows "fs_files s2 nm =
    (case dir_slot s nm of Some i \<Rightarrow> if i < mounted_entries then fs_files s nm else None | None \<Rightarrow> None)"
proof -
  from wf T D obtain bm where w: "names_ok D" "length D = MAX_NUM_OF_FILES" "files_ok T bm D" "length T = DISK_BLOCKS"
    by (auto elim!: fs_wfE)
  have c: "content (dsk s2) T (D ! i) = content (dsk s) T (D ! i)" if i: "i < length D" "de_used (D ! i)" for i
  proof -
    note fo = file_okD [OF w(3) i]
    have "blk (dsk s2) b = blk (dsk s) b" if "b \<in> set (fblocks T (D ! i))" for b
      using s2(3) fo(3) [OF that] chain_range [OF fo(1) that] w(4) by simp
    then have "map (blk (dsk s2)) (fblocks T (D ! i)) = map (blk (dsk s)) (fblocks T (D ! i))" by simp
    then show ?thesis unfolding content_def by (simp only:)
  qed
  show ?thesis
  proof (cases "lookup_dir D nm")
    case None
    then show ?thesis
      by (simp add: fs_files_def dir_slot_def T D s2(1,2) lookup_cut_dir [OF w(1,2)])
  next
    case (Some i)
    then have "i < length D" "de_used (D ! i)" by (auto simp: lookup_dir_Some [OF w(1)])
    moreover have "i < mounted_entries \<Longrightarrow> cut_dir D ! i = D ! i"
      using \<open>i < length D\<close> by (simp add: cut_dir_def nth_append)
    ultimately show ?thesis
      using Some c by (simp add: fs_files_def dir_slot_def T D s2(1,2) lookup_cut_dir [OF w(1,2)])
  qed
qed


section \<open>Formatting\<close>

lemma fill_loop_ok:
  "(i + n) * length e \<le> length buf \<Longrightarrow>
     fill_loop i n e buf = Some (take (i * length e) buf @ concat (replicate n e) @ drop ((i + n) * length e) buf)"
proof (induction n arbitrary: i buf)
  case 0
  then show ?case by simp
next
  case (Suc n)
  let ?w = "length e"
  let ?b = "take (i * ?w) buf @ e @ drop (i * ?w + ?w) buf"
  have le: "i * ?w + ?w \<le> length buf" using Suc.prems by (simp add: algebra_simps)
  then have len: "length ?b = length buf" by simp
  have ih: "fill_loop (Suc i) n e ?b =
      Some (take (Suc i * ?w) ?b @ concat (replicate n e) @ drop ((Suc i + n) * ?w) ?b)"
    using Suc.IH [of "Suc i" ?b] Suc.prems len by simp
  have "take (Suc i * ?w) ?b = take (i * ?w) buf @ e" using le by simp
  moreover have "drop ((Suc i + n) * ?w) ?b = drop ((i + Suc n) * ?w) buf"
    using le by (simp add: algebra_simps)
  ultimately show ?case using ih le by (simp add: memcpy_def)
qed

lemma make_inodes_ok:
  assumes e: "length e = sizeof_Inode" and off: "0 \<le> off" "off + 16 \<le> int DISK_BLOCKS"
    and v: "v = concat (replicate inodes_per_block e)"
  shows "dev_ready os d \<Longrightarrow> i + n \<le> 16 \<Longrightarrow> length buf = BLOCK_SIZE \<Longrightarrow>
     \<exists>buf' d'. make_inodes os e off i n buf d = Some (0, buf', d') \<and> length buf' = BLOCK_SIZE \<and>
       dev_ready os d' \<and> handle d' = handle d \<and>
       (\<forall>j. i \<le> j \<and> j < i + n \<longrightarrow> blk d' (off + int j) = v) \<and>
       (\<forall>c. 0 \<le> c \<and> c < int DISK_BLOCKS \<and> \<not> (off + int i \<le> c \<and> c < off + int (i + n)) \<longrightarrow> blk d' c = blk d c)"
proof (induction n arbitrary: i d buf)
  case 0
  then show ?case by auto
next
  case (Suc n)
  have vl: "length v = BLOCK_SIZE"
    using e by (simp add: v length_concat sum_list_replicate inodes_per_block_eq(3))
  have f: "fill_loop 0 (BLOCK_SIZE div sizeof_Inode) e buf = Some v"
    using fill_loop_ok [of 0 inodes_per_block e buf] e Suc.prems(3)
    by (simp add: inodes_per_block_eq(3) v) (simp add: inodes_per_block_def)
  have r: "0 \<le> off + int i" "off + int i < int DISK_BLOCKS" using off Suc.prems(2) by auto
  obtain d1 where d1: "block_write os (off + int i) v d = (0, d1)" "dev_ready os d1"
      "handle d1 = handle d" "blk d1 (off + int i) = v"
      "\<And>c. 0 \<le> c \<Longrightarrow> c < int DISK_BLOCKS \<Longrightarrow> c \<noteq> off + int i \<Longrightarrow> blk d1 c = blk d c"
    using write_one [OF Suc.prems(1) r vl] by blast
  obtain buf' d' where d': "make_inodes os e off (Suc i) n v d1 = Some (0, buf', d')" "length buf' = BLOCK_SIZE"
      "dev_ready os d'" "handle d' = handle d1"
      "\<And>j. Suc i \<le> j \<Longrightarrow> j < Suc i + n \<Longrightarrow> blk d' (off + int j) = v"
      "\<And>c. 0 \<le> c \<Longrightarrow> c < int DISK_BLOCKS \<Longrightarrow> \<not> (off + int (Suc i) \<le> c \<and> c < off + int (Suc i + n)) \<Longrightarrow> blk d' c = blk d1 c"
    using Suc.IH [OF d1(2), of "Suc i" v] Suc.prems(2) vl by auto
  have "make_inodes os e off i (Suc n) buf d = Some (0, buf', d')"
    using f d1(1) d'(1) by simp
  moreover have "blk d' (off + int j) = v" if "i \<le> j" "j < i + Suc n" for j
    using d'(5) [of j] d'(6) [of "off + int i"] d1(4) r that by (cases "j = i") auto
  moreover have "blk d' c = blk d c"
    if "0 \<le> c" "c < int DISK_BLOCKS" "\<not> (off + int i \<le> c \<and> c < off + int (i + Suc n))" for c
    using d'(6) [of c] d1(5) [of c] that by auto
  ultimately show ?case using d'(2-4) d1(3) by auto
qed

lemma inode_block_replicate:
  "j < 16 \<Longrightarrow> inode_block (replicate DISK_BLOCKS n) j = concat (replicate inodes_per_block (enc_inode n))"
  by (simp add: inode_block_def chunk_def inodes_per_block_eq(1) DISK_BLOCKS_def min_absorb1)

definition empty_dir :: "byte list \<Rightarrow> Directory_Entry" where
  "empty_dir junk_name = \<lparr>de_used = False, de_inode_number = -1, de_name = NUL # junk_name, de_size = 0, de_count = 0\<rparr>"

definition empty_inode :: "byte \<Rightarrow> Inode" where
  "empty_inode junk_type = \<lparr>itype = junk_type, next_direct_offset = -2\<rparr>"

lemma make_fs_ok:
  assumes os: "os_reliable os" and s: "\<not> active (dsk s)" and junk: "length junk_name = MAX_FILENAME_LENGTH"
  obtains d d1 where "make_fs os junk_name junk_type (Some nm) s = Some (0, s\<lparr>dsk := d1\<rparr>)"
    "open_disk os (Some nm) d1 = (0, d)" "dev_ready os d" "\<not> active d1"
    "persisted d (replicate DISK_BLOCKS (empty_inode junk_type)) (replicate MAX_NUM_OF_FILES (empty_dir junk_name))"
    "take 2 (blk d 2) = [CHR ''0'', CHR ''0'']"
proof -
  obtain f where mk: "make_disk os (Some nm) (dsk s) = (0, (dsk s)\<lparr>files := (files (dsk s))(nm \<mapsto> f)\<rparr>)"
      "flen f = DISK_BLOCKS * BLOCK_SIZE"
    using make_disk_zero [OF os] by blast
  define d0 where "d0 = (dsk s)\<lparr>files := (files (dsk s))(nm \<mapsto> f), handle := nm, active := True\<rparr>"
  have op: "open_disk os (Some nm) ((dsk s)\<lparr>files := (files (dsk s))(nm \<mapsto> f)\<rparr>) = (0, d0)"
    using os s by (simp add: open_disk_def os_reliable_def d0_def)
  have d0: "dev_ready os d0" "handle d0 = nm"
    using os mk(2) by (simp_all add: dev_ready_def disk_open_def d0_def)
  have rng: "(0::int) < int DISK_BLOCKS" "(1::int) < int DISK_BLOCKS" "(2::int) < int DISK_BLOCKS" "4 + 16 \<le> int DISK_BLOCKS"
    by (simp_all add: DISK_BLOCKS_def)
  define b1 where "b1 = super_block make_super"
  let ?ed = "enc_dirent (empty_dir junk_name)" and ?ei = "enc_inode (empty_inode junk_type)"
  have led: "length ?ed = sizeof_Directory_Entry"
    using junk by (simp add: length_enc_dirent dirent_rep_def empty_dir_def int32_def)
  define b2 where "b2 = concat (replicate MAX_NUM_OF_FILES ?ed) @ drop (MAX_NUM_OF_FILES * length ?ed) b1"
  have b1: "memcpy zero_block 0 (enc_super make_super) = Some b1" "length b1 = BLOCK_SIZE"
    by (simp_all add: memcpy_def zero_block_def b1_def super_block_def sizeof_defs)
  have b2: "fill_loop 0 MAX_NUM_OF_FILES ?ed b1 = Some b2" "length b2 = BLOCK_SIZE"
    using fill_loop_ok [of 0 MAX_NUM_OF_FILES ?ed b1] b1(2) led
    by (simp_all add: b2_def length_concat sum_list_replicate sizeof_defs)
  obtain d1 where d1: "block_write os 0 b1 d0 = (0, d1)" "dev_ready os d1" "handle d1 = handle d0"
      "blk d1 0 = b1" "\<And>c. 0 \<le> c \<Longrightarrow> c < int DISK_BLOCKS \<Longrightarrow> c \<noteq> 0 \<Longrightarrow> blk d1 c = blk d0 c"
    using write_one [OF d0(1) order.refl rng(1) b1(2)] by blast
  obtain d2 where d2: "block_write os 1 b2 d1 = (0, d2)" "dev_ready os d2" "handle d2 = handle d1"
      "blk d2 1 = b2" "\<And>c. 0 \<le> c \<Longrightarrow> c < int DISK_BLOCKS \<Longrightarrow> c \<noteq> 1 \<Longrightarrow> blk d2 c = blk d1 c"
    using write_one [OF d1(2) zero_le_one rng(2) b2(2)] by blast
  obtain b3 d3 where d3: "make_inodes os ?ei 4 0 16 b2 d2 = Some (0, b3, d3)" "length b3 = BLOCK_SIZE"
      "dev_ready os d3" "handle d3 = handle d2"
      "\<And>j. j < 16 \<Longrightarrow> blk d3 (4 + int j) = concat (replicate inodes_per_block ?ei)"
      "\<And>c. 0 \<le> c \<Longrightarrow> c < int DISK_BLOCKS \<Longrightarrow> \<not> (4 \<le> c \<and> c < 20) \<Longrightarrow> blk d3 c = blk d2 c"
    using make_inodes_ok [OF _ _ rng(4) refl d2(2), of ?ei 0 16 b2] b2(2) by auto
  define b4 where "b4 = [CHR ''0'', CHR ''0''] @ drop 2 b3"
  have b4: "fill_loop 0 2 [CHR ''0''] b3 = Some b4" "length b4 = BLOCK_SIZE"
    using fill_loop_ok [of 0 2 "[CHR ''0'']" b3] d3(2)
    by (simp_all add: b4_def BLOCK_SIZE_def numeral_2_eq_2)
  obtain d4 where d4: "block_write os 2 b4 d3 = (0, d4)" "dev_ready os d4" "handle d4 = handle d3"
      "blk d4 2 = b4" "\<And>c. 0 \<le> c \<Longrightarrow> c < int DISK_BLOCKS \<Longrightarrow> c \<noteq> 2 \<Longrightarrow> blk d4 c = blk d3 c"
    using write_one [OF d3(3) _ rng(3) b4(2)] by auto
  obtain d5 where d5: "close_disk d4 = (0, d5)" "open_disk os (Some (handle d4)) d5 = (0, d4)" "\<not> active d5"
    using reopen_disk [OF d4(2)] by blast
  have run: "make_fs os junk_name junk_type (Some nm) s = Some (0, s\<lparr>dsk := d5\<rparr>)"
    using mk(1) op b1(1) d1(1) b2(1) d2(1) d3(1) b4(1) d4(1) d5(1)
    by (simp add: make_fs_def Let_def make_super_sel empty_dir_def empty_inode_def)
  have "blk d4 0 = b1" "blk d4 1 = b2"
    using d4(5) [of 0] d4(5) [of 1] d3(6) [of 0] d3(6) [of 1] d2(4) d2(5) [of 0] d1(4) rng by simp_all
  moreover have "blk d4 (4 + int j) = inode_block (replicate DISK_BLOCKS (empty_inode junk_type)) j" if "j < 16" for j
    using d4(5) [of "4 + int j"] d3(5) [OF that] that rng(4) inode_block_replicate [OF that] by simp
  ultimately have "persisted d4 (replicate DISK_BLOCKS (empty_inode junk_type)) (replicate MAX_NUM_OF_FILES (empty_dir junk_name))"
    by (simp add: persisted_def b1_def b2_def super_block_def led map_replicate_const
        length_concat sum_list_replicate mult.commute)
  with run d4(2,4) d5 d4(3) d3(4) d2(3) d1(3) d0(2) show ?thesis
    by (intro that [of d5 d4]) (simp_all add: b4_def)
qed

text \<open>A formatted and mounted disk is a well-formed file system without files; the blocks
  that can be allocated are the null bytes of the memory that \<open>malloc\<close> returned for the bitmap.\<close>

lemma format_mount:
  assumes os: "os_reliable os" and s: "\<not> active (dsk s)" "\<not> mounted s" "length (fd_array s) = MAX_FILE_DESCRIPTOR"
    and junk: "length junk_name = MAX_FILENAME_LENGTH" "length junk = DISK_BLOCKS"
  obtains s1 s2 where "make_fs os junk_name junk_type (Some nm) s = Some (0, s1)"
    "mount_fs os junk (Some nm) s1 = Some (0, s2)" "fs_wf os s2" "fs_rep s2"
    "fs_abs s2 = \<lparr>afiles = (\<lambda>_. None), afds = (\<lambda>_. None)\<rparr>"
    "free_blocks s2 = card (free_set data_start junk)" "num_files s2 = 0"
    "Table s2 = Some (replicate DISK_BLOCKS (empty_inode junk_type))"
proof -
  obtain d d1 where m: "make_fs os junk_name junk_type (Some nm) s = Some (0, s\<lparr>dsk := d1\<rparr>)"
    "open_disk os (Some nm) d1 = (0, d)" "dev_ready os d"
    "persisted d (replicate DISK_BLOCKS (empty_inode junk_type)) (replicate MAX_NUM_OF_FILES (empty_dir junk_name))"
    "take 2 (blk d 2) = [CHR ''0'', CHR ''0'']"
    using make_fs_ok [OF os s(1) junk(1)] by blast
  define T where "T = replicate DISK_BLOCKS (empty_inode junk_type)"
  define D where "D = cut_dir (replicate MAX_NUM_OF_FILES (empty_dir junk_name))"
  define bm where "bm = [CHR ''0'', CHR ''0''] @ drop 2 junk"
  let ?s1 = "s\<lparr>dsk := d1\<rparr>"
  let ?s2 = "?s1\<lparr>super := Some make_super, Table := Some T, used_block_bitmap := Some bm,
     fd_array := map (\<lambda>f. f\<lparr>fd_used := False\<rparr>) (fd_array ?s1), Directory := Some D, mounted := True, dsk := d\<rparr>"
  have rep: "inode_rep (empty_inode junk_type)" "dirent_rep (empty_dir junk_name)"
    using junk(1) by (simp_all add: inode_rep_def empty_inode_def dirent_rep_def empty_dir_def int32_def)
  have mount: "mount_fs os junk (Some nm) ?s1 = Some (0, ?s2)"
    using mount_fs_ok [of os nm ?s1 d T "replicate MAX_NUM_OF_FILES (empty_dir junk_name)" junk] m s(2) junk(2) rep
    by (simp add: T_def D_def cut_dir_def bm_def)
  have D: "length D = MAX_NUM_OF_FILES" "\<forall>e\<in>set D. e = empty_dir junk_name \<or> e = zero_dirent"
    by (auto simp: D_def cut_dir_def mounted_entries_eq MAX_NUM_OF_FILES_def dest: in_set_takeD)
  have u: "\<not> de_used (empty_dir junk_name)" "\<not> de_used zero_dirent" by (simp_all add: empty_dir_def zero_dirent_def)
  with D(2) have un: "\<forall>e\<in>set D. \<not> de_used e" by metis
  then have un': "\<not> de_used (D ! i)" if "i < length D" for i using that nth_mem by blast
  have "names_ok (replicate MAX_NUM_OF_FILES (empty_dir junk_name))"
    using junk(1) by (simp add: names_ok_def empty_dir_def cstr_def)
  then have names: "names_ok D" unfolding D_def by (rule lookup_cut_dir) simp
  have bm: "length bm = DISK_BLOCKS" using junk(2) by (simp add: bm_def DISK_BLOCKS_def)
  have wf: "fs_wf os ?s2"
    using m(3) D(1) un un' names bm s(3) by (simp add: fs_wf_def T_def files_ok_def fds_ok_def)
  have dr: "\<forall>e\<in>set D. dirent_rep e"
    using D(2) rep(2) by (auto simp: dirent_rep_def zero_dirent_def int32_def MAX_FILENAME_LENGTH_def)
  have "fs_rep ?s2" using dr rep(1) by (simp add: fs_rep_def T_def)
  moreover have "fs_files ?s2 n = None" for n
    using un by (simp add: fs_files_None [where T = T and D = D])
  moreover have "fd_view ?s2 fd = None" for fd
    by (auto simp: fd_view_def array_get_def)
  moreover have "bm ! nat j = junk ! nat j" if "20 \<le> j" "j < int DISK_BLOCKS" for j
  proof -
    have "Suc (Suc (nat j - Suc (Suc 0))) = nat j" using that by linarith
    with that junk(2) show ?thesis by (simp add: bm_def nth_append)
  qed
  then have "free_set data_start bm = free_set data_start junk"
    by (auto simp: free_set_def data_start_eq)
  ultimately show ?thesis
    using that [OF m(1) mount wf] un
    by (simp add: fs_abs_def free_blocks_def num_files_def T_def filter_False fun_eq_iff)
qed

end
