(* ===== verification/FS_Props.thy ===== *)
theory FS_Props
  imports FS_Mount
begin

text \<open>
  The properties of the file system, and runs of its operations: every operation whose
  precondition holds is defined, succeeds, keeps the invariant and does what the abstract
  file system does. The states of the witnesses are computed by the operations from a
  freshly formatted disk.
\<close>

section \<open>Operations as a step relation\<close>

definition no_bytes :: "(int \<times> fs) option \<Rightarrow> (int \<times> byte list \<times> fs) option" where
  "no_bytes = map_option (\<lambda>(r, s'). (r, [], s'))"

lemma no_bytes_Some [simp]: "no_bytes (Some (r, s')) = Some (r, [], s')"
  by (simp add: no_bytes_def)

datatype fs_op =
    Create string
  | Delete string
  | Open string
  | Close int
  | Write int "byte list"
  | Read int nat
  | Seek int nat
  | Truncate int nat

text \<open>The value returned, the bytes the caller may take from its buffer (as many as \<open>fs_read\<close>
  reports, none for the other operations) and the new state.\<close>

definition fs_exec :: "os \<Rightarrow> fs_op \<Rightarrow> fs \<Rightarrow> (int \<times> byte list \<times> fs) option" where
  "fs_exec os op s =
     (case op of
        Create nm \<Rightarrow> no_bytes (fs_create nm s)
      | Delete nm \<Rightarrow> no_bytes (fs_delete nm s)
      | Open nm \<Rightarrow> no_bytes (fs_open nm s)
      | Close fd \<Rightarrow> no_bytes (fs_close fd s)
      | Write fd data \<Rightarrow> no_bytes (fs_write os fd data (of_nat (length data)) s)
      | Read fd n \<Rightarrow> map_option (\<lambda>(r, data, s'). (r, take (nat r) data, s')) (fs_read os fd (of_nat n) s)
      | Seek fd off \<Rightarrow> no_bytes (fs_lseek fd (int off) s)
      | Truncate fd len \<Rightarrow> no_bytes (fs_truncate fd (int len) s))"

text \<open>The precondition of an operation: names and descriptors are valid, positions are within
  the file, and the disk and the tables have room.\<close>

definition fd_pre :: "fs \<Rightarrow> int \<Rightarrow> (string \<Rightarrow> nat \<Rightarrow> byte list \<Rightarrow> bool) \<Rightarrow> bool" where
  "fd_pre s fd P =
     (case fd_view s fd of
        None \<Rightarrow> False
      | Some (nm, off) \<Rightarrow> (case fs_files s nm of None \<Rightarrow> False | Some c \<Rightarrow> P nm off c))"

definition closed :: "fs \<Rightarrow> string \<Rightarrow> bool" where
  "closed s nm = list_all (\<lambda>i. map_option fst (fd_view s (int i)) \<noteq> Some nm) [0..<MAX_FILE_DESCRIPTOR]"

definition fs_pre :: "fs_op \<Rightarrow> fs \<Rightarrow> bool" where
  "fs_pre op s =
     (case op of
        Create nm \<Rightarrow> valid_name nm \<and> fs_files s nm = None \<and> num_files s < MAX_NUM_OF_FILES \<and> 0 < free_blocks s
      | Delete nm \<Rightarrow> nm \<noteq> [] \<and> NUL \<notin> set nm \<and> fs_files s nm \<noteq> None \<and> closed s nm
      | Open nm \<Rightarrow> nm \<noteq> [] \<and> NUL \<notin> set nm \<and> fs_files s nm \<noteq> None \<and>
          list_ex (\<lambda>f. \<not> fd_used f) (fd_array s)
      | Close fd \<Rightarrow> fd_view s fd \<noteq> None
      | Write fd data \<Rightarrow> data \<noteq> [] \<and> fd_pre s fd (\<lambda>nm off c. off \<le> length c \<and>
          off + length data \<le> nat MAX_FILESIZE \<and>
          (off + length data - 1) div BLOCK_SIZE + 1 \<le> file_nblocks s nm + free_blocks s)
      | Read fd n \<Rightarrow> 0 < n \<and> fd_pre s fd (\<lambda>nm off c. off \<le> length c \<and> off + n \<le> read_room (length c))
      | Seek fd off' \<Rightarrow> fd_pre s fd (\<lambda>nm off c. off' \<le> length c)
      | Truncate fd len \<Rightarrow> fd_pre s fd (\<lambda>nm off c. len \<le> length c))"

text \<open>The abstract operations: the value returned, the bytes read and the new abstract state are
  functions of the old abstract state. \<open>Open\<close> returns the lowest descriptor that is not in use;
  \<open>Read\<close> stops at the end of the file. \<open>Truncate\<close> leaves every position as it is, as the code
  does: a position beyond the new end stays there.\<close>

definition spec_fd :: "afs \<Rightarrow> nat option" where
  "spec_fd a = find_idx (\<lambda>i. afds a (int i) = None) [0..<MAX_FILE_DESCRIPTOR]"

definition spec_exec :: "fs_op \<Rightarrow> afs \<Rightarrow> int \<times> byte list \<times> afs" where
  "spec_exec op a =
     (case op of
        Create nm \<Rightarrow> (0, [], spec_create nm a)
      | Delete nm \<Rightarrow> (0, [], spec_delete nm a)
      | Open nm \<Rightarrow> (case spec_fd a of None \<Rightarrow> (-1, [], a) | Some i \<Rightarrow> (int i, [], spec_open (int i) nm a))
      | Close fd \<Rightarrow> (0, [], spec_close fd a)
      | Write fd data \<Rightarrow> (int (length data), [], spec_write fd data a)
      | Read fd n \<Rightarrow>
          (case afds a fd of
             None \<Rightarrow> (-1, [], a)
           | Some (_, off) \<Rightarrow>
               (let out = spec_read fd n a in (int (length out), out, spec_seek fd (off + length out) a)))
      | Seek fd off \<Rightarrow> (0, [], spec_seek fd off a)
      | Truncate fd len \<Rightarrow> (0, [], spec_truncate fd len a))"

lemma fd_preE:
  assumes "fd_pre s fd P"
  obtains nm off c where "fd_view s fd = Some (nm, off)" "fs_files s nm = Some c" "P nm off c"
  using assms by (auto simp: fd_pre_def split: option.splits)

lemma closedD:
  assumes "fs_wf os s" "closed s nm"
  shows "fd_view s fd \<noteq> Some (nm, off)"
proof
  assume v: "fd_view s fd = Some (nm, off)"
  with assms(1) have "0 \<le> fd" "fd < int MAX_FILE_DESCRIPTOR" by (auto elim: fd_viewE)
  then have "nat fd < MAX_FILE_DESCRIPTOR" "int (nat fd) = fd" by auto
  with assms(2) have "map_option fst (fd_view s fd) \<noteq> Some nm"
    unfolding closed_def list_all_iff by (metis atLeastLessThan_iff le0 set_upt)
  with v show False by simp
qed

lemma unat_of_nat_small: "n \<le> 2 ^ 25 \<Longrightarrow> unat (of_nat n :: u64) = n"
  by (simp add: unsigned_of_nat take_bit_nat_eq_self)

lemma read_bytes:
  assumes "length data = n" "take (length c - off) data = take n (drop off c)"
  shows "take (length (take n (drop off c))) data = take n (drop off c)"
  using assms by (metis length_drop length_take min.commute take_all_iff take_take order.refl)

lemma fs_files_bound:
  assumes "fs_wf os s" "fs_files s nm = Some c"
  shows "length c \<le> nat MAX_FILESIZE" "0 < file_nblocks s nm"
proof -
  from assms(1) obtain T bm D where w: "Table s = Some T" "Directory s = Some D" "files_ok T bm D" "names_ok D"
    by (rule fs_wfE)
  from assms(2) obtain k where k: "k < length D" "de_used (D ! k)" "cstr (de_name (D ! k)) = nm"
      "c = content (dsk s) T (D ! k)" by (auto simp: fs_files_Some [OF w(1,2,4)])
  note fo = file_okD [OF w(3) k(1,2)]
  have "length c = nat (de_size (D ! k))" using length_content [of T bm "D ! k"] w(3) k by (auto simp: files_ok_def)
  then show "length c \<le> nat MAX_FILESIZE" using fo(6) by (simp add: nat_mono)
  show "0 < file_nblocks s nm" using file_nblocks_eq [OF w(1,2,4) k(1,2)] k(3) fo(2) by simp
qed

lemma blocks_bound:
  assumes "fs_wf os s"
  shows "file_nblocks s nm + free_blocks s \<le> 2 * DISK_BLOCKS"
proof -
  from assms obtain T bm D where w: "Table s = Some T" "used_block_bitmap s = Some bm" "Directory s = Some D"
      "length T = DISK_BLOCKS" "files_ok T bm D" "names_ok D" by (rule fs_wfE)
  have "free_set data_start bm \<subseteq> {0..<int DISK_BLOCKS}" by (auto simp: free_set_def data_start_eq)
  then have "card (free_set data_start bm) \<le> card {0..<int DISK_BLOCKS}" by (intro card_mono) auto
  then have f: "free_blocks s \<le> DISK_BLOCKS" by (simp add: free_blocks_def w(2))
  have "length (fblocks T (D ! k)) \<le> DISK_BLOCKS" if "lookup_dir D nm = Some k" for k
    using chain_length [OF file_okD(1) [OF w(5)]] that w(4) by (simp add: lookup_dir_Some [OF w(6)])
  then have "file_nblocks s nm \<le> DISK_BLOCKS"
    by (cases "lookup_dir D nm") (simp_all add: file_nblocks_def w(1,3))
  with f show ?thesis by simp
qed

lemma names_ok_distinct:
  assumes "names_ok D"
  shows "distinct (map (\<lambda>e. cstr (de_name e)) (filter de_used D))"
proof -
  have "distinct (map (\<lambda>e. cstr (de_name e)) (filter de_used E))"
    if "\<And>i j. i < length E \<Longrightarrow> j < length E \<Longrightarrow> de_used (E ! i) \<Longrightarrow> de_used (E ! j) \<Longrightarrow>
        cstr (de_name (E ! i)) = cstr (de_name (E ! j)) \<Longrightarrow> i = j" for E
    using that
  proof (induction E)
    case (Cons e E)
    have "distinct (map (\<lambda>e. cstr (de_name e)) (filter de_used E))"
      using Cons.prems [of "Suc i" "Suc j" for i j] by (intro Cons.IH) auto
    moreover have "cstr (de_name e) \<noteq> cstr (de_name x)" if "de_used e" "x \<in> set E" "de_used x" for x
      using that Cons.prems [of 0 "Suc j" for j] by (fastforce simp: in_set_conv_nth)
    ultimately show ?case by auto
  qed simp
  with names_ok_inj [OF assms] show ?thesis by blast
qed

text \<open>A descriptor of the table is free exactly when the abstract state does not have it.\<close>

lemma fd_view_free:
  assumes wf: "fs_wf os s" and "i < MAX_FILE_DESCRIPTOR"
  shows "fd_view s (int i) = None \<longleftrightarrow> \<not> fd_used (fd_array s ! i)"
proof -
  from wf obtain T bm D where w: "Table s = Some T" "Directory s = Some D" "files_ok T bm D"
      "length (fd_array s) = MAX_FILE_DESCRIPTOR" "fds_ok D (fd_array s)" by (rule fs_wfE)
  have g: "array_get (fd_array s) (int i) = Some (fd_array s ! i)" using assms(2) w(4) by (simp add: array_get_def)
  show ?thesis
  proof (cases "fd_used (fd_array s ! i)")
    case True
    obtain k where "k < length D" "de_used (D ! k)" "de_inode_number (D ! k) = fd_inode_number (fd_array s ! i)"
      using fds_okE [OF w(5) _ True] assms(2) w(4) by auto
    then have "fd_view s (int i) = Some (cstr (de_name (D ! k)), nat (fd_offset (fd_array s ! i)))"
      unfolding fd_view_Some [OF w(2,3)] using True g by auto
    with True show ?thesis by simp
  qed (simp add: fd_view_def w(2) g)
qed

lemma spec_fd_eq:
  assumes "fs_wf os s"
  shows "spec_fd (fs_abs s) = find_idx (\<lambda>f. \<not> fd_used f) (fd_array s)"
proof -
  have "length (fd_array s) = MAX_FILE_DESCRIPTOR" using assms by (rule fs_wfE)
  then show ?thesis
    unfolding spec_fd_def by (intro find_idx_cong) (simp_all add: fs_abs_def fd_view_free [OF assms])
qed

lemma fs_exec_open:
  assumes wf: "fs_wf os s" and pre: "fs_pre (Open nm) s"
  obtains r out s' where "fs_exec os (Open nm) s = Some (r, out, s')" "fs_wf os s'"
    "spec_exec (Open nm) (fs_abs s) = (r, out, fs_abs s')"
proof -
  from pre have nm: "nm \<noteq> []" "NUL \<notin> set nm" "nm \<in> dom (fs_files s)" and "\<exists>f\<in>set (fd_array s). \<not> fd_used f"
    by (auto simp: fs_pre_def list_ex_iff)
  then obtain i where i: "find_idx (\<lambda>f. \<not> fd_used f) (fd_array s) = Some i"
    by (cases "find_idx (\<lambda>f. \<not> fd_used f) (fd_array s)") (auto simp: find_idx_None)
  obtain s' where "fs_open nm s = Some (int i, s')" "fs_wf os s'" "fs_abs s' = spec_open (int i) nm (fs_abs s)"
    by (rule fs_open_step [OF wf nm i])
  then show ?thesis
    using that [of "int i" "[]" s'] by (simp add: fs_exec_def spec_exec_def spec_fd_eq [OF wf] i)
qed

lemma fs_exec_write:
  assumes wf: "fs_wf os s" and pre: "fs_pre (Write fd data) s"
  obtains r out s' where "fs_exec os (Write fd data) s = Some (r, out, s')" "fs_wf os s'"
    "spec_exec (Write fd data) (fs_abs s) = (r, out, fs_abs s')"
proof -
  from pre obtain nm off c where v: "fd_view s fd = Some (nm, off)" "fs_files s nm = Some c" "off \<le> length c"
      "off + length data \<le> nat MAX_FILESIZE" "data \<noteq> []"
      "(off + length data - 1) div BLOCK_SIZE + 1 \<le> file_nblocks s nm + free_blocks s"
    by (auto simp: fs_pre_def elim!: fd_preE)
  then have n: "unat (of_nat (length data) :: u64) = length data"
    by (intro unat_of_nat_small) (simp add: MAX_FILESIZE_def)
  have "0 < length data" using v(5) by simp
  then obtain s' where "fs_write os fd data (of_nat (length data)) s = Some (int (length data), s')" "fs_wf os s'"
      "fs_abs s' = spec_write fd (take (length data) data) (fs_abs s)"
    using fs_write_step [OF wf v(1,2), of "of_nat (length data)" data, unfolded n] v(3,4,6) by blast
  then show ?thesis using that by (simp add: fs_exec_def spec_exec_def)
qed

lemma fs_exec_read:
  assumes wf: "fs_wf os s" and pre: "fs_pre (Read fd n) s"
  obtains r out s' where "fs_exec os (Read fd n) s = Some (r, out, s')" "fs_wf os s'"
    "spec_exec (Read fd n) (fs_abs s) = (r, out, fs_abs s')"
proof -
  from pre obtain nm off c where v: "fd_view s fd = Some (nm, off)" "fs_files s nm = Some c" "off \<le> length c"
      "off + n \<le> read_room (length c)" "0 < n"
    by (auto simp: fs_pre_def elim!: fd_preE)
  let ?out = "take n (drop off c)"
  have "length c \<le> nat MAX_FILESIZE" using fs_files_bound(1) [OF wf v(2)] .
  then have n: "unat (of_nat n :: u64) = n"
    using v(4) read_room_le [of "length c"] by (intro unat_of_nat_small) (simp add: MAX_FILESIZE_def BLOCK_SIZE_def)
  obtain s' data where r: "fs_read os fd (of_nat n) s = Some (int (length ?out), data, s')"
      "fs_wf os s'" "fs_abs s' = spec_seek fd (min (length c) (off + n)) (fs_abs s)"
      "length data = n" "take (length c - off) data = ?out"
    using fs_read_step [OF wf v(1,2), of "of_nat n", unfolded n, OF v(5,4,3)] by blast
  have "min (length c) (off + n) = off + length ?out" using v(3) by auto
  moreover have "take (length ?out) data = ?out" by (rule read_bytes [OF r(4,5)])
  moreover have "afds (fs_abs s) fd = Some (nm, off)" "spec_read fd n (fs_abs s) = ?out"
    using v(1,2) by (simp_all add: fs_abs_def spec_read_def)
  ultimately show ?thesis
    using that [of "int (length ?out)" ?out s'] r(1-3) by (simp add: fs_exec_def spec_exec_def Let_def)
qed

lemma fs_exec_step:
  assumes wf: "fs_wf os s" and pre: "fs_pre op s"
  obtains r out s' where "fs_exec os op s = Some (r, out, s')" "fs_wf os s'"
    "spec_exec op (fs_abs s) = (r, out, fs_abs s')"
proof (cases op)
  case (Create nm)
  with pre have "valid_name nm" "fs_files s nm = None" "num_files s < MAX_NUM_OF_FILES" "0 < free_blocks s"
    by (auto simp: fs_pre_def)
  then obtain s' where "fs_create nm s = Some (0, s')" "fs_wf os s'" "fs_abs s' = spec_create nm (fs_abs s)"
    by (rule fs_create_step [OF wf])
  then show ?thesis using that [of 0 "[]" s'] Create by (simp add: fs_exec_def spec_exec_def)
next
  case (Delete nm)
  with pre obtain c where "nm \<noteq> []" "NUL \<notin> set nm" "fs_files s nm = Some c" "closed s nm"
    by (auto simp: fs_pre_def)
  with closedD [OF wf this(4)] obtain s' where "fs_delete nm s = Some (0, s')" "fs_wf os s'"
      "fs_abs s' = spec_delete nm (fs_abs s)" using fs_delete_step [OF wf, of nm c] by blast
  then show ?thesis using that [of 0 "[]" s'] Delete by (simp add: fs_exec_def spec_exec_def)
next
  case (Close fd)
  with pre obtain nm off where "fd_view s fd = Some (nm, off)" by (auto simp: fs_pre_def)
  then obtain s' where "fs_close fd s = Some (0, s')" "fs_wf os s'" "fs_abs s' = spec_close fd (fs_abs s)"
    using fs_close_step [OF wf] by blast
  then show ?thesis using that [of 0 "[]" s'] Close by (simp add: fs_exec_def spec_exec_def)
next
  case (Seek fd off')
  with pre obtain nm off c where "fd_view s fd = Some (nm, off)" "fs_files s nm = Some c" "off' \<le> length c"
    by (auto simp: fs_pre_def elim!: fd_preE)
  then obtain s' where "fs_lseek fd (int off') s = Some (0, s')" "fs_wf os s'"
      "fs_abs s' = spec_seek fd off' (fs_abs s)" using fs_lseek_step [OF wf] by blast
  then show ?thesis using that [of 0 "[]" s'] Seek by (simp add: fs_exec_def spec_exec_def)
next
  case (Truncate fd len)
  with pre obtain nm off c where "fd_view s fd = Some (nm, off)" "fs_files s nm = Some c" "len \<le> length c"
    by (auto simp: fs_pre_def elim!: fd_preE)
  then obtain s' where "fs_truncate fd (int len) s = Some (0, s')" "fs_wf os s'"
      "fs_abs s' = spec_truncate fd len (fs_abs s)" using fs_truncate_step [OF wf] by blast
  then show ?thesis using that [of 0 "[]" s'] Truncate by (simp add: fs_exec_def spec_exec_def)
qed (use fs_exec_open [OF wf] fs_exec_write [OF wf] fs_exec_read [OF wf] pre that in blast)+

inductive fs_reach :: "os \<Rightarrow> fs \<Rightarrow> fs \<Rightarrow> bool" for os s0 where
  fs_reach_refl: "fs_reach os s0 s0"
| fs_reach_step: "fs_reach os s0 s \<Longrightarrow> fs_pre op s \<Longrightarrow> fs_exec os op s = Some (r, out, s') \<Longrightarrow> fs_reach os s0 s'"

lemma fs_reach_wf: "fs_reach os s0 s \<Longrightarrow> fs_wf os s0 \<Longrightarrow> fs_wf os s"
proof (induction rule: fs_reach.induct)
  case (fs_reach_step s op r out s')
  then show ?case by (metis fs_exec_step option.inject prod.inject)
qed


section \<open>Concrete states\<close>

definition demo_os :: os where
  "demo_os = \<lparr>creat_ok = (\<lambda>_. True), open_ok = (\<lambda>_. True), lseek_ok = (\<lambda>_. True),
     read_ok = (\<lambda>_. True), write_ok = (\<lambda>_. True)\<rparr>"

definition demo_boot :: fs where
  "demo_boot = \<lparr>super = None, Table = None, used_block_bitmap = None,
     fd_array = replicate MAX_FILE_DESCRIPTOR \<lparr>fd_used = False, fd_inode_number = 0, fd_offset = 0\<rparr>,
     Directory = None, mounted = False, dsk = \<lparr>active = False, handle = [], files = (\<lambda>_. None)\<rparr>\<rparr>"

definition demo_fs :: fs where
  "demo_fs = snd (the (mount_fs demo_os (replicate DISK_BLOCKS NUL) (Some ''disk'')
     (snd (the (make_fs demo_os (replicate MAX_FILENAME_LENGTH NUL) NUL (Some ''disk'') demo_boot)))))"

definition demo_created :: fs where
  "demo_created = snd (the (fs_create ''a'' demo_fs))"

definition demo_opened :: fs where
  "demo_opened = snd (the (fs_open ''a'' demo_created))"

definition demo_written :: fs where
  "demo_written = snd (the (fs_write demo_os 0 ''hello'' 5 demo_opened))"

lemma demo_os_reliable: "os_reliable demo_os"
  by (simp add: os_reliable_def demo_os_def)

lemma demo_boot_facts: "\<not> active (dsk demo_boot)" "\<not> mounted demo_boot"
  "length (fd_array demo_boot) = MAX_FILE_DESCRIPTOR"
  by (simp_all add: demo_boot_def)

lemma free_set_zero: "card (free_set data_start (replicate DISK_BLOCKS NUL)) = 8172"
proof -
  have "free_set data_start (replicate DISK_BLOCKS NUL) = {20..<int DISK_BLOCKS}"
    by (auto simp: free_set_def data_start_eq)
  then show ?thesis by (simp add: DISK_BLOCKS_def)
qed

lemma demo_fs_facts: "fs_wf demo_os demo_fs" "fs_rep demo_fs" "num_files demo_fs = 0"
  "fs_abs demo_fs = \<lparr>afiles = (\<lambda>_. None), afds = (\<lambda>_. None)\<rparr>" "free_blocks demo_fs = 8172"
proof -
  obtain s1 s2 where "make_fs demo_os (replicate MAX_FILENAME_LENGTH NUL) NUL (Some ''disk'') demo_boot = Some (0, s1)"
      "mount_fs demo_os (replicate DISK_BLOCKS NUL) (Some ''disk'') s1 = Some (0, s2)"
      "fs_wf demo_os s2" "fs_rep s2" "fs_abs s2 = \<lparr>afiles = (\<lambda>_. None), afds = (\<lambda>_. None)\<rparr>"
      "free_blocks s2 = card (free_set data_start (replicate DISK_BLOCKS NUL))" "num_files s2 = 0"
    using format_mount [OF demo_os_reliable demo_boot_facts, of "replicate MAX_FILENAME_LENGTH NUL"
        "replicate DISK_BLOCKS NUL" NUL "''disk''"] by (metis length_replicate)
  then show "fs_wf demo_os demo_fs" "fs_rep demo_fs" "num_files demo_fs = 0"
      "fs_abs demo_fs = \<lparr>afiles = (\<lambda>_. None), afds = (\<lambda>_. None)\<rparr>" "free_blocks demo_fs = 8172"
    using free_set_zero by (simp_all add: demo_fs_def)
qed

lemma demo_fs_run:
  obtains s1 where "make_fs demo_os (replicate MAX_FILENAME_LENGTH NUL) NUL (Some ''disk'') demo_boot = Some (0, s1)"
    "mount_fs demo_os (replicate DISK_BLOCKS NUL) (Some ''disk'') s1 = Some (0, demo_fs)"
proof -
  obtain s1 s2 where r: "make_fs demo_os (replicate MAX_FILENAME_LENGTH NUL) NUL (Some ''disk'') demo_boot = Some (0, s1)"
      "mount_fs demo_os (replicate DISK_BLOCKS NUL) (Some ''disk'') s1 = Some (0, s2)"
    using format_mount [OF demo_os_reliable demo_boot_facts, of "replicate MAX_FILENAME_LENGTH NUL"
        "replicate DISK_BLOCKS NUL" NUL "''disk''"] by (metis length_replicate)
  then have "demo_fs = s2" by (simp add: demo_fs_def)
  with r that show ?thesis by blast
qed

lemma demo_created_facts: "fs_create ''a'' demo_fs = Some (0, demo_created)" "fs_wf demo_os demo_created"
  "fs_abs demo_created = \<lparr>afiles = [''a'' \<mapsto> []], afds = (\<lambda>_. None)\<rparr>" "fs_rep demo_created"
proof -
  have v: "valid_name ''a''" by (simp add: valid_name_def MAX_FILENAME_LENGTH_def)
  have n: "fs_files demo_fs ''a'' = None" "num_files demo_fs < MAX_NUM_OF_FILES" "0 < free_blocks demo_fs"
    using demo_fs_facts by (simp_all add: fs_abs_def MAX_NUM_OF_FILES_def)
  obtain s' where "fs_create ''a'' demo_fs = Some (0, s')" "fs_wf demo_os s'"
      "fs_abs s' = spec_create ''a'' (fs_abs demo_fs)" "fs_rep s'"
    using fs_create_step [OF demo_fs_facts(1) v n] demo_fs_facts(2) by blast
  then show "fs_create ''a'' demo_fs = Some (0, demo_created)" "fs_wf demo_os demo_created"
      "fs_abs demo_created = \<lparr>afiles = [''a'' \<mapsto> []], afds = (\<lambda>_. None)\<rparr>" "fs_rep demo_created"
    using demo_fs_facts(4) by (simp_all add: demo_created_def spec_create_def)
qed

lemma first_free:
  assumes wf: "fs_wf os s" and "fd_view s 0 = None"
  shows "find_idx (\<lambda>f. \<not> fd_used f) (fd_array s) = Some 0"
proof -
  have "length (fd_array s) = MAX_FILE_DESCRIPTOR" using wf by (rule fs_wfE)
  then obtain f fs where "fd_array s = f # fs" by (cases "fd_array s") (auto simp: MAX_FILE_DESCRIPTOR_def)
  with fd_view_free [OF wf, of 0] assms(2) show ?thesis by (simp add: MAX_FILE_DESCRIPTOR_def)
qed

lemma demo_opened_facts: "fs_open ''a'' demo_created = Some (0, demo_opened)" "fs_wf demo_os demo_opened"
  "fs_abs demo_opened = \<lparr>afiles = [''a'' \<mapsto> []], afds = [0 \<mapsto> (''a'', 0)]\<rparr>"
proof -
  have v: "fd_view demo_created 0 = None" "''a'' \<in> dom (fs_files demo_created)"
    using demo_created_facts(3) by (auto simp: fs_abs_def)
  obtain s' where "fs_open ''a'' demo_created = Some (0, s')" "fs_wf demo_os s'"
      "fs_abs s' = spec_open 0 ''a'' (fs_abs demo_created)"
    using fs_open_step [OF demo_created_facts(2) _ _ v(2) first_free [OF demo_created_facts(2) v(1)]] by auto
  then show "fs_open ''a'' demo_created = Some (0, demo_opened)" "fs_wf demo_os demo_opened"
      "fs_abs demo_opened = \<lparr>afiles = [''a'' \<mapsto> []], afds = [0 \<mapsto> (''a'', 0)]\<rparr>"
    using demo_created_facts(3) by (simp_all add: demo_opened_def spec_open_def)
qed

lemma demo_opened_views: "fd_view demo_opened 0 = Some (''a'', 0)" "fs_files demo_opened ''a'' = Some []"
  "0 < file_nblocks demo_opened ''a''"
proof -
  show "fd_view demo_opened 0 = Some (''a'', 0)" and f: "fs_files demo_opened ''a'' = Some []"
    using demo_opened_facts(3) by (simp_all add: fs_abs_def)
  show "0 < file_nblocks demo_opened ''a''" by (rule fs_files_bound(2) [OF demo_opened_facts(2) f])
qed

lemma demo_written_facts: "fs_write demo_os 0 ''hello'' 5 demo_opened = Some (5, demo_written)"
  "fs_wf demo_os demo_written"
  "fs_abs demo_written = \<lparr>afiles = [''a'' \<mapsto> ''hello''], afds = [0 \<mapsto> (''a'', 5)]\<rparr>"
proof -
  obtain s' where "fs_write demo_os 0 ''hello'' 5 demo_opened = Some (5, s')" "fs_wf demo_os s'"
      "fs_abs s' = spec_write 0 ''hello'' (fs_abs demo_opened)"
    using fs_write_step [OF demo_opened_facts(2) demo_opened_views(1,2), of 5 "''hello''"] demo_opened_views(3)
    by (auto simp: MAX_FILESIZE_def BLOCK_SIZE_def)
  then show "fs_write demo_os 0 ''hello'' 5 demo_opened = Some (5, demo_written)" "fs_wf demo_os demo_written"
      "fs_abs demo_written = \<lparr>afiles = [''a'' \<mapsto> ''hello''], afds = [0 \<mapsto> (''a'', 5)]\<rparr>"
    using demo_opened_facts(3) by (simp_all add: demo_written_def spec_write_def splice_def eval_nat_numeral)
qed

definition demo_rewound :: fs where
  "demo_rewound = snd (the (fs_lseek 0 0 demo_written))"

lemma demo_rewound_facts: "fs_wf demo_os demo_rewound"
  "fs_abs demo_rewound = \<lparr>afiles = [''a'' \<mapsto> ''hello''], afds = [0 \<mapsto> (''a'', 0)]\<rparr>"
proof -
  have v: "fd_view demo_written 0 = Some (''a'', 5)" "fs_files demo_written ''a'' = Some ''hello''"
    using demo_written_facts(3) by (simp_all add: fs_abs_def)
  obtain s' where "fs_lseek 0 0 demo_written = Some (0, s')" "fs_wf demo_os s'"
      "fs_abs s' = spec_seek 0 0 (fs_abs demo_written)"
    using fs_lseek_step [OF demo_written_facts(2) v, of 0] by auto
  then show "fs_wf demo_os demo_rewound"
      "fs_abs demo_rewound = \<lparr>afiles = [''a'' \<mapsto> ''hello''], afds = [0 \<mapsto> (''a'', 0)]\<rparr>"
    using demo_written_facts(3) by (simp_all add: demo_rewound_def spec_seek_def)
qed

text \<open>A disk on which three blocks are free: the memory of the bitmap has three null bytes. The
  file takes one of them.\<close>

definition tight_bitmap :: "byte list" where
  "tight_bitmap = (replicate DISK_BLOCKS (CHR 0x01))[8189 := NUL, 8190 := NUL, 8191 := NUL]"

definition tight_opened :: fs where
  "tight_opened = snd (the (fs_open ''a'' (snd (the (fs_create ''a'' (snd (the (mount_fs demo_os tight_bitmap (Some ''disk'')
     (snd (the (make_fs demo_os (replicate MAX_FILENAME_LENGTH NUL) NUL (Some ''disk'') demo_boot)))))))))))"

lemma tight_bitmap_facts: "length tight_bitmap = DISK_BLOCKS" "card (free_set data_start tight_bitmap) = 3"
proof -
  show "length tight_bitmap = DISK_BLOCKS" by (simp add: tight_bitmap_def)
  have "free_set data_start tight_bitmap = {8189, 8190, 8191}"
  proof (rule set_eqI)
    fix j
    show "j \<in> free_set data_start tight_bitmap \<longleftrightarrow> j \<in> {8189, 8190, 8191}"
      by (cases "j = 8189 \<or> j = 8190 \<or> j = 8191")
        (auto simp: free_set_def tight_bitmap_def data_start_eq nth_list_update nat_eq_iff DISK_BLOCKS_def)
  qed
  then show "card (free_set data_start tight_bitmap) = 3" by simp
qed

lemma tight_opened_facts: "fs_wf demo_os tight_opened" "fd_view tight_opened 0 = Some (''a'', 0)"
  "file_nblocks tight_opened ''a'' = 1" "free_blocks tight_opened = 2"
proof -
  obtain s1 s2 where m: "make_fs demo_os (replicate MAX_FILENAME_LENGTH NUL) NUL (Some ''disk'') demo_boot = Some (0, s1)"
      "mount_fs demo_os tight_bitmap (Some ''disk'') s1 = Some (0, s2)"
      "fs_wf demo_os s2" "fs_abs s2 = \<lparr>afiles = (\<lambda>_. None), afds = (\<lambda>_. None)\<rparr>"
      "free_blocks s2 = 3" "num_files s2 = 0"
    using format_mount [OF demo_os_reliable demo_boot_facts, of "replicate MAX_FILENAME_LENGTH NUL"
        tight_bitmap NUL "''disk''"] tight_bitmap_facts by (metis length_replicate)
  have c: "valid_name ''a''" "fs_files s2 ''a'' = None" "num_files s2 < MAX_NUM_OF_FILES" "0 < free_blocks s2"
    using m(4-6) by (simp_all add: fs_abs_def valid_name_def MAX_FILENAME_LENGTH_def MAX_NUM_OF_FILES_def)
  obtain s3 where s3: "fs_create ''a'' s2 = Some (0, s3)" "fs_wf demo_os s3" "fs_abs s3 = spec_create ''a'' (fs_abs s2)"
      "free_blocks s2 = Suc (free_blocks s3)" "file_nblocks s3 ''a'' = 1"
    using fs_create_step [OF m(3) c] by blast
  have v: "fd_view s3 0 = None" "''a'' \<in> dom (fs_files s3)"
    using s3(3) m(4) by (auto simp: fs_abs_def spec_create_def)
  obtain s4 where s4: "fs_open ''a'' s3 = Some (0, s4)" "fs_wf demo_os s4" "fs_abs s4 = spec_open 0 ''a'' (fs_abs s3)"
      "free_blocks s4 = free_blocks s3" "file_nblocks s4 ''a'' = file_nblocks s3 ''a''"
    using fs_open_step [OF s3(2) _ _ v(2) first_free [OF s3(2) v(1)]] by auto
  have "tight_opened = s4" using m(1,2) s3(1) s4(1) by (simp add: tight_opened_def)
  with s4 s3(4,5) m(5) show "fs_wf demo_os tight_opened" "fd_view tight_opened 0 = Some (''a'', 0)"
      "file_nblocks tight_opened ''a'' = 1" "free_blocks tight_opened = 2"
    by (simp_all add: fs_abs_def spec_open_def)
qed


section \<open>Properties\<close>

text \<open>C1. Simulation: from a well-formed state, every operation of \<^verbatim>\<open>fs.c\<close> whose precondition
  holds is defined (no undefined behaviour), keeps the well-formedness invariant, and returns
  exactly the value, delivers exactly the bytes and makes exactly the change of files and
  descriptors that the abstract operation gives: \<open>Open\<close> the lowest free descriptor, \<open>Read\<close> the
  bytes from the position up to the end of the file, \<open>Write\<close> the number of bytes. Every other
  file and descriptor is unchanged. The abstract \<open>Truncate\<close> is the one of the code, which does
  not move a position beyond the new end (the README says that it is set to the new length).\<close>

theorem fs_simulation:
  assumes "fs_wf os s" "fs_pre op s"
  shows "\<exists>r out s'. fs_exec os op s = Some (r, out, s') \<and> fs_wf os s' \<and>
     spec_exec op (fs_abs s) = (r, out, fs_abs s')"
  using fs_exec_step [OF assms] by blast

theorem fs_simulation_witness:
  "\<exists>s'. fs_exec demo_os (Read 0 100) demo_rewound = Some (5, ''hello'', s') \<and> fs_wf demo_os s' \<and>
     fs_abs s' = \<lparr>afiles = [''a'' \<mapsto> ''hello''], afds = [0 \<mapsto> (''a'', 5)]\<rparr>"
proof -
  have v: "fd_view demo_rewound 0 = Some (''a'', 0)" "fs_files demo_rewound ''a'' = Some ''hello''"
    using demo_rewound_facts(2) by (simp_all add: fs_abs_def)
  then have "fs_pre (Read 0 100) demo_rewound" by (simp add: fs_pre_def fd_pre_def read_room_def BLOCK_SIZE_def)
  from fs_simulation [OF demo_rewound_facts(1) this] show ?thesis
    by (auto simp: demo_rewound_facts(2) spec_exec_def spec_read_def spec_seek_def Let_def eval_nat_numeral)
qed

text \<open>C14. Formatting and mounting a disk gives a well-formed file system with no files and no open
  descriptors.\<close>

theorem make_mount_empty:
  assumes "os_reliable os" "\<not> active (dsk s)" "\<not> mounted s" "length (fd_array s) = MAX_FILE_DESCRIPTOR"
    "length junk_name = MAX_FILENAME_LENGTH" "length junk = DISK_BLOCKS"
  shows "\<exists>s1 s2. make_fs os junk_name junk_type (Some nm) s = Some (0, s1) \<and>
     mount_fs os junk (Some nm) s1 = Some (0, s2) \<and> fs_wf os s2 \<and>
     fs_abs s2 = \<lparr>afiles = (\<lambda>_. None), afds = (\<lambda>_. None)\<rparr> \<and>
     free_blocks s2 = card (free_set data_start junk)"
  using format_mount [OF assms] by metis

theorem make_mount_empty_witness:
  "\<exists>s1 s2. make_fs demo_os (replicate MAX_FILENAME_LENGTH NUL) NUL (Some ''disk'') demo_boot = Some (0, s1) \<and>
     mount_fs demo_os (replicate DISK_BLOCKS NUL) (Some ''disk'') s1 = Some (0, s2) \<and> fs_wf demo_os s2 \<and>
     fs_abs s2 = \<lparr>afiles = (\<lambda>_. None), afds = (\<lambda>_. None)\<rparr> \<and>
     free_blocks s2 = card (free_set data_start (replicate DISK_BLOCKS NUL))"
  by (rule make_mount_empty [OF demo_os_reliable demo_boot_facts]) simp_all

text \<open>C7. Every state reached from a formatted and mounted disk by operations whose preconditions
  hold is well formed.\<close>

theorem reachable_wf:
  assumes "os_reliable os" "\<not> active (dsk s)" "\<not> mounted s" "length (fd_array s) = MAX_FILE_DESCRIPTOR"
    "length junk_name = MAX_FILENAME_LENGTH" "length junk = DISK_BLOCKS"
    "make_fs os junk_name junk_type (Some nm) s = Some (0, s1)" "mount_fs os junk (Some nm) s1 = Some (0, s2)"
    "fs_reach os s2 s3"
  shows "fs_wf os s3"
proof -
  have "fs_wf os s2" using format_mount [OF assms(1-6), of junk_type nm] assms(7,8) by fastforce
  with assms(9) show ?thesis by (rule fs_reach_wf)
qed

theorem reachable_wf_witness: "fs_wf demo_os demo_opened"
proof -
  obtain s1 where s1: "make_fs demo_os (replicate MAX_FILENAME_LENGTH NUL) NUL (Some ''disk'') demo_boot = Some (0, s1)"
      "mount_fs demo_os (replicate DISK_BLOCKS NUL) (Some ''disk'') s1 = Some (0, demo_fs)"
    by (rule demo_fs_run)
  have n: "valid_name ''a''" "fs_files demo_fs ''a'' = None" "num_files demo_fs < MAX_NUM_OF_FILES" "0 < free_blocks demo_fs"
    using demo_fs_facts by (simp_all add: fs_abs_def MAX_NUM_OF_FILES_def valid_name_def MAX_FILENAME_LENGTH_def)
  have "fd_view demo_created 0 = None" using demo_created_facts(3) by (simp add: fs_abs_def)
  from find_idx_SomeD [OF first_free [OF demo_created_facts(2) this]]
  have ex: "list_ex (\<lambda>f. \<not> fd_used f) (fd_array demo_created)" by (auto simp: list_ex_iff)
  have "fs_files demo_created ''a'' \<noteq> None" using demo_created_facts(3) by (simp add: fs_abs_def)
  with ex have pre: "fs_pre (Open ''a'') demo_created" by (simp add: fs_pre_def)
  have "fs_reach demo_os demo_fs demo_created"
    by (rule fs_reach_step [OF fs_reach_refl, where op = "Create ''a''" and r = 0])
      (use n demo_created_facts(1) in \<open>simp_all add: fs_pre_def fs_exec_def\<close>)
  then have "fs_reach demo_os demo_fs demo_opened"
    by (rule fs_reach_step [OF _ pre, where r = 0]) (simp add: fs_exec_def demo_opened_facts(1))
  with s1 show ?thesis
    by (intro reachable_wf [OF demo_os_reliable demo_boot_facts]) simp_all
qed

text \<open>C10. Round trip: bytes written at a position are the bytes read back after seeking to that
  position.\<close>

theorem write_seek_read:
  assumes "fs_wf os s" "fd_view s fildes = Some (nm, off)" "fs_files s nm = Some c" "off \<le> length c"
    "buf \<noteq> []" "off + length buf \<le> nat MAX_FILESIZE"
    "(off + length buf - 1) div BLOCK_SIZE + 1 \<le> file_nblocks s nm + free_blocks s"
  shows "\<exists>s1 s2 s3. fs_write os fildes buf (of_nat (length buf)) s = Some (int (length buf), s1) \<and>
     fs_lseek fildes (int off) s1 = Some (0, s2) \<and>
     fs_read os fildes (of_nat (length buf)) s2 = Some (int (length buf), buf, s3)"
proof -
  let ?n = "of_nat (length buf) :: u64"
  have n: "unat ?n = length buf" using assms(6) by (intro unat_of_nat_small) (simp add: MAX_FILESIZE_def)
  have pos: "0 < length buf" using assms(5) by simp
  obtain s1 where s1: "fs_write os fildes buf ?n s = Some (int (length buf), s1)" "fs_wf os s1"
      "fs_abs s1 = spec_write fildes (take (length buf) buf) (fs_abs s)"
    using fs_write_step [OF assms(1-3), of ?n buf, unfolded n] assms(4,6,7) pos by blast
  let ?c = "splice off buf c"
  have v1: "fd_view s1 fildes = Some (nm, off + length buf)" "fs_files s1 nm = Some ?c"
    using s1(3) assms(2,3) by (simp_all add: fs_abs_def spec_write_def)
  have len: "off + length buf \<le> length ?c" using assms(4) by (simp add: splice_def)
  obtain s2 where s2: "fs_lseek fildes (int off) s1 = Some (0, s2)" "fs_wf os s2"
      "fs_abs s2 = spec_seek fildes off (fs_abs s1)"
    using fs_lseek_step [OF s1(2) v1, of off] len by auto
  have v2: "fd_view s2 fildes = Some (nm, off)" "fs_files s2 nm = Some ?c"
    using s2(3) v1 by (simp_all add: fs_abs_def spec_seek_def)
  have r: "off + length buf \<le> read_room (length ?c)" using len read_room_ge order_trans by blast
  obtain s3 data where s3: "fs_read os fildes ?n s2 = Some (int (length (take (length buf) (drop off ?c))), data, s3)"
      "length data = length buf" "take (length ?c - off) data = take (length buf) (drop off ?c)"
    using fs_read_step [OF s2(2) v2, of ?n, unfolded n, OF pos r] len by (metis add_leD1)
  have "take (length buf) (drop off ?c) = buf" using assms(4) by (simp add: splice_def)
  moreover from this have "data = buf" using s3(2,3) len by simp
  ultimately show ?thesis using s1(1) s2(1) s3(1) by auto
qed

theorem write_seek_read_witness:
  "\<exists>s1 s2 s3. fs_write demo_os 0 ''hello'' (of_nat (length ''hello'')) demo_opened = Some (int (length ''hello''), s1) \<and>
     fs_lseek 0 (int 0) s1 = Some (0, s2) \<and>
     fs_read demo_os 0 (of_nat (length ''hello'')) s2 = Some (int (length ''hello''), ''hello'', s3)"
  by (rule write_seek_read [OF demo_opened_facts(2) demo_opened_views(1,2)])
    (use demo_opened_views(3) in \<open>simp_all add: MAX_FILESIZE_def BLOCK_SIZE_def\<close>)

text \<open>C15. A write that needs more blocks than are free fails with -1 and changes no file, but
  every free block of the disk is now marked as used and chained to the file, whose chain is
  longer by as many blocks as were free.\<close>

theorem write_disk_full:
  assumes "fs_wf os s" "fd_view s fildes = Some (nm, off)" "0 < unat nbyte" "off + unat nbyte \<le> nat MAX_FILESIZE"
    "file_nblocks s nm + free_blocks s < (off + unat nbyte - 1) div BLOCK_SIZE + 1"
  shows "\<exists>s'. fs_write os fildes buf nbyte s = Some (-1, s') \<and> fs_wf os s' \<and> fs_abs s' = fs_abs s \<and>
     free_blocks s' = 0 \<and> file_nblocks s' nm = file_nblocks s nm + free_blocks s"
  using fs_write_full [OF assms(1,2) refl write_arith(2) [OF assms(3,4)]] assms(5)
  unfolding write_arith(3) [OF assms(3,4)] by metis

theorem write_disk_full_witness:
  "\<exists>s'. fs_write demo_os 0 (replicate 20000 (CHR ''x'')) 20000 tight_opened = Some (-1, s') \<and> fs_wf demo_os s' \<and>
     fs_abs s' = fs_abs tight_opened \<and> free_blocks s' = 0 \<and> file_nblocks s' ''a'' = 3"
proof -
  have "\<exists>s'. fs_write demo_os 0 (replicate 20000 (CHR ''x'')) 20000 tight_opened = Some (-1, s') \<and> fs_wf demo_os s' \<and>
     fs_abs s' = fs_abs tight_opened \<and> free_blocks s' = 0 \<and>
     file_nblocks s' ''a'' = file_nblocks tight_opened ''a'' + free_blocks tight_opened"
    by (rule write_disk_full [OF tight_opened_facts(1,2)])
      (simp_all add: tight_opened_facts(3,4) MAX_FILESIZE_def BLOCK_SIZE_def)
  then show ?thesis by (simp add: tight_opened_facts(3,4) numeral_3_eq_3)
qed

text \<open>C16. Writing zero bytes at the start of a file takes every free block of the disk and fails:
  \<open>offset + nbyte - 1\<close> wraps around.\<close>

theorem write_zero_bytes:
  assumes "fs_wf os s" "fd_view s fildes = Some (nm, 0)"
  shows "\<exists>s'. fs_write os fildes buf 0 s = Some (-1, s') \<and> fs_abs s' = fs_abs s \<and> free_blocks s' = 0"
proof -
  have w: "size_of_int (int 0) + 0 = (0 :: u64)" by (simp add: size_of_int_def)
  have "unat ((- 1 :: u64) div size_of_int (int BLOCK_SIZE)) = 2 ^ 52 - 1"
    by (simp add: size_of_int_def BLOCK_SIZE_def unat_div)
  moreover have "file_nblocks s nm + free_blocks s < 2 ^ 52" using blocks_bound [OF assms(1), of nm] by (simp add: DISK_BLOCKS_def)
  ultimately show ?thesis
    using fs_write_full [OF assms, of 0 0] w by (simp add: MAX_FILESIZE_def) metis
qed

theorem write_zero_bytes_witness:
  "\<exists>s'. fs_write demo_os 0 [] 0 demo_opened = Some (-1, s') \<and> fs_abs s' = fs_abs demo_opened \<and> free_blocks s' = 0"
  by (rule write_zero_bytes [OF demo_opened_facts(2) demo_opened_views(1)])

text \<open>C17. A read of \<open>n > 0\<close> bytes at a position within the file that stays within the blocks that
  hold the file (at least one block) returns the bytes of the file from that position, at most
  up to its end. Every longer read is undefined: it copies from beyond the end of the
  allocated buffer.\<close>

theorem read_defined_iff:
  assumes "fs_wf os s" "fd_view s fildes = Some (nm, off)" "fs_files s nm = Some c" "off \<le> length c" "0 < unat nbyte"
  shows "if off + unat nbyte \<le> read_room (length c)
     then \<exists>r data s'. fs_read os fildes nbyte s = Some (r, data, s') \<and>
            r = int (length (take (unat nbyte) (drop off c))) \<and> take (nat r) data = take (unat nbyte) (drop off c) \<and>
            fs_abs s' = spec_seek fildes (off + nat r) (fs_abs s)
     else fs_read os fildes nbyte s = None"
proof (cases "off + unat nbyte \<le> read_room (length c)")
  case True
  from fs_read_step [OF assms(1-3,5) this assms(4)] obtain s' data where
    r: "fs_read os fildes nbyte s = Some (int (length (take (unat nbyte) (drop off c))), data, s')"
      "fs_abs s' = spec_seek fildes (min (length c) (off + unat nbyte)) (fs_abs s)"
      "length data = unat nbyte" "take (length c - off) data = take (unat nbyte) (drop off c)" by blast
  have "off + length (take (unat nbyte) (drop off c)) = min (length c) (off + unat nbyte)" using assms(4) by auto
  with True r(1,2) read_bytes [OF r(3,4)] show ?thesis by auto
next
  case False
  with fs_read_overrun [OF assms(1-3,5)] show ?thesis by simp
qed

theorem read_defined_iff_witness:
  "(\<exists>data s'. fs_read demo_os 0 4096 demo_rewound = Some (5, data, s') \<and> take 5 data = ''hello'') \<and>
   fs_read demo_os 0 4097 demo_rewound = None"
proof -
  have v: "fd_view demo_rewound 0 = Some (''a'', 0)" "fs_files demo_rewound ''a'' = Some ''hello''"
    using demo_rewound_facts(2) by (simp_all add: fs_abs_def)
  show ?thesis
    using read_defined_iff [OF demo_rewound_facts(1) v, of 4096] read_defined_iff [OF demo_rewound_facts(1) v, of 4097]
    by (auto simp: read_room_def BLOCK_SIZE_def)
qed

text \<open>C18. Truncating a file to at most its size keeps its first bytes and the chain of the blocks they
  occupy, but gives no block back to the bitmap, and leaves the position of the descriptor where
  it was even when it is now beyond the end of the file; the README asks for that position to
  be set to the new length.\<close>

theorem truncate_leaks:
  assumes "fs_wf os s" "fd_view s fildes = Some (nm, off)" "fs_files s nm = Some c" "len \<le> length c"
  shows "\<exists>s'. fs_truncate fildes (int len) s = Some (0, s') \<and> fs_wf os s' \<and>
     fs_abs s' = spec_truncate fildes len (fs_abs s) \<and> fd_view s' fildes = Some (nm, off) \<and>
     fs_files s' nm = Some (take len c) \<and> free_blocks s' = free_blocks s \<and>
     file_nblocks s' nm = max 1 ((len + BLOCK_SIZE - 1) div BLOCK_SIZE)"
proof -
  have "fd_view s' fildes = Some (nm, off)" "fs_files s' nm = Some (take len c)"
    if "fs_abs s' = spec_truncate fildes len (fs_abs s)" for s'
    using that assms(2,3) by (simp_all add: fs_abs_def spec_truncate_def)
  then show ?thesis using fs_truncate_step [OF assms] by metis
qed

theorem truncate_leaks_witness:
  "\<exists>s'. fs_truncate 0 (int 2) demo_written = Some (0, s') \<and> fs_wf demo_os s' \<and>
     fs_abs s' = spec_truncate 0 2 (fs_abs demo_written) \<and> fd_view s' 0 = Some (''a'', 5) \<and>
     fs_files s' ''a'' = Some (take 2 ''hello'') \<and> free_blocks s' = free_blocks demo_written \<and>
     file_nblocks s' ''a'' = max 1 ((2 + BLOCK_SIZE - 1) div BLOCK_SIZE)"
proof -
  have v: "fd_view demo_written 0 = Some (''a'', 5)" "fs_files demo_written ''a'' = Some ''hello''"
    using demo_written_facts(3) by (simp_all add: fs_abs_def)
  show ?thesis by (rule truncate_leaks [OF demo_written_facts(2) v]) simp
qed

text \<open>C19. Unmounting and mounting again keeps the files in the first 16 directory slots, with their
  contents, and loses every other file: \<open>mount_fs\<close> copies \<open>sizeof(Directory) * 64\<close> bytes where
  \<open>Directory\<close> is a pointer. The bitmap is not restored: it is the memory that \<open>malloc\<close>
  returned, two bytes apart.\<close>

theorem remount_keeps_16:
  assumes "fs_wf os s" "fs_rep s" "length junk = DISK_BLOCKS"
  shows "\<exists>s1 s2 bm. umount_fs os (Some (handle (dsk s))) s = Some (0, s1) \<and>
     mount_fs os junk (Some (handle (dsk s))) s1 = Some (0, s2) \<and>
     (\<forall>nm. fs_files s2 nm = (case dir_slot s nm of Some i \<Rightarrow> if i < 16 then fs_files s nm else None | None \<Rightarrow> None)) \<and>
     used_block_bitmap s2 = Some bm \<and> drop 2 bm = drop 2 junk"
proof -
  from assms(1) obtain T D where T: "Table s = Some T" and D: "Directory s = Some D" by (auto elim: fs_wfE)
  show ?thesis
    using remount_ok [OF assms(1,2) T D assms(3)] remount_files [OF assms(1) T D]
    unfolding mounted_entries_eq by metis
qed

theorem remount_keeps_16_witness:
  "\<exists>s1 s2 bm. umount_fs demo_os (Some (handle (dsk demo_created))) demo_created = Some (0, s1) \<and>
     mount_fs demo_os (replicate DISK_BLOCKS (CHR 0x7F)) (Some (handle (dsk demo_created))) s1 = Some (0, s2) \<and>
     (\<forall>nm. fs_files s2 nm = (case dir_slot demo_created nm of
        Some i \<Rightarrow> if i < 16 then fs_files demo_created nm else None | None \<Rightarrow> None)) \<and>
     used_block_bitmap s2 = Some bm \<and> drop 2 bm = drop 2 (replicate DISK_BLOCKS (CHR 0x7F))"
  by (rule remount_keeps_16 [OF demo_created_facts(2,4)]) simp

text \<open>C20. Creating a file and deleting it again gives back the same files and descriptors and the
  same number of free blocks.\<close>

theorem create_delete:
  assumes "fs_wf os s" "valid_name nm" "fs_files s nm = None" "num_files s < MAX_NUM_OF_FILES" "0 < free_blocks s"
  shows "\<exists>s1 s2. fs_create nm s = Some (0, s1) \<and> fs_delete nm s1 = Some (0, s2) \<and> fs_wf os s2 \<and>
     fs_abs s2 = fs_abs s \<and> free_blocks s2 = free_blocks s"
proof -
  obtain s1 where s1: "fs_create nm s = Some (0, s1)" "fs_wf os s1" "fs_abs s1 = spec_create nm (fs_abs s)"
      "free_blocks s = Suc (free_blocks s1)" "file_nblocks s1 nm = 1"
    using fs_create_step [OF assms] by blast
  have f1: "fs_files s1 nm = Some []" using s1(3) by (simp add: fs_abs_def spec_create_def)
  have cl: "fd_view s1 fd \<noteq> Some (nm, off)" for fd off
  proof
    assume "fd_view s1 fd = Some (nm, off)"
    then have v: "fd_view s fd = Some (nm, off)" using s1(3) by (simp add: fs_abs_def spec_create_def)
    from assms(1) v have "fs_files s nm \<noteq> None" by (auto elim!: fd_viewE)
    with assms(3) show False by simp
  qed
  have nm: "nm \<noteq> []" "NUL \<notin> set nm" using assms(2) by (auto simp: valid_name_def)
  obtain s2 where s2: "fs_delete nm s1 = Some (0, s2)" "fs_wf os s2" "fs_abs s2 = spec_delete nm (fs_abs s1)"
      "free_blocks s2 = free_blocks s1 + file_nblocks s1 nm"
    using fs_delete_step [OF s1(2) nm f1 cl] by blast
  have "fs_abs s2 = fs_abs s"
    using s2(3) s1(3) assms(3) by (simp add: spec_delete_def spec_create_def fs_abs_def fun_upd_idem)
  with s1 s2 show ?thesis by auto
qed

theorem create_delete_witness:
  "\<exists>s1 s2. fs_create ''a'' demo_fs = Some (0, s1) \<and> fs_delete ''a'' s1 = Some (0, s2) \<and> fs_wf demo_os s2 \<and>
     fs_abs s2 = fs_abs demo_fs \<and> free_blocks s2 = free_blocks demo_fs"
  by (rule create_delete [OF demo_fs_facts(1)])
    (use demo_fs_facts in \<open>simp_all add: fs_abs_def valid_name_def MAX_FILENAME_LENGTH_def MAX_NUM_OF_FILES_def\<close>)

text \<open>C21. \<open>fs_create\<close> refuses a name that is too long, a name that exists, a full directory and a
  full disk, and then changes nothing.\<close>

theorem create_errors:
  assumes "fs_wf os s" "NUL \<notin> set nm"
    and "length nm > MAX_FILENAME_LENGTH \<or> fs_files s nm \<noteq> None \<or> num_files s = MAX_NUM_OF_FILES \<or> free_blocks s = 0"
  shows "fs_create nm s = Some (-1, s)"
proof -
  from assms(1) obtain T bm D where w: "mounted s" "dev_ready os (dsk s)" "super s = Some make_super"
    "Table s = Some T" "used_block_bitmap s = Some bm" "Directory s = Some D"
    "length T = DISK_BLOCKS" "length bm = DISK_BLOCKS" "length D = MAX_NUM_OF_FILES"
    "length (fd_array s) = MAX_FILE_DESCRIPTOR" "files_ok T bm D" "names_ok D" "fds_ok D (fd_array s)"
    by (rule fs_wfE)
  have scan: "create_scan nm D 0 = Some (if fs_files s nm \<noteq> None then None else Some (length (filter de_used D)))"
    using create_scan_spec [OF assms(2), of D 0] w(12) fs_files_None [OF w(4,6), of nm] by (auto simp: names_ok_def)
  have "create_loop nm data_start T bm D = Some (-1, T, bm, D)" if "free_blocks s = 0"
    by (rule create_loop_full) (use that w(5,8) data_start_range in \<open>auto simp: free_blocks_def\<close>)
  with assms(3) scan w(3-6) show ?thesis by (auto simp: fs_create_def num_files_def)
qed

theorem create_errors_witness: "fs_create ''a'' demo_created = Some (-1, demo_created)"
  by (rule create_errors [OF demo_created_facts(2)])
    (use demo_created_facts(3) in \<open>simp_all add: fs_abs_def\<close>)

text \<open>\<open>fs_listfiles\<close> returns the names of the files, each once.\<close>

theorem listfiles_names:
  assumes "fs_wf os s"
  shows "\<exists>names. fs_listfiles s = Some (0, names) \<and> distinct names \<and> set names = dom (fs_files s)"
proof -
  from assms obtain T D where w: "Table s = Some T" "Directory s = Some D" "names_ok D" by (auto elim: fs_wfE)
  have "distinct (map (\<lambda>e. cstr (de_name e)) (filter de_used D))" by (rule names_ok_distinct [OF w(3)])
  moreover have "set (map (\<lambda>e. cstr (de_name e)) (filter de_used D)) = dom (fs_files s)"
    using fs_files_None [OF w(1,2)] by (auto simp: dom_def)
  ultimately show ?thesis using w(2) by (auto simp: fs_listfiles_def)
qed

theorem listfiles_names_witness:
  "\<exists>names. fs_listfiles demo_opened = Some (0, names) \<and> distinct names \<and> set names = dom (fs_files demo_opened)"
  by (rule listfiles_names [OF demo_opened_facts(2)])

text \<open>The bounds check of the descriptor lets 32 through, one past the end of \<open>fd_array\<close>:
  reading, writing, seeking and truncating with it have no defined behaviour.\<close>

theorem descriptor_32:
  assumes "fs_wf os s"
  shows "fs_read os 32 nbyte s = None \<and> fs_write os 32 buf nbyte s = None \<and>
    fs_lseek 32 off s = None \<and> fs_truncate 32 len s = None"
proof -
  have n: "array_get (fd_array s) 32 = None" using assms by (auto simp: array_get_def MAX_FILE_DESCRIPTOR_def elim!: fs_wfE)
  show ?thesis
    by (simp add: fs_read_def fs_write_def fs_lseek_def fs_truncate_def n MAX_FILE_DESCRIPTOR_def)
qed

theorem descriptor_32_witness:
  "fs_read demo_os 32 1 demo_opened = None \<and> fs_write demo_os 32 ''x'' 1 demo_opened = None \<and>
    fs_lseek 32 0 demo_opened = None \<and> fs_truncate 32 0 demo_opened = None"
  by (rule descriptor_32 [OF demo_opened_facts(2)])

end
