(* ===== verification/TLS.thy ===== *)
theory TLS
  imports Prelude
begin

text \<open>
  Project 4, thread-local storage (\<^verbatim>\<open>tls.c\<close>). Pointers are natural numbers with 0 as \<open>NULL\<close>;
  each kind of heap object has its own map, from which \<open>free\<close> removes the object, so that
  using a dangling pointer has no result. \<open>malloc\<close> returns a pointer never used before.
  The result \<open>None\<close> stands for undefined behaviour, a segmentation fault inside the library,
  \<open>exit(1)\<close> and a loop that does not end. The calling thread, \<open>pthread_self()\<close>, is an
  argument. The system calls are a parameter: the page size and the address that \<open>mmap\<close>
  returns, or none when it fails.
\<close>

unbundle bit_operations_syntax

section \<open>Data\<close>

type_synonym pthread_t = u64

definition HASH :: nat where
  "HASH = 23"

datatype prot = PROT_NONE | PROT_READ | PROT_WRITE

text \<open>A mapped page of the address space.\<close>

record region =
  rprot :: prot
  rbytes :: "byte list"

record Page =
  address :: nat
  ref_count :: int

record ThreadLocalStorage =
  tsize :: u32
  page_num :: nat
  tpages :: "nat list"

record Item =
  itid :: pthread_t
  itls :: nat
  inext :: nat

record tls_env =
  pagesize :: nat
  mmap_addr :: "nat \<Rightarrow> (nat \<rightharpoonup> region) \<Rightarrow> nat option"

record tls_state =
  Table :: "nat list"
  page_size :: nat
  is_first_call :: bool
  items :: "nat \<rightharpoonup> Item"
  tlss :: "nat \<rightharpoonup> ThreadLocalStorage"
  pgs :: "nat \<rightharpoonup> Page"
  maps :: "nat \<rightharpoonup> region"
  fresh :: nat
  mmaps :: nat

definition tls_boot :: tls_state where
  "tls_boot = \<lparr>Table = replicate HASH 0, page_size = 0, is_first_call = True, items = (\<lambda>_. None),
     tlss = (\<lambda>_. None), pgs = (\<lambda>_. None), maps = (\<lambda>_. None), fresh = 1, mmaps = 0\<rparr>"


section \<open>The hash table\<close>

definition HashFunction :: "pthread_t \<Rightarrow> nat" where
  "HashFunction t = unat ((ucast t :: u32) mod of_nat HASH)"

partial_function (option) Find_loop :: "(nat \<rightharpoonup> Item) \<Rightarrow> pthread_t \<Rightarrow> nat \<Rightarrow> nat option" where
  "Find_loop H t p =
     (if p = 0 then Some 0
      else do {
        e \<leftarrow> H p;
        if itid e = t then Some p else Find_loop H t (inext e)
      })"

definition Find :: "pthread_t \<Rightarrow> tls_state \<Rightarrow> nat option" where
  "Find t s = do {
     p \<leftarrow> array_get (Table s) (int (HashFunction t));
     Find_loop (items s) t p
   }"

definition Add :: "pthread_t \<Rightarrow> nat \<Rightarrow> tls_state \<Rightarrow> (bool \<times> tls_state) option" where
  "Add self newElement s = do {
     p \<leftarrow> array_get (Table s) (int (HashFunction self));
     e \<leftarrow> items s newElement;
     Some (True, s\<lparr>Table := (Table s)[HashFunction self := newElement],
                   items := (items s)(newElement \<mapsto> e\<lparr>inext := p\<rparr>)\<rparr>)
   }"

partial_function (option) Remove_loop :: "(nat \<rightharpoonup> Item) \<Rightarrow> pthread_t \<Rightarrow> nat \<Rightarrow> nat \<Rightarrow> (nat \<times> nat) option" where
  "Remove_loop H t temp current =
     (if current = 0 then Some (temp, current)
      else do {
        e \<leftarrow> H current;
        if itid e = t then Some (temp, current) else Remove_loop H t current (inext e)
      })"

text \<open>\<open>temp = current->next\<close> assigns the local variable: the table does not change.\<close>

definition Remove :: "pthread_t \<Rightarrow> tls_state \<Rightarrow> nat option" where
  "Remove t s = do {
     p \<leftarrow> array_get (Table s) (int (HashFunction t));
     if p \<noteq> 0
     then do {
       (temp, current) \<leftarrow> Remove_loop (items s) t 0 p;
       if temp \<noteq> 0 then do { e \<leftarrow> items s current; Some current } else Some current
     }
     else Some 0
   }"


section \<open>Memory protection and page faults\<close>

definition mprotect :: "nat \<Rightarrow> prot \<Rightarrow> tls_state \<Rightarrow> tls_state option" where
  "mprotect a pr s = do {
     r \<leftarrow> maps s a;
     Some (s\<lparr>maps := (maps s)(a \<mapsto> r\<lparr>rprot := pr\<rparr>)\<rparr>)
   }"

definition tls_unprotect :: "nat \<Rightarrow> prot \<Rightarrow> tls_state \<Rightarrow> tls_state option" where
  "tls_unprotect p pr s = do { pg \<leftarrow> pgs s p; mprotect (address pg) pr s }"

definition tls_protect :: "nat \<Rightarrow> tls_state \<Rightarrow> tls_state option" where
  "tls_protect p s = do { pg \<leftarrow> pgs s p; mprotect (address pg) PROT_NONE s }"

fun protect_pages :: "nat list \<Rightarrow> prot \<Rightarrow> tls_state \<Rightarrow> tls_state option" where
  "protect_pages [] pr s = Some s"
| "protect_pages (p # ps) pr s = do { s' \<leftarrow> tls_unprotect p pr s; protect_pages ps pr s' }"

datatype fault_action = Thread_Exit | Raise_Default

fun fault_pages :: "(nat \<rightharpoonup> Page) \<Rightarrow> nat \<Rightarrow> nat list \<Rightarrow> bool option" where
  "fault_pages P a [] = Some False"
| "fault_pages P a (p # ps) = do {
     pg \<leftarrow> P p;
     if address pg = a then Some True else fault_pages P a ps
   }"

partial_function (option) fault_items :: "tls_state \<Rightarrow> nat \<Rightarrow> nat \<Rightarrow> bool option" where
  "fault_items s a p =
     (if p = 0 then Some False
      else do {
        e \<leftarrow> items s p;
        t \<leftarrow> tlss s (itls e);
        hit \<leftarrow> fault_pages (pgs s) a (take (page_num t) (tpages t));
        if hit then Some True else fault_items s a (inext e)
      })"

fun fault_table :: "tls_state \<Rightarrow> nat \<Rightarrow> nat list \<Rightarrow> bool option" where
  "fault_table s a [] = Some False"
| "fault_table s a (p # ps) = do {
     hit \<leftarrow> fault_items s a p;
     if hit then Some True else fault_table s a ps
   }"

definition page_of :: "nat \<Rightarrow> nat \<Rightarrow> nat" where
  "page_of psz a = unat ((of_nat a :: u64) AND NOT (of_nat psz - 1))"

definition tls_handle_page_fault :: "nat \<Rightarrow> tls_state \<Rightarrow> fault_action option" where
  "tls_handle_page_fault si_addr s = do {
     hit \<leftarrow> fault_table s (page_of (page_size s) si_addr) (Table s);
     Some (if hit then Thread_Exit else Raise_Default)
   }"


section \<open>Creating and destroying\<close>

definition tls_init :: "tls_env \<Rightarrow> tls_state \<Rightarrow> tls_state" where
  "tls_init env s = s\<lparr>page_size := pagesize env\<rparr>"

definition mmap :: "tls_env \<Rightarrow> prot \<Rightarrow> tls_state \<Rightarrow> nat option \<times> tls_state" where
  "mmap env pr s =
     (case mmap_addr env (mmaps s) (maps s) of
        None \<Rightarrow> (None, s\<lparr>mmaps := mmaps s + 1\<rparr>)
      | Some a \<Rightarrow> (Some a, s\<lparr>mmaps := mmaps s + 1,
                           maps := (maps s)(a \<mapsto> \<lparr>rprot = pr, rbytes = replicate (page_size s) NUL\<rparr>)\<rparr>))"

text \<open>The loop that makes the pages; \<open>None\<close> inside is the return of -1 after a failed \<open>mmap\<close>.\<close>

fun create_pages :: "tls_env \<Rightarrow> nat \<Rightarrow> tls_state \<Rightarrow> nat list option \<times> tls_state" where
  "create_pages env 0 s = (Some [], s)"
| "create_pages env (Suc n) s =
     (let page = fresh s; (m, s1) = mmap env PROT_NONE (s\<lparr>fresh := fresh s + 1\<rparr>) in
      case m of
        None \<Rightarrow> (None, s1)
      | Some a \<Rightarrow>
          let (ps, s2) = create_pages env n (s1\<lparr>pgs := (pgs s1)(page \<mapsto> \<lparr>address = a, ref_count = 1\<rparr>)\<rparr>)
          in (map_option ((#) page) ps, s2))"

definition tls_create :: "tls_env \<Rightarrow> pthread_t \<Rightarrow> u32 \<Rightarrow> tls_state \<Rightarrow> (int \<times> tls_state) option" where
  "tls_create env self sz s0 = (
     let s = (if is_first_call s0 then (tls_init env s0)\<lparr>is_first_call := False\<rparr> else s0) in
     if sz \<le> 0 then Some (-1, s)
     else do {
       f \<leftarrow> Find self s;
       if f \<noteq> 0 then Some (-1, s)
       else if page_size s = 0 then None
       else
         let tp = fresh s;
             n = unat sz div page_size s + (if unat sz mod page_size s \<noteq> 0 then 1 else 0);
             (m, s1) = create_pages env n (s\<lparr>fresh := fresh s + 1\<rparr>)
         in case m of
              None \<Rightarrow> Some (-1, s1)
            | Some ps \<Rightarrow> do {
                let ip = fresh s1;
                (ok, s2) \<leftarrow> Add self ip (s1\<lparr>fresh := fresh s1 + 1,
                   tlss := (tlss s1)(tp \<mapsto> \<lparr>tsize = sz, page_num = n, tpages = ps\<rparr>),
                   items := (items s1)(ip \<mapsto> \<lparr>itid = self, itls = tp, inext = 0\<rparr>)\<rparr>);
                Some (if ok then 0 else -1, s2)
              }
     })"

fun destroy_pages :: "nat list \<Rightarrow> tls_state \<Rightarrow> tls_state option" where
  "destroy_pages [] s = Some s"
| "destroy_pages (p # ps) s = do {
     pg \<leftarrow> pgs s p;
     if ref_count pg = 1
     then destroy_pages ps (s\<lparr>maps := (maps s)(address pg := None), pgs := (pgs s)(p := None)\<rparr>)
     else destroy_pages ps (s\<lparr>pgs := (pgs s)(p \<mapsto> pg\<lparr>ref_count := ref_count pg - 1\<rparr>)\<rparr>)
   }"

definition tls_destroy :: "pthread_t \<Rightarrow> tls_state \<Rightarrow> (int \<times> tls_state) option" where
  "tls_destroy self s = do {
     element \<leftarrow> Remove self s;
     if element = 0 then Some (-1, s)
     else do {
       e \<leftarrow> items s element;
       t \<leftarrow> tlss s (itls e);
       s1 \<leftarrow> destroy_pages (take (page_num t) (tpages t)) s;
       Some (0, s1\<lparr>tlss := (tlss s1)(itls e := None), items := (items s1)(element := None)\<rparr>)
     }
   }"


section \<open>Writing, reading and cloning\<close>

text \<open>The page and the position in it of a byte: \<open>index\<close> is an \<open>int\<close>, extended to the 64 bits
  of \<open>page_size\<close>, and the results are stored in an \<open>unsigned int\<close>.\<close>

definition byte_pos :: "nat \<Rightarrow> u32 \<Rightarrow> nat \<times> nat" where
  "byte_pos psz index =
     (let i = unat (scast index :: u64) in (i div psz mod 2 ^ 32, i mod psz mod 2 ^ 32))"

definition load_byte :: "nat \<Rightarrow> nat \<Rightarrow> tls_state \<Rightarrow> byte option" where
  "load_byte a off s = do {
     r \<leftarrow> maps s a;
     if rprot r = PROT_NONE then None else array_get (rbytes r) (int off)
   }"

definition store_byte :: "nat \<Rightarrow> nat \<Rightarrow> byte \<Rightarrow> tls_state \<Rightarrow> tls_state option" where
  "store_byte a off b s = do {
     r \<leftarrow> maps s a;
     if rprot r \<noteq> PROT_WRITE then None
     else do {
       bs \<leftarrow> array_set (rbytes r) (int off) b;
       Some (s\<lparr>maps := (maps s)(a \<mapsto> r\<lparr>rbytes := bs\<rparr>)\<rparr>)
     }
   }"

text \<open>The private copy of a shared page: the copy's page pointer and the new state.\<close>

definition copy_page :: "tls_env \<Rightarrow> nat \<Rightarrow> nat \<Rightarrow> nat \<Rightarrow> tls_state \<Rightarrow> (nat \<times> tls_state) option" where
  "copy_page env tp pn page s = do {
     let copy = fresh s;
     let (m, s1) = mmap env PROT_WRITE (s\<lparr>fresh := fresh s + 1\<rparr>);
     a \<leftarrow> m;
     pg \<leftarrow> pgs s1 page;
     r \<leftarrow> maps s1 (address pg);
     if rprot r = PROT_NONE then None
     else do {
       t \<leftarrow> tlss s1 tp;
       s2 \<leftarrow> tls_protect page (s1\<lparr>
         maps := (maps s1)(a \<mapsto> \<lparr>rprot = PROT_WRITE, rbytes = rbytes r\<rparr>),
         tlss := (tlss s1)(tp \<mapsto> t\<lparr>tpages := (tpages t)[pn := copy]\<rparr>),
         pgs := (pgs s1)(copy \<mapsto> \<lparr>address = a, ref_count = 1\<rparr>, page \<mapsto> pg\<lparr>ref_count := ref_count pg - 1\<rparr>)\<rparr>);
       Some (copy, s2)
     }
   }"

definition write_byte :: "tls_env \<Rightarrow> nat \<Rightarrow> u32 \<Rightarrow> byte \<Rightarrow> tls_state \<Rightarrow> tls_state option" where
  "write_byte env tp index b s = do {
     let (pn, po) = byte_pos (page_size s) index;
     t \<leftarrow> tlss s tp;
     page \<leftarrow> array_get (tpages t) (int pn);
     pg \<leftarrow> pgs s page;
     (page', s1) \<leftarrow> (if ref_count pg > 1 then copy_page env tp pn page s else Some (page, s));
     pg' \<leftarrow> pgs s1 page';
     store_byte (address pg') po b s1
   }"

function write_loop :: "tls_env \<Rightarrow> nat \<Rightarrow> nat \<Rightarrow> u32 \<Rightarrow> u32 \<Rightarrow> byte list \<Rightarrow> tls_state \<Rightarrow> tls_state option" where
  "write_loop env tp count index bound buffer s =
     (if index < bound
      then do {
        b \<leftarrow> array_get buffer (int count);
        s' \<leftarrow> write_byte env tp index b s;
        if index = 0x7FFFFFFF then None
        else write_loop env tp (count + 1) (index + 1) bound buffer s'
      }
      else Some s)"
  by pat_completeness auto
termination
  by (relation "measure (\<lambda>(env, tp, count, index, bound, buffer, s). unat bound - unat index)")
    (auto simp: unat_Suc_less word_less_nat_alt [of _ "_ :: u32"])

definition tls_write :: "tls_env \<Rightarrow> pthread_t \<Rightarrow> u32 \<Rightarrow> u32 \<Rightarrow> byte list \<Rightarrow> tls_state \<Rightarrow> (int \<times> tls_state) option" where
  "tls_write env self offset len buffer s = do {
     element \<leftarrow> Find self s;
     if element = 0 then Some (-1, s)
     else do {
       e \<leftarrow> items s element;
       t \<leftarrow> tlss s (itls e);
       if offset + len > tsize t then Some (-1, s)
       else do {
         s1 \<leftarrow> protect_pages (take (page_num t) (tpages t)) PROT_WRITE s;
         s2 \<leftarrow> write_loop env (itls e) 0 offset (offset + len) buffer s1;
         t' \<leftarrow> tlss s2 (itls e);
         s3 \<leftarrow> protect_pages (take (page_num t') (tpages t')) PROT_NONE s2;
         Some (0, s3)
       }
     }
   }"

definition read_byte :: "nat \<Rightarrow> u32 \<Rightarrow> tls_state \<Rightarrow> byte option" where
  "read_byte tp index s = do {
     let (pn, po) = byte_pos (page_size s) index;
     t \<leftarrow> tlss s tp;
     page \<leftarrow> array_get (tpages t) (int pn);
     pg \<leftarrow> pgs s page;
     load_byte (address pg) po s
   }"

text \<open>The bytes stored to \<open>buffer[0]\<close>, \<open>buffer[1]\<close>, \<dots>, which the caller provides.\<close>

function read_loop :: "nat \<Rightarrow> u32 \<Rightarrow> u32 \<Rightarrow> tls_state \<Rightarrow> byte list option" where
  "read_loop tp index bound s =
     (if index < bound
      then do {
        b \<leftarrow> read_byte tp index s;
        if index = 0x7FFFFFFF then None
        else do { bs \<leftarrow> read_loop tp (index + 1) bound s; Some (b # bs) }
      }
      else Some [])"
  by pat_completeness auto
termination
  by (relation "measure (\<lambda>(tp, index, bound, s). unat bound - unat index)")
    (auto simp: unat_Suc_less word_less_nat_alt [of _ "_ :: u32"])

declare write_loop.simps [simp del] read_loop.simps [simp del]

definition tls_read :: "pthread_t \<Rightarrow> u32 \<Rightarrow> u32 \<Rightarrow> tls_state \<Rightarrow> (int \<times> byte list \<times> tls_state) option" where
  "tls_read self offset len s = do {
     element \<leftarrow> Find self s;
     if element = 0 then Some (-1, [], s)
     else do {
       e \<leftarrow> items s element;
       t \<leftarrow> tlss s (itls e);
       if offset + len > tsize t then Some (-1, [], s)
       else do {
         s1 \<leftarrow> protect_pages (take (page_num t) (tpages t)) PROT_READ s;
         bs \<leftarrow> read_loop (itls e) offset (offset + len) s1;
         s2 \<leftarrow> protect_pages (take (page_num t) (tpages t)) PROT_NONE s1;
         Some (0, bs, s2)
       }
     }
   }"

fun share_pages :: "nat list \<Rightarrow> tls_state \<Rightarrow> tls_state option" where
  "share_pages [] s = Some s"
| "share_pages (p # ps) s = do {
     pg \<leftarrow> pgs s p;
     share_pages ps (s\<lparr>pgs := (pgs s)(p \<mapsto> pg\<lparr>ref_count := ref_count pg + 1\<rparr>)\<rparr>)
   }"

definition tls_clone :: "pthread_t \<Rightarrow> pthread_t \<Rightarrow> tls_state \<Rightarrow> (int \<times> tls_state) option" where
  "tls_clone self tid s = do {
     clone_element \<leftarrow> Find self s;
     target_element \<leftarrow> Find tid s;
     if clone_element \<noteq> 0 \<or> target_element = 0 then Some (-1, s)
     else do {
       e \<leftarrow> items s target_element;
       t \<leftarrow> tlss s (itls e);
       s1 \<leftarrow> share_pages (take (page_num t) (tpages t)) s;
       let ip = fresh s1;
       let tp = fresh s1 + 1;
       (ok, s2) \<leftarrow> Add self ip (s1\<lparr>fresh := fresh s1 + 2,
          tlss := (tlss s1)(tp \<mapsto> t\<lparr>tpages := take (page_num t) (tpages t)\<rparr>),
          items := (items s1)(ip \<mapsto> \<lparr>itid = self, itls = tp, inext = 0\<rparr>)\<rparr>);
       Some (if ok then 0 else -1, s2)
     }
   }"

end
