(* ===== verification/TLS_Table.thy ===== *)
theory TLS_Table
  imports TLS
begin

text \<open>
  The hash table of \<^verbatim>\<open>tls.c\<close> as a map from threads to storage areas. The locale \<open>tid_map\<close>
  is what the rest of the library relies on; \<open>Find\<close> and \<open>Add\<close> implement it. \<open>Remove\<close> does not
  unlink anything.
\<close>

section \<open>The interface\<close>

locale tid_map =
  fixes ok :: "'s \<Rightarrow> bool"
    and avail :: "'s \<Rightarrow> pthread_t \<Rightarrow> nat \<Rightarrow> bool"
    and lookup :: "'s \<Rightarrow> pthread_t \<rightharpoonup> nat"
    and ins :: "pthread_t \<Rightarrow> nat \<Rightarrow> nat \<Rightarrow> 's \<Rightarrow> 's"
  assumes ins_ok: "ok s \<Longrightarrow> avail s t p \<Longrightarrow> ok (ins t v p s)"
    and lookup_ins: "ok s \<Longrightarrow> avail s t p \<Longrightarrow> lookup (ins t v p s) t' = (if t' = t then Some v else lookup s t')"
begin

definition injective :: "'s \<Rightarrow> bool" where
  "injective s \<longleftrightarrow> (\<forall>t t' v. lookup s t = Some v \<longrightarrow> lookup s t' = Some v \<longrightarrow> t = t')"

lemma injectiveD: "injective s \<Longrightarrow> lookup s t = Some v \<Longrightarrow> lookup s t' = Some v \<Longrightarrow> t = t'"
  by (simp add: injective_def)

lemma lookup_ins_upd: "ok s \<Longrightarrow> avail s t p \<Longrightarrow> lookup (ins t v p s) = (lookup s)(t \<mapsto> v)"
  by (auto simp: lookup_ins)

lemma ins_injective:
  assumes "ok s" "avail s t p" "injective s" "\<And>t'. lookup s t' \<noteq> Some v"
  shows "injective (ins t v p s)"
  using assms unfolding injective_def lookup_ins_upd [OF assms(1,2)] by (auto split: if_splits)

end


section \<open>Linked lists of items\<close>

fun bucket :: "(nat \<rightharpoonup> Item) \<Rightarrow> nat \<Rightarrow> nat list \<Rightarrow> bool" where
  "bucket H p [] \<longleftrightarrow> p = 0"
| "bucket H p (q # qs) \<longleftrightarrow> p = q \<and> q \<noteq> 0 \<and> (case H q of None \<Rightarrow> False | Some e \<Rightarrow> bucket H (inext e) qs)"

lemma bucket_dom: "bucket H p ps \<Longrightarrow> q \<in> set ps \<Longrightarrow> q \<noteq> 0 \<and> H q \<noteq> None"
  by (induction H p ps rule: bucket.induct) (auto split: option.splits)

lemma bucket_unique: "bucket H p ps \<Longrightarrow> bucket H p qs \<Longrightarrow> ps = qs"
proof (induction H p ps arbitrary: qs rule: bucket.induct)
  case (1 H p)
  then show ?case by (cases qs) auto
next
  case (2 H p q ps)
  then show ?case by (cases qs) (auto split: option.splits)
qed

lemma bucket_upd_other: "q \<notin> set ps \<Longrightarrow> bucket (H(q := x)) p ps = bucket H p ps"
  by (induction H p ps rule: bucket.induct) (auto split: option.splits)

lemma Find_loop_bucket:
  "bucket H p ps \<Longrightarrow>
     Find_loop H t p = Some (case find (\<lambda>q. itid (the (H q)) = t) ps of None \<Rightarrow> 0 | Some q \<Rightarrow> q)"
proof (induction H p ps rule: bucket.induct)
  case (1 H p)
  then show ?case by (subst Find_loop.simps) simp
next
  case (2 H p q qs)
  then obtain e where "p = q" "q \<noteq> 0" "H q = Some e" "bucket H (inext e) qs" by (auto split: option.splits)
  with "2.IH" [of e] show ?case by (subst Find_loop.simps) auto
qed

lemma Remove_loop_bucket:
  "bucket H p ps \<Longrightarrow>
     Remove_loop H t r p = Some (last (r # takeWhile (\<lambda>q. itid (the (H q)) \<noteq> t) ps),
                                 case find (\<lambda>q. itid (the (H q)) = t) ps of None \<Rightarrow> 0 | Some q \<Rightarrow> q)"
proof (induction H p ps arbitrary: r rule: bucket.induct)
  case (1 H p)
  then show ?case by (subst Remove_loop.simps) simp
next
  case (2 H p q qs)
  then obtain e where "p = q" "q \<noteq> 0" "H q = Some e" "bucket H (inext e) qs" by (auto split: option.splits)
  with "2.IH" [of e] show ?case by (subst Remove_loop.simps) auto
qed

definition chain_ok :: "tls_state \<Rightarrow> nat \<Rightarrow> nat list \<Rightarrow> bool" where
  "chain_ok s i ps \<longleftrightarrow> bucket (items s) (Table s ! i) ps \<and>
     (\<forall>q\<in>set ps. HashFunction (itid (the (items s q))) = i) \<and> distinct (map (\<lambda>q. itid (the (items s q))) ps)"

definition table_ok :: "tls_state \<Rightarrow> bool" where
  "table_ok s \<longleftrightarrow> length (Table s) = HASH \<and> (\<forall>i<HASH. \<exists>ps. chain_ok s i ps)"

lemma table_okE:
  assumes "table_ok s" "i < HASH"
  obtains ps where "chain_ok s i ps" "length (Table s) = HASH"
  using assms unfolding table_ok_def by blast

definition owner :: "tls_state \<Rightarrow> pthread_t \<rightharpoonup> nat" where
  "owner s t = do { p \<leftarrow> Find t s; e \<leftarrow> items s p; Some (itls e) }"

lemma HashFunction_less [simp]: "HashFunction t < HASH"
proof -
  have "(ucast t :: u32) mod of_nat HASH < of_nat HASH" by (rule word_mod_less_divisor) (simp add: HASH_def)
  then show ?thesis by (simp add: HashFunction_def HASH_def word_less_nat_alt)
qed

lemma Find_chain:
  assumes "table_ok s" "chain_ok s (HashFunction t) ps"
  shows "Find t s = Some (case find (\<lambda>q. itid (the (items s q)) = t) ps of None \<Rightarrow> 0 | Some q \<Rightarrow> q)"
  using assms Find_loop_bucket [of "items s" "Table s ! HashFunction t" ps t]
  by (simp add: Find_def table_ok_def chain_ok_def array_get_in)

text \<open>The items that are in the table: the heads of its chains and what their \<open>next\<close> pointers
  lead to.\<close>

inductive linked :: "tls_state \<Rightarrow> nat \<Rightarrow> bool" for s where
  linked_head: "i < HASH \<Longrightarrow> Table s ! i \<noteq> 0 \<Longrightarrow> linked s (Table s ! i)"
| linked_next: "linked s q \<Longrightarrow> items s q = Some e \<Longrightarrow> inext e \<noteq> 0 \<Longrightarrow> linked s (inext e)"

lemma bucket_head: "bucket H p ps \<Longrightarrow> p \<noteq> 0 \<Longrightarrow> p \<in> set ps"
  by (cases ps) auto

lemma bucket_next: "bucket H p ps \<Longrightarrow> q \<in> set ps \<Longrightarrow> H q = Some e \<Longrightarrow> inext e \<noteq> 0 \<Longrightarrow> inext e \<in> set ps"
  by (induction H p ps rule: bucket.induct) (auto split: option.splits dest: bucket_head)

lemma bucket_linked: "bucket (items s) p ps \<Longrightarrow> p = 0 \<or> linked s p \<Longrightarrow> q \<in> set ps \<Longrightarrow> linked s q"
  by (induction "items s" p ps rule: bucket.induct) (auto split: option.splits intro: linked_next)

lemma linked_chain:
  assumes "linked s q" "table_ok s"
  shows "\<exists>i<HASH. \<exists>ps. chain_ok s i ps \<and> q \<in> set ps"
  using assms(1)
proof induction
  case (linked_head i)
  obtain ps where "chain_ok s i ps" by (rule table_okE [OF assms(2) linked_head(1)])
  with linked_head show ?case using bucket_head [of "items s" "Table s ! i" ps] by (auto simp: chain_ok_def)
next
  case (linked_next q e)
  then show ?case using bucket_next by (auto simp: chain_ok_def) blast
qed

text \<open>\<open>Find\<close> returns the one item of the table that belongs to the thread, or the null pointer
  when there is none.\<close>

lemma Find_linked:
  assumes "table_ok s"
  obtains p where "Find t s = Some p" "p \<noteq> 0 \<Longrightarrow> linked s p \<and> (\<exists>e. items s p = Some e \<and> itid e = t)"
    "\<And>q e. linked s q \<Longrightarrow> items s q = Some e \<Longrightarrow> itid e = t \<Longrightarrow> q = p \<and> p \<noteq> 0"
proof -
  let ?i = "HashFunction t"
  obtain ps where ps: "chain_ok s ?i ps" by (rule table_okE [OF assms HashFunction_less])
  then have b: "bucket (items s) (Table s ! ?i) ps" and d: "distinct (map (\<lambda>q. itid (the (items s q))) ps)"
    by (simp_all add: chain_ok_def)
  have lk: "linked s q" if "q \<in> set ps" for q
    using bucket_linked [OF b _ that] linked_head [OF HashFunction_less] by blast
  have mem: "q \<in> set ps" if q: "linked s q" "items s q = Some e" "itid e = t" for q e
  proof -
    obtain i qs where i: "chain_ok s i qs" "q \<in> set qs" using linked_chain [OF q(1) assms] by blast
    then have "i = ?i" using q(2,3) by (auto simp: chain_ok_def)
    then have "qs = ps" using bucket_unique [of "items s" "Table s ! ?i" qs ps] i(1) b by (simp add: chain_ok_def)
    with i(2) show ?thesis by simp
  qed
  let ?p = "case find (\<lambda>q. itid (the (items s q)) = t) ps of None \<Rightarrow> 0 | Some q \<Rightarrow> q"
  have one: "q = ?p \<and> ?p \<noteq> 0" if "linked s q" "items s q = Some e" "itid e = t" for q e
    using mem [OF that] find_distinct_map [OF d, of q] that(2,3) bucket_dom [OF b, of q] by simp
  have "linked s ?p \<and> (\<exists>e. items s ?p = Some e \<and> itid e = t)" if "?p \<noteq> 0"
  proof -
    from that obtain q where q: "find (\<lambda>q. itid (the (items s q)) = t) ps = Some q" by (cases "find (\<lambda>q. itid (the (items s q)) = t) ps") auto
    then have "q \<in> set ps" "itid (the (items s q)) = t" by (auto simp: find_Some_iff)
    with q lk bucket_dom [OF b] show ?thesis by fastforce
  qed
  then show ?thesis using that [OF Find_chain [OF assms ps]] one by blast
qed

text \<open>\<open>Find\<close> always returns; it finds an item of the thread, or nothing.\<close>

lemma Find_total:
  assumes "table_ok s" "items s 0 = None"
  obtains (absent) "Find t s = Some 0" "owner s t = None"
  | (present) p e where "Find t s = Some p" "p \<noteq> 0" "items s p = Some e" "itid e = t" "owner s t = Some (itls e)"
proof -
  obtain ps where ps: "chain_ok s (HashFunction t) ps" by (rule table_okE [OF assms(1) HashFunction_less])
  show ?thesis
  proof (cases "find (\<lambda>q. itid (the (items s q)) = t) ps")
    case None
    then show ?thesis using Find_chain [OF assms(1) ps] assms(2) by (intro absent) (simp_all add: owner_def)
  next
    case (Some q)
    then have q: "q \<in> set ps" "itid (the (items s q)) = t" by (auto simp: find_Some_iff)
    then obtain e where "q \<noteq> 0" "items s q = Some e" using bucket_dom ps by (fastforce simp: chain_ok_def)
    with Some q Find_chain [OF assms(1) ps] show ?thesis by (intro present [of q e]) (simp_all add: owner_def)
  qed
qed


section \<open>Find and Add are a map\<close>

text \<open>Making an item and adding it, as \<open>tls_create\<close> and \<open>tls_clone\<close> do.\<close>

definition link :: "pthread_t \<Rightarrow> nat \<Rightarrow> nat \<Rightarrow> tls_state \<Rightarrow> tls_state" where
  "link t v p s = s\<lparr>Table := (Table s)[HashFunction t := p],
     items := (items s)(p \<mapsto> \<lparr>itid = t, itls = v, inext = Table s ! HashFunction t\<rparr>)\<rparr>"

lemma Add_link:
  assumes "table_ok s"
  shows "Add t p (s\<lparr>items := (items s)(p \<mapsto> \<lparr>itid = t, itls = v, inext = 0\<rparr>)\<rparr>) = Some (True, link t v p s)"
  using assms by (simp add: Add_def link_def table_ok_def array_get_in)

lemma chain_absent:
  assumes "table_ok s" "chain_ok s (HashFunction t) ps" "owner s t = None" "q \<in> set ps"
  shows "itid (the (items s q)) \<noteq> t"
proof
  assume t: "itid (the (items s q)) = t"
  have "find (\<lambda>q. itid (the (items s q)) = t) ps \<noteq> None" using t assms(4) by (auto simp: find_None_iff)
  then obtain r where r: "find (\<lambda>q. itid (the (items s q)) = t) ps = Some r" by auto
  then have "r \<in> set ps" by (auto simp: find_Some_iff)
  then have "items s r \<noteq> None" using assms(2) bucket_dom by (auto simp: chain_ok_def)
  then show False using assms(3) Find_chain [OF assms(1,2)] r by (auto simp: owner_def)
qed

definition linkable :: "tls_state \<Rightarrow> pthread_t \<Rightarrow> nat \<Rightarrow> bool" where
  "linkable s t p \<longleftrightarrow> p \<noteq> 0 \<and> items s p = None \<and> owner s t = None"

lemma chain_link:
  assumes "table_ok s" "linkable s t p" "chain_ok s i ps" "i < HASH"
  shows "chain_ok (link t v p s) i (if i = HashFunction t then p # ps else ps)"
proof -
  have len: "length (Table s) = HASH" using assms(1) by (simp add: table_ok_def)
  have p: "p \<notin> set ps" using assms(2,3) bucket_dom by (fastforce simp: chain_ok_def linkable_def)
  then have ne: "q \<noteq> p" if "q \<in> set ps" for q using that by auto
  have same: "map (\<lambda>q. itid (the (items (link t v p s) q))) ps = map (\<lambda>q. itid (the (items s q))) ps"
    using ne by (simp add: link_def)
  have "t \<notin> (\<lambda>q. itid (the (items s q))) ` set ps" if "i = HashFunction t"
    using chain_absent [OF assms(1) assms(3) [unfolded that]] assms(2) by (auto simp: linkable_def)
  moreover have "distinct (map (\<lambda>q. itid (the (items (link t v p s) q))) ps)"
    using assms(3) unfolding same by (simp add: chain_ok_def)
  ultimately show ?thesis using assms p ne len
    by (auto simp: chain_ok_def link_def bucket_upd_other nth_list_update linkable_def)
qed

lemma link_table_ok:
  assumes "table_ok s" "linkable s t p"
  shows "table_ok (link t v p s)"
  unfolding table_ok_def
proof (intro conjI allI impI)
  show "length (Table (link t v p s)) = HASH" using assms(1) by (simp add: table_ok_def link_def)
  fix i
  assume i: "i < HASH"
  obtain ps where "chain_ok s i ps" by (rule table_okE [OF assms(1) i])
  from chain_link [OF assms this i] show "\<exists>ps. chain_ok (link t v p s) i ps" by blast
qed

lemma owner_link:
  assumes "table_ok s" "linkable s t p"
  shows "owner (link t v p s) t' = (if t' = t then Some v else owner s t')"
proof -
  let ?s' = "link t v p s" and ?i = "HashFunction t'"
  obtain ps where ps: "chain_ok s ?i ps" and len: "length (Table s) = HASH"
    by (rule table_okE [OF assms(1) HashFunction_less])
  have p: "p \<notin> set ps" using ps assms(2) bucket_dom by (fastforce simp: chain_ok_def linkable_def)
  have items': "items ?s' = (items s)(p \<mapsto> \<lparr>itid = t, itls = v, inext = Table s ! HashFunction t\<rparr>)"
    by (simp add: link_def)
  have same: "find (\<lambda>q. itid (the (items ?s' q)) = t') ps = find (\<lambda>q. itid (the (items s q)) = t') ps"
    by (rule find_cong) (use p in \<open>auto simp: items'\<close>)
  have old: "items ?s' q = items s q" if "find (\<lambda>q. itid (the (items s q)) = t') ps = Some q" for q
    using that p by (auto simp: items' find_Some_iff)
  have f: "Find t' ?s' = Some (case find (\<lambda>q. itid (the (items ?s' q)) = t')
      (if ?i = HashFunction t then p # ps else ps) of None \<Rightarrow> 0 | Some q \<Rightarrow> q)"
    by (rule Find_chain [OF link_table_ok [OF assms] chain_link [OF assms ps HashFunction_less]])
  have zero: "items ?s' 0 = items s 0" using assms(2) by (simp add: items' linkable_def)
  show ?thesis
  proof (cases "t' = t")
    case True
    then show ?thesis using f by (simp add: owner_def items')
  next
    case False
    then have "find (\<lambda>q. itid (the (items ?s' q)) = t') (if ?i = HashFunction t then p # ps else ps)
        = find (\<lambda>q. itid (the (items s q)) = t') ps"
      unfolding same [symmetric] by (simp add: items')
    then have eq: "Find t' ?s' = Find t' s" using f Find_chain [OF assms(1) ps] by simp
    have "items ?s' q = items s q" if "Find t' s = Some q" for q
      using that Find_chain [OF assms(1) ps] old zero by (auto split: option.splits)
    then show ?thesis using False eq by (cases "Find t' s") (simp_all add: owner_def)
  qed
qed

interpretation tmap: tid_map table_ok linkable owner link
  by unfold_locales (simp_all add: link_table_ok owner_link)

end
