(* ===== verification/TLS_Inv.thy ===== *)
theory TLS_Inv
  imports TLS_Table
begin

text \<open>
  The invariant of the thread-local storage library and its abstraction: a map from threads
  to byte sequences. The pages of one thread may be unprotected while \<open>tls_write\<close> or
  \<open>tls_read\<close> runs; the invariant takes that thread and the protection as arguments.
\<close>

section \<open>The invariant\<close>

definition pages_of :: "tls_state \<Rightarrow> pthread_t \<Rightarrow> nat list" where
  "pages_of s t = (case do { v \<leftarrow> owner s t; tlss s v } of None \<Rightarrow> [] | Some a \<Rightarrow> tpages a)"

definition users :: "tls_state \<Rightarrow> nat \<Rightarrow> pthread_t set" where
  "users s p = {t. p \<in> set (pages_of s t)}"

definition npages :: "nat \<Rightarrow> nat \<Rightarrow> nat" where
  "npages psz n = n div psz + (if n mod psz \<noteq> 0 then 1 else 0)"

definition area_ok :: "nat \<Rightarrow> ThreadLocalStorage \<Rightarrow> bool" where
  "area_ok psz a \<longleftrightarrow> distinct (tpages a) \<and> page_num a = length (tpages a) \<and>
     length (tpages a) = npages psz (unat (tsize a))"

definition page_ok :: "nat \<Rightarrow> prot \<Rightarrow> tls_state \<Rightarrow> nat \<Rightarrow> bool" where
  "page_ok psz pr s p \<longleftrightarrow> (\<exists>P R. pgs s p = Some P \<and> maps s (address P) = Some R \<and>
     length (rbytes R) = psz \<and> rprot R = pr \<and> ref_count P = int (card (users s p)))"

definition pages_ok :: "nat \<Rightarrow> pthread_t \<Rightarrow> prot \<Rightarrow> tls_state \<Rightarrow> bool" where
  "pages_ok psz x pr s \<longleftrightarrow>
     (\<forall>t. \<forall>p\<in>set (pages_of s t). page_ok psz (if p \<in> set (pages_of s x) then pr else PROT_NONE) s p) \<and>
     (\<forall>p q P Q. users s p \<noteq> {} \<longrightarrow> users s q \<noteq> {} \<longrightarrow> pgs s p = Some P \<longrightarrow> pgs s q = Some Q \<longrightarrow>
        address P = address Q \<longrightarrow> p = q)"

definition heap_ok :: "tls_state \<Rightarrow> bool" where
  "heap_ok s \<longleftrightarrow> 0 < fresh s \<and> finite (dom (maps s)) \<and>
     (\<forall>p. p = 0 \<or> fresh s \<le> p \<longrightarrow> items s p = None \<and> tlss s p = None \<and> pgs s p = None)"

definition areas_ok :: "tls_env \<Rightarrow> tls_state \<Rightarrow> bool" where
  "areas_ok env s \<longleftrightarrow> (\<forall>t v. owner s t = Some v \<longrightarrow>
     \<not> is_first_call s \<and> (\<exists>a. tlss s v = Some a \<and> area_ok (pagesize env) a)) \<and>
     (\<not> is_first_call s \<longrightarrow> page_size s = pagesize env)"

definition tls_inv :: "tls_env \<Rightarrow> pthread_t \<Rightarrow> prot \<Rightarrow> tls_state \<Rightarrow> bool" where
  "tls_inv env x pr s \<longleftrightarrow> table_ok s \<and> tmap.injective s \<and> heap_ok s \<and> areas_ok env s \<and>
     pages_ok (pagesize env) x pr s"

text \<open>Between calls every page is protected; the choice of the thread does not matter then.\<close>

definition tls_wf :: "tls_env \<Rightarrow> tls_state \<Rightarrow> bool" where
  "tls_wf env s \<longleftrightarrow> tls_inv env 0 PROT_NONE s"

text \<open>What the code relies on of the system: \<open>mmap\<close> finds an unmapped page.\<close>

definition vm_ok :: "tls_env \<Rightarrow> bool" where
  "vm_ok env \<longleftrightarrow> 0 < pagesize env \<and> pagesize env < 2 ^ 32 \<and>
     (\<forall>n ms. finite (dom ms) \<longrightarrow> (\<exists>a. mmap_addr env n ms = Some a \<and> ms a = None))"


section \<open>The abstraction\<close>

definition page_bytes :: "tls_state \<Rightarrow> nat \<Rightarrow> byte list" where
  "page_bytes s p = (case do { P \<leftarrow> pgs s p; maps s (address P) } of None \<Rightarrow> [] | Some R \<Rightarrow> rbytes R)"

definition area_bytes :: "tls_state \<Rightarrow> ThreadLocalStorage \<Rightarrow> byte list" where
  "area_bytes s a = take (unat (tsize a)) (concat (map (page_bytes s) (tpages a)))"

definition tls_abs :: "tls_state \<Rightarrow> pthread_t \<rightharpoonup> byte list" where
  "tls_abs s t = do { v \<leftarrow> owner s t; a \<leftarrow> tlss s v; Some (area_bytes s a) }"

lemma wf_inv: "tls_wf env s \<Longrightarrow> tls_inv env x PROT_NONE s"
  by (simp add: tls_wf_def tls_inv_def pages_ok_def)

lemma inv_wf: "tls_inv env x PROT_NONE s \<Longrightarrow> tls_wf env s"
  by (simp add: tls_wf_def tls_inv_def pages_ok_def)

lemma heap_used:
  assumes "heap_ok s"
  shows "pgs s p = Some P \<Longrightarrow> 0 < p \<and> p < fresh s" "tlss s v = Some a \<Longrightarrow> 0 < v \<and> v < fresh s"
    "items s i = Some e \<Longrightarrow> 0 < i \<and> i < fresh s"
  using assms unfolding heap_ok_def by (metis neq0_conv not_le option.distinct(1))+

lemma owner_cong: "Table s' = Table s \<Longrightarrow> items s' = items s \<Longrightarrow> owner s' = owner s"
  by (rule ext) (simp add: owner_def Find_def)

lemma table_ok_cong: "Table s' = Table s \<Longrightarrow> items s' = items s \<Longrightarrow> table_ok s' = table_ok s"
  by (simp add: table_ok_def chain_ok_def)

lemma injective_cong: "owner s' = owner s \<Longrightarrow> tmap.injective s' = tmap.injective s"
  by (simp add: tmap.injective_def)

lemma pages_of_cong: "owner s' = owner s \<Longrightarrow> tlss s' = tlss s \<Longrightarrow> pages_of s' = pages_of s"
  by (rule ext) (simp add: pages_of_def)

lemma users_cong: "pages_of s' = pages_of s \<Longrightarrow> users s' = users s"
  by (rule ext) (simp add: users_def)

lemma finite_users [simp]: "finite (users s p)"
  by (rule finite_subset [OF subset_UNIV finite])

lemma ownerE:
  assumes "tls_inv env x pr s" "owner s t = Some v"
  obtains a where "tlss s v = Some a" "area_ok (pagesize env) a" "pages_of s t = tpages a"
    "tls_abs s t = Some (area_bytes s a)" "page_size s = pagesize env" "\<not> is_first_call s"
  using assms by (auto simp: tls_inv_def areas_ok_def pages_of_def tls_abs_def)

lemma pageE:
  assumes "tls_inv env x pr s" "p \<in> set (pages_of s t)"
  obtains P R where "pgs s p = Some P" "maps s (address P) = Some R" "length (rbytes R) = pagesize env"
    "rprot R = (if p \<in> set (pages_of s x) then pr else PROT_NONE)" "ref_count P = int (card (users s p))"
    "page_bytes s p = rbytes R"
  using assms unfolding tls_inv_def pages_ok_def page_ok_def by (fastforce simp: page_bytes_def)

lemma address_inj:
  assumes "tls_inv env x pr s" "p \<in> set (pages_of s t)" "q \<in> set (pages_of s t')"
    "pgs s p = Some P" "pgs s q = Some Q" "address P = address Q"
  shows "p = q"
proof -
  have "users s p \<noteq> {}" "users s q \<noteq> {}" using assms(2,3) by (auto simp: users_def)
  with assms show ?thesis by (simp add: tls_inv_def pages_ok_def)
qed

lemma FindE:
  assumes "tls_inv env x pr s" "owner s t = Some v"
  obtains p e where "Find t s = Some p" "p \<noteq> 0" "items s p = Some e" "itls e = v"
proof -
  have "table_ok s" "items s 0 = None" using assms(1) by (auto simp: tls_inv_def heap_ok_def)
  then show ?thesis
    by (rule Find_total [where t = t]) (use assms(2) that in auto)
qed

lemma Find_absent:
  assumes "tls_inv env x pr s" "owner s t = None"
  shows "Find t s = Some 0"
proof -
  have "table_ok s" "items s 0 = None" using assms(1) by (auto simp: tls_inv_def heap_ok_def)
  then show ?thesis by (rule Find_total [where t = t]) (use assms(2) in auto)
qed


section \<open>Changing protections\<close>

definition set_prot :: "prot \<Rightarrow> nat set \<Rightarrow> (nat \<rightharpoonup> region) \<Rightarrow> (nat \<rightharpoonup> region)" where
  "set_prot pr A m = (\<lambda>a. if a \<in> A then map_option (rprot_update (\<lambda>_. pr)) (m a) else m a)"

definition addrs :: "tls_state \<Rightarrow> nat list \<Rightarrow> nat set" where
  "addrs s ps = {a. \<exists>p\<in>set ps. \<exists>P. pgs s p = Some P \<and> a = address P}"

lemma protect_pages_ok:
  "(\<And>p. p \<in> set ps \<Longrightarrow> \<exists>P. pgs s p = Some P \<and> maps s (address P) \<noteq> None) \<Longrightarrow>
     protect_pages ps pr s = Some (s\<lparr>maps := set_prot pr (addrs s ps) (maps s)\<rparr>)"
proof (induction ps arbitrary: s)
  case Nil
  then show ?case by (simp add: set_prot_def addrs_def)
next
  case (Cons p ps)
  from Cons.prems [of p] obtain P R where P: "pgs s p = Some P" "maps s (address P) = Some R" by auto
  let ?s = "s\<lparr>maps := (maps s)(address P \<mapsto> R\<lparr>rprot := pr\<rparr>)\<rparr>"
  have "protect_pages ps pr ?s = Some (?s\<lparr>maps := set_prot pr (addrs ?s ps) (maps ?s)\<rparr>)"
    by (rule Cons.IH) (use Cons.prems in fastforce)
  moreover have "set_prot pr (addrs ?s ps) (maps ?s) = set_prot pr (addrs s (p # ps)) (maps s)"
    using P by (auto simp: set_prot_def addrs_def fun_eq_iff)
  ultimately show ?case using P by (simp add: tls_unprotect_def mprotect_def)
qed

lemma protect_step:
  assumes inv: "tls_inv env x pr s"
  obtains s' where "protect_pages (pages_of s x) pr' s = Some s'" "tls_inv env x pr' s'"
    "owner s' = owner s" "tlss s' = tlss s" "page_bytes s' = page_bytes s" "tls_abs s' = tls_abs s"
    "page_size s' = page_size s"
proof -
  define s' where "s' = s\<lparr>maps := set_prot pr' (addrs s (pages_of s x)) (maps s)\<rparr>"
  have sel: "Table s' = Table s" "items s' = items s" "tlss s' = tlss s" "pgs s' = pgs s" "fresh s' = fresh s"
    "is_first_call s' = is_first_call s" "page_size s' = page_size s"
    by (simp_all add: s'_def)
  note ow = owner_cong [OF sel(1,2)]
  note pg = pages_of_cong [OF ow sel(3)] and tab = table_ok_cong [OF sel(1,2)] and inj = injective_cong [OF ow]
  have us: "users s' = users s" by (rule users_cong [OF pg])
  have run: "protect_pages (pages_of s x) pr' s = Some s'"
    unfolding s'_def by (rule protect_pages_ok) (use inv in \<open>auto elim: pageE\<close>)
  have pb: "page_bytes s' = page_bytes s"
  proof
    fix p
    show "page_bytes s' p = page_bytes s p"
    proof (cases "pgs s p")
      case (Some P)
      then show ?thesis by (cases "maps s (address P)") (simp_all add: page_bytes_def s'_def set_prot_def)
    qed (simp add: page_bytes_def sel)
  qed
  have pok: "page_ok (pagesize env) (if p \<in> set (pages_of s x) then pr' else PROT_NONE) s' p"
    if p: "p \<in> set (pages_of s t)" for p t
  proof -
    obtain P R where P: "pgs s p = Some P" "maps s (address P) = Some R" "length (rbytes R) = pagesize env"
        "rprot R = (if p \<in> set (pages_of s x) then pr else PROT_NONE)" "ref_count P = int (card (users s p))"
      using inv p by (rule pageE)
    have "address P \<in> addrs s (pages_of s x) \<longleftrightarrow> p \<in> set (pages_of s x)"
      using P(1) address_inj [OF inv _ p] by (fastforce simp: addrs_def)
    with P show ?thesis unfolding page_ok_def us sel by (auto simp: s'_def set_prot_def)
  qed
  have "dom (maps s') = dom (maps s)" by (auto simp: s'_def set_prot_def split: if_splits)
  then have hp: "heap_ok s'" using inv by (simp add: tls_inv_def heap_ok_def sel)
  have "tls_inv env x pr' s'"
    using inv hp pok by (simp add: tls_inv_def tab inj areas_ok_def ow sel pages_ok_def pg us)
  moreover have "tls_abs s' = tls_abs s" by (simp add: tls_abs_def fun_eq_iff ow sel area_bytes_def pb)
  ultimately show ?thesis using that run ow pb sel by simp
qed


section \<open>Storing a byte\<close>

lemma store_step:
  assumes inv: "tls_inv env x PROT_WRITE s" and p: "page \<in> set (pages_of s x)" and P: "pgs s page = Some P"
    and po: "po < pagesize env"
  obtains s' where "store_byte (address P) po b s = Some s'" "tls_inv env x PROT_WRITE s'"
    "owner s' = owner s" "tlss s' = tlss s" "page_size s' = page_size s"
    "\<And>t q. q \<in> set (pages_of s t) \<Longrightarrow> page_bytes s' q = (if q = page then (page_bytes s q)[po := b] else page_bytes s q)"
proof -
  obtain R where R: "maps s (address P) = Some R" "length (rbytes R) = pagesize env" "rprot R = PROT_WRITE"
      "page_bytes s page = rbytes R"
    using pageE [OF inv p] P p by (metis option.inject)
  define s' where "s' = s\<lparr>maps := (maps s)(address P \<mapsto> R\<lparr>rbytes := (rbytes R)[po := b]\<rparr>)\<rparr>"
  have sel: "Table s' = Table s" "items s' = items s" "tlss s' = tlss s" "pgs s' = pgs s" "fresh s' = fresh s"
    "is_first_call s' = is_first_call s" "page_size s' = page_size s"
    by (simp_all add: s'_def)
  note ow = owner_cong [OF sel(1,2)]
  note pg = pages_of_cong [OF ow sel(3)] and tab = table_ok_cong [OF sel(1,2)] and inj = injective_cong [OF ow]
  note us = users_cong [OF pg]
  have "store_byte (address P) po b s = Some s'"
    using R(1-3) po by (simp add: store_byte_def s'_def array_set_in)
  moreover have pok: "page_ok (pagesize env) (if q \<in> set (pages_of s x) then PROT_WRITE else PROT_NONE) s' q \<and>
      page_bytes s' q = (if q = page then (page_bytes s q)[po := b] else page_bytes s q)"
    if q: "q \<in> set (pages_of s t)" for q t
  proof -
    obtain Q S where Q: "pgs s q = Some Q" "maps s (address Q) = Some S" "length (rbytes S) = pagesize env"
        "rprot S = (if q \<in> set (pages_of s x) then PROT_WRITE else PROT_NONE)" "ref_count Q = int (card (users s q))"
        "page_bytes s q = rbytes S"
      using inv q by (rule pageE)
    show ?thesis
    proof (cases "q = page")
      case True
      with Q P R show ?thesis unfolding page_ok_def us sel by (auto simp: s'_def page_bytes_def)
    next
      case False
      then have "address Q \<noteq> address P" using address_inj [OF inv q p Q(1) P] by blast
      with False Q show ?thesis unfolding page_ok_def us sel by (auto simp: s'_def page_bytes_def)
    qed
  qed
  have hp: "heap_ok s'" using inv by (simp add: tls_inv_def heap_ok_def s'_def)
  have "tls_inv env x PROT_WRITE s'"
    using inv hp pok by (simp add: tls_inv_def tab inj areas_ok_def ow sel pages_ok_def pg us)
  with calculation pok show ?thesis using that ow sel by blast
qed


section \<open>Copying a shared page\<close>

text \<open>The pages after a copy: \<open>cp\<close> takes the place of \<open>page\<close> in the area of \<open>x\<close> only.\<close>

text \<open>A page that is not copied stays as it is.\<close>

lemma copy_old_page:
  assumes inv: "tls_inv env x PROT_WRITE s" and pin: "page \<in> set (pages_of s x)"
    and P: "pgs s page = Some P" "maps s (address P) = Some R"
    and new: "pgs s cp = None" "maps s m = None"
    and s': "pgs s' = (pgs s)(cp \<mapsto> \<lparr>address = m, ref_count = 1\<rparr>, page \<mapsto> P\<lparr>ref_count := ref_count P - 1\<rparr>)"
      "maps s' = (maps s)(m \<mapsto> \<lparr>rprot = PROT_WRITE, rbytes = rbytes R\<rparr>, address P \<mapsto> R\<lparr>rprot := PROT_NONE\<rparr>)"
    and q: "q \<in> set (pages_of s t)" "q \<noteq> page"
  shows "pgs s' q = pgs s q" "pgs s q = Some Q \<Longrightarrow> maps s' (address Q) = maps s (address Q)" "pgs s q = Some Q \<Longrightarrow> address Q \<noteq> m"
proof -
  obtain Q0 S where Q: "pgs s q = Some Q0" "maps s (address Q0) = Some S" using inv q(1) by (rule pageE)
  have "address Q0 \<noteq> address P" "address Q0 \<noteq> m" "q \<noteq> cp"
    using address_inj [OF inv q(1) pin Q(1) P(1)] q(2) new Q by auto
  with Q q(2) show "pgs s' q = pgs s q" "pgs s q = Some Q \<Longrightarrow> maps s' (address Q) = maps s (address Q)"
    "pgs s q = Some Q \<Longrightarrow> address Q \<noteq> m" by (auto simp: s')
qed

text \<open>The address of a page after the copy is that of the copy or that of an old page.\<close>

lemma copy_address:
  assumes inv: "tls_inv env x PROT_WRITE s" and pin: "page \<in> set (pages_of s x)"
    and P: "pgs s page = Some P" "maps s (address P) = Some R"
    and new: "pgs s cp = None" "maps s m = None"
    and s': "pgs s' = (pgs s)(cp \<mapsto> \<lparr>address = m, ref_count = 1\<rparr>, page \<mapsto> P\<lparr>ref_count := ref_count P - 1\<rparr>)"
      "maps s' = (maps s)(m \<mapsto> \<lparr>rprot = PROT_WRITE, rbytes = rbytes R\<rparr>, address P \<mapsto> R\<lparr>rprot := PROT_NONE\<rparr>)"
    and pin': "\<And>q t. q \<in> set (pages_of s' t) \<longleftrightarrow>
      (if t = x then q = cp \<or> q \<in> set (pages_of s x) \<and> q \<noteq> page else q \<in> set (pages_of s t))"
    and p: "pgs s' p = Some Q" "p \<in> set (pages_of s' t)"
  shows "(p = cp \<and> address Q = m) \<or> (\<exists>u Q0. p \<in> set (pages_of s u) \<and> pgs s p = Some Q0 \<and> address Q = address Q0 \<and> address Q \<noteq> m)"
proof (cases "p = cp")
  case True
  moreover have "cp \<noteq> page" using P(1) new(1) by auto
  ultimately show ?thesis using p(1) by (auto simp: s')
next
  case False
  then obtain u where u: "p \<in> set (pages_of s u)" using p(2) by (auto simp: pin' split: if_splits)
  show ?thesis
  proof (cases "p = page")
    case True
    with p(1) u P new show ?thesis by (auto simp: s')
  next
    case False
    with copy_old_page(1,3) [OF inv pin P new s' u False] p(1) u show ?thesis by metis
  qed
qed

lemma copy_pages_ok:
  assumes inv: "tls_inv env x PROT_WRITE s" and pin: "page \<in> set (pages_of s x)"
    and P: "pgs s page = Some P" "maps s (address P) = Some R"
    and new: "pgs s cp = None" "maps s m = None"
    and s': "pgs s' = (pgs s)(cp \<mapsto> \<lparr>address = m, ref_count = 1\<rparr>, page \<mapsto> P\<lparr>ref_count := ref_count P - 1\<rparr>)"
      "maps s' = (maps s)(m \<mapsto> \<lparr>rprot = PROT_WRITE, rbytes = rbytes R\<rparr>, address P \<mapsto> R\<lparr>rprot := PROT_NONE\<rparr>)"
    and sh: "{x} \<subset> users s page"
    and pin': "\<And>q t. q \<in> set (pages_of s' t) \<longleftrightarrow>
      (if t = x then q = cp \<or> q \<in> set (pages_of s x) \<and> q \<noteq> page else q \<in> set (pages_of s t))"
  shows "pages_ok (pagesize env) x PROT_WRITE s'" "page_bytes s' cp = page_bytes s page"
    "\<And>t q. q \<in> set (pages_of s t) \<Longrightarrow> page_bytes s' q = page_bytes s q"
proof -
  note old = copy_old_page [OF inv pin P new s']
  have cp: "cp \<notin> set (pages_of s t)" for t using inv new(1) by (auto elim: pageE)
  have ne: "cp \<noteq> page" "m \<noteq> address P" using new P by auto
  have us: "users s' cp = {x}" "users s' page = users s page - {x}" "q \<noteq> cp \<Longrightarrow> q \<noteq> page \<Longrightarrow> users s' q = users s q" for q
    using cp ne by (auto simp: users_def pin')
  have card: "card (users s page - {x}) = card (users s page) - 1" "1 < card (users s page)"
    using sh psubset_card_mono [OF finite_users sh] by (auto simp: card_Diff_singleton)
  have RP: "length (rbytes R) = pagesize env" "ref_count P = int (card (users s page))" "page_bytes s page = rbytes R"
    using pageE [OF inv pin] P by (metis option.inject)+
  show "page_bytes s' cp = page_bytes s page" using ne RP(3) by (simp add: page_bytes_def s')
  show "page_bytes s' q = page_bytes s q" if q: "q \<in> set (pages_of s t)" for q t
  proof (cases "q = page")
    case True
    then show ?thesis using RP(3) by (simp add: page_bytes_def s')
  next
    case False
    obtain Q where Q: "pgs s q = Some Q" using inv q by (rule pageE)
    then show ?thesis unfolding page_bytes_def using old(1) [OF q False] old(2) [OF q False Q] by simp
  qed
  have pok: "page_ok (pagesize env) (if q \<in> set (pages_of s' x) then PROT_WRITE else PROT_NONE) s' q"
    if q: "q \<in> set (pages_of s' t)" for q t
  proof -
    consider "q = cp" | "q = page" | u where "q \<in> set (pages_of s u)" "q \<noteq> page" "q \<noteq> cp"
      using q by (auto simp: pin' split: if_splits)
    then show ?thesis
    proof cases
      case 1
      then show ?thesis using RP(1) ne us(1) by (simp add: page_ok_def s' pin')
    next
      case 2
      then show ?thesis using RP(1,2) ne us(2) card by (simp add: page_ok_def s' pin')
    next
      case 3
      obtain Q S where Q: "pgs s q = Some Q" "maps s (address Q) = Some S" "length (rbytes S) = pagesize env"
          "rprot S = (if q \<in> set (pages_of s x) then PROT_WRITE else PROT_NONE)" "ref_count Q = int (card (users s q))"
        using inv 3(1) by (rule pageE)
      with old(1) [OF 3(1,2)] old(2) [OF 3(1,2) Q(1)] us(3) 3 show ?thesis by (simp add: page_ok_def pin')
    qed
  qed
  show "pages_ok (pagesize env) x PROT_WRITE s'"
    unfolding pages_ok_def
  proof (intro conjI allI ballI impI pok)
    fix p q P' Q'
    assume "users s' p \<noteq> {}" "users s' q \<noteq> {}" and pq: "pgs s' p = Some P'" "pgs s' q = Some Q'" "address P' = address Q'"
    then obtain t t' where t: "p \<in> set (pages_of s' t)" "q \<in> set (pages_of s' t')" by (auto simp: users_def)
    note ad = copy_address [OF inv pin P new s' pin']
    from ad [OF pq(1) t(1)] ad [OF pq(2) t(2)] pq(3) show "p = q" using address_inj [OF inv] by metis
  qed
qed

lemma copy_step:
  assumes inv: "tls_inv env x PROT_WRITE s" and vm: "vm_ok env" and ow: "owner s x = Some v" and a: "tlss s v = Some a"
    and pn: "pn < length (tpages a)" "page = tpages a ! pn" and sh: "{x} \<subset> users s page"
  obtains s' cp where "copy_page env v pn page s = Some (cp, s')" "tls_inv env x PROT_WRITE s'" "owner s' = owner s"
    "tlss s' = (tlss s)(v \<mapsto> a\<lparr>tpages := (tpages a)[pn := cp]\<rparr>)" "page_size s' = page_size s"
    "page_bytes s' cp = page_bytes s page" "\<And>t. cp \<notin> set (pages_of s t)"
    "\<And>t q. q \<in> set (pages_of s t) \<Longrightarrow> page_bytes s' q = page_bytes s q"
    "\<And>t. t \<noteq> x \<Longrightarrow> pages_of s' t = pages_of s t"
proof -
  obtain ao: "area_ok (pagesize env) a" and pa: "pages_of s x = tpages a" using ownerE [OF inv ow] a by (metis option.inject)
  have pin: "page \<in> set (pages_of s x)" using pn by (simp add: pa)
  obtain P R where P: "pgs s page = Some P" "maps s (address P) = Some R"
      "rprot R = (if page \<in> set (pages_of s x) then PROT_WRITE else PROT_NONE)"
    using inv pin by (rule pageE)
  have hp: "heap_ok s" using inv by (simp add: tls_inv_def)
  then obtain m where m: "mmap_addr env (mmaps s) (maps s) = Some m" "maps s m = None"
    using vm unfolding vm_ok_def heap_ok_def by blast
  let ?cp = "fresh s"
  define s' where "s' = s\<lparr>fresh := fresh s + 1, mmaps := mmaps s + 1,
     maps := (maps s)(m \<mapsto> \<lparr>rprot = PROT_WRITE, rbytes = rbytes R\<rparr>, address P \<mapsto> R\<lparr>rprot := PROT_NONE\<rparr>),
     tlss := (tlss s)(v \<mapsto> a\<lparr>tpages := (tpages a)[pn := ?cp]\<rparr>),
     pgs := (pgs s)(?cp \<mapsto> \<lparr>address = m, ref_count = 1\<rparr>, page \<mapsto> P\<lparr>ref_count := ref_count P - 1\<rparr>)\<rparr>"
  have sel: "Table s' = Table s" "items s' = items s" "is_first_call s' = is_first_call s" "page_size s' = page_size s"
    "tlss s' = (tlss s)(v \<mapsto> a\<lparr>tpages := (tpages a)[pn := ?cp]\<rparr>)"
    "pgs s' = (pgs s)(?cp \<mapsto> \<lparr>address = m, ref_count = 1\<rparr>, page \<mapsto> P\<lparr>ref_count := ref_count P - 1\<rparr>)"
    "maps s' = (maps s)(m \<mapsto> \<lparr>rprot = PROT_WRITE, rbytes = rbytes R\<rparr>, address P \<mapsto> R\<lparr>rprot := PROT_NONE\<rparr>)"
    by (simp_all add: s'_def)
  have cp_new: "pgs s ?cp = None" using hp by (simp add: heap_ok_def)
  have cp_notin: "?cp \<notin> set (pages_of s t)" for t using inv cp_new by (auto elim: pageE)
  have "?cp \<noteq> page" "m \<noteq> address P" using cp_new P(1,2) m(2) by auto
  then have run: "copy_page env v pn page s = Some (?cp, s')"
    using m P pin a by (simp add: copy_page_def mmap_def Let_def tls_protect_def mprotect_def s'_def fun_upd_twist)
  note ow' = owner_cong [OF sel(1,2)]
  note tab = table_ok_cong [OF sel(1,2)] and inj = injective_cong [OF ow']
  have pgx: "pages_of s' x = (tpages a)[pn := ?cp]" by (simp add: pages_of_def ow' ow sel)
  have pgo: "pages_of s' t = pages_of s t" if "t \<noteq> x" for t
  proof -
    have "owner s t \<noteq> Some v" using inv ow that tmap.injectiveD [of s t v x] by (auto simp: tls_inv_def)
    then show ?thesis by (cases "owner s t") (simp_all add: pages_of_def ow' sel)
  qed
  have dis: "distinct (tpages a)" using ao by (simp add: area_ok_def)
  have pin': "q \<in> set (pages_of s' t) \<longleftrightarrow> (if t = x then q = ?cp \<or> q \<in> set (pages_of s x) \<and> q \<noteq> page else q \<in> set (pages_of s t))"
    for q t using pgo set_update_distinct [OF dis pn(1), of ?cp] pn(2) by (auto simp: pgx pa)
  note cok = copy_pages_ok [OF inv pin P(1,2) cp_new m(2) sel(6,7) sh pin']
  have "heap_ok s'" using hp heap_used(1) [OF hp P(1)] heap_used(2) [OF hp a] by (auto simp: heap_ok_def s'_def)
  moreover have "areas_ok env s'"
    using inv ao dis cp_notin [of x] pa unfolding tls_inv_def areas_ok_def ow' sel
    by (auto simp: area_ok_def distinct_list_update)
  ultimately have "tls_inv env x PROT_WRITE s'" using inv cok(1) by (simp add: tls_inv_def tab inj)
  then show ?thesis using that [OF run] ow' sel(4,5) cok(2,3) cp_notin pgo by blast
qed

end
