(* ===== verification/TLS_IO.thy ===== *)
theory TLS_IO
  imports TLS_Inv
begin

text \<open>
  Writing, reading, creating and cloning storage areas: each operation refines an update of
  the map from threads to byte sequences.
\<close>

section \<open>The position of a byte\<close>

lemma byte_pos_small:
  assumes "unat (i :: u32) < 2 ^ 31" "0 < psz" "psz < 2 ^ 32"
  shows "byte_pos psz i = (unat i div psz, unat i mod psz)"
proof -
  have "unat i div psz < 2 ^ 32"
    by (rule le_less_trans [OF div_le_dividend]) (use assms(1) in simp)
  moreover have "unat i mod psz < 2 ^ 32"
    by (rule less_trans [OF mod_less_divisor [OF assms(2)] assms(3)])
  ultimately show ?thesis
    by (simp only: byte_pos_def Let_def scast_small [OF assms(1)] mod_less)
qed

lemma npages_bounds:
  assumes "0 < psz"
  shows "n \<le> npages psz n * psz" "i < n \<Longrightarrow> i div psz < npages psz n"
proof -
  have "n = n div psz * psz + n mod psz" by simp
  moreover have "n mod psz < psz" using assms by simp
  ultimately show *: "n \<le> npages psz n * psz" unfolding npages_def distrib_right by (simp, linarith)
  show "i div psz < npages psz n" if "i < n"
    using * that by (intro less_mult_imp_div_less) linarith
qed

text \<open>Only the thread's own bytes change when a byte of an unshared page is stored.\<close>

lemma area_bytes_cong:
  "tsize a' = tsize a \<Longrightarrow> map (page_bytes s') (tpages a') = map (page_bytes s) (tpages a) \<Longrightarrow>
     area_bytes s' a' = area_bytes s a"
  by (simp only: area_bytes_def)

lemma abs_other:
  assumes "tls_inv env x pr s" "owner s' = owner s" "\<And>v. owner s t = Some v \<Longrightarrow> tlss s' v = tlss s v"
    "\<And>q. q \<in> set (pages_of s t) \<Longrightarrow> page_bytes s' q = page_bytes s q"
  shows "tls_abs s' t = tls_abs s t"
proof (cases "owner s t")
  case (Some v)
  obtain a where a: "tlss s v = Some a" "pages_of s t = tpages a" using ownerE [OF assms(1) Some] by metis
  have "map (page_bytes s') (tpages a) = map (page_bytes s) (tpages a)" using assms(4) a(2) by simp
  from area_bytes_cong [OF refl this] show ?thesis using Some a(1) assms(2,3) by (simp add: tls_abs_def)
qed (simp add: tls_abs_def assms(2))

lemma store_abs:
  assumes inv: "tls_inv env x PROT_WRITE s" and ow: "owner s x = Some v" and a: "tlss s v = Some a"
    and i: "i < unat (tsize a)" "0 < pagesize env" and us: "users s (tpages a ! (i div pagesize env)) = {x}"
    and P: "pgs s (tpages a ! (i div pagesize env)) = Some P"
  obtains s' where "store_byte (address P) (i mod pagesize env) b s = Some s'" "tls_inv env x PROT_WRITE s'"
    "owner s' = owner s" "tlss s' = tlss s" "page_size s' = page_size s"
    "tls_abs s' = (tls_abs s)(x \<mapsto> (area_bytes s a)[i := b])"
proof -
  let ?psz = "pagesize env" and ?pn = "i div pagesize env" and ?po = "i mod pagesize env"
  let ?page = "tpages a ! ?pn"
  have ar: "area_ok ?psz a" "pages_of s x = tpages a" using ownerE [OF inv ow] a by (metis option.inject)+
  have pn: "?pn < length (tpages a)" using ar(1) npages_bounds(2) [OF i(2,1)] by (simp add: area_ok_def)
  have pin: "?page \<in> set (pages_of s x)" using pn ar(2) by simp
  have po: "?po < ?psz" using i(2) by simp
  obtain s' where s': "store_byte (address P) ?po b s = Some s'" "tls_inv env x PROT_WRITE s'"
    "owner s' = owner s" "tlss s' = tlss s" "page_size s' = page_size s"
    "\<And>t q. q \<in> set (pages_of s t) \<Longrightarrow> page_bytes s' q = (if q = ?page then (page_bytes s q)[?po := b] else page_bytes s q)"
    using store_step [OF inv pin P po] by blast
  have len: "length (page_bytes s q) = ?psz" if "q \<in> set (tpages a)" for q
    using inv that unfolding ar(2) [symmetric] by (rule pageE) simp
  have "map (page_bytes s') (tpages a) = map (\<lambda>q. if q = ?page then (page_bytes s q)[?po := b] else page_bytes s q) (tpages a)"
    by (rule map_cong [OF refl], rule s'(6) [of _ x]) (simp only: ar(2))
  then have "concat (map (page_bytes s') (tpages a)) = (concat (map (page_bytes s) (tpages a)))[?pn * ?psz + ?po := b]"
    using concat_map_update [OF len _ pn po] ar(1) by (simp only: area_ok_def)
  then have "tls_abs s' x = Some ((area_bytes s a)[i := b])"
    using ow a s'(3,4) by (simp add: tls_abs_def area_bytes_def take_update_swap)
  moreover have "tls_abs s' t = tls_abs s t" if t: "t \<noteq> x" for t
  proof (rule abs_other [OF inv s'(3)])
    fix q
    assume q: "q \<in> set (pages_of s t)"
    have "q \<noteq> ?page" using us q t by (auto simp: users_def)
    with s'(6) [OF q] show "page_bytes s' q = page_bytes s q" by simp
  qed (simp add: s'(4))
  ultimately have "tls_abs s' = (tls_abs s)(x \<mapsto> (area_bytes s a)[i := b])" by (auto simp: fun_eq_iff)
  with s' that show ?thesis by blast
qed

text \<open>Copying a shared page gives the thread a page of its own and changes no byte of any thread.\<close>

lemma copy_page_step:
  assumes inv: "tls_inv env x PROT_WRITE s" and vm: "vm_ok env" and ow: "owner s x = Some v" and a: "tlss s v = Some a"
    and pn: "n < length (tpages a)" and sh: "{x} \<subset> users s (tpages a ! n)"
  obtains s1 cp C a1 where "copy_page env v n (tpages a ! n) s = Some (cp, s1)" "tls_inv env x PROT_WRITE s1" "owner s1 = owner s"
    "a1 = a\<lparr>tpages := (tpages a)[n := cp]\<rparr>" "tlss s1 v = Some a1" "page_size s1 = page_size s" "pgs s1 cp = Some C" "users s1 cp = {x}"
    "area_bytes s1 a1 = area_bytes s a" "\<And>t. t \<noteq> x \<Longrightarrow> tls_abs s1 t = tls_abs s t"
proof -
  let ?page = "tpages a ! n"
  have ar: "pages_of s x = tpages a" using ownerE [OF inv ow] a by (metis option.inject)
  obtain s1 cp where s1: "copy_page env v n ?page s = Some (cp, s1)" "tls_inv env x PROT_WRITE s1" "owner s1 = owner s"
      "tlss s1 = (tlss s)(v \<mapsto> a\<lparr>tpages := (tpages a)[n := cp]\<rparr>)" "page_size s1 = page_size s"
      "page_bytes s1 cp = page_bytes s ?page" "\<And>t. cp \<notin> set (pages_of s t)"
      "\<And>t q. q \<in> set (pages_of s t) \<Longrightarrow> page_bytes s1 q = page_bytes s q"
      "\<And>t. t \<noteq> x \<Longrightarrow> pages_of s1 t = pages_of s t"
    by (rule copy_step [OF inv vm ow a pn refl sh]) (rule that)
  define a1 where "a1 = a\<lparr>tpages := (tpages a)[n := cp]\<rparr>"
  have ow1: "owner s1 x = Some v" and a1: "tlss s1 v = Some a1" using ow s1(3,4) by (simp_all add: a1_def)
  have us: "users s1 cp = {x}"
  proof -
    have "pages_of s1 x = tpages a1" using ow1 a1 by (simp add: pages_of_def)
    then have "x \<in> users s1 cp" using pn by (simp add: users_def set_update_memI a1_def)
    moreover have "t \<notin> users s1 cp" if "t \<noteq> x" for t using s1(7,9) that by (simp add: users_def)
    ultimately show ?thesis by blast
  qed
  obtain C where C: "pgs s1 cp = Some C" using pageE [OF s1(2), of cp x] us by (auto simp: users_def)
  have old: "map (page_bytes s1) (tpages a) = map (page_bytes s) (tpages a)"
    by (rule map_cong [OF refl], rule s1(8) [of _ x]) (simp only: ar)
  have "map (page_bytes s1) ((tpages a)[n := cp]) = (map (page_bytes s) (tpages a))[n := page_bytes s ?page]"
    by (simp only: map_update old s1(6))
  also have "\<dots> = map (page_bytes s) (tpages a)"
    using pn by (simp only: map_update [symmetric] list_update_id)
  finally have mp: "map (page_bytes s1) (tpages a1) = map (page_bytes s) (tpages a)" by (simp add: a1_def)
  have ab: "area_bytes s1 a1 = area_bytes s a" by (rule area_bytes_cong [OF _ mp]) (simp add: a1_def)
  have "tls_abs s1 t = tls_abs s t" if "t \<noteq> x" for t
    by (rule abs_other [OF inv s1(3)]) (use s1(4,8) tmap.injectiveD [of s t v x] ow inv that in \<open>auto simp: tls_inv_def\<close>)
  with s1(1-3) a1_def a1 s1(5) C us ab show ?thesis by (rule that)
qed

lemma write_byte_step:
  assumes inv: "tls_inv env x PROT_WRITE s" and vm: "vm_ok env" and ow: "owner s x = Some v" and a: "tlss s v = Some a"
    and i: "unat i < unat (tsize a)" "unat i < 2 ^ 31"
  obtains s' a' where "write_byte env v i b s = Some s'" "tls_inv env x PROT_WRITE s'" "owner s' = owner s"
    "tlss s' v = Some a'" "tsize a' = tsize a"
    "tls_abs s' = (tls_abs s)(x \<mapsto> (area_bytes s a)[unat i := b])"
proof -
  let ?psz = "pagesize env" and ?pn = "unat i div pagesize env"
  let ?page = "tpages a ! ?pn"
  have psz: "0 < ?psz" "?psz < 2 ^ 32" using vm by (auto simp: vm_ok_def)
  have ar: "area_ok ?psz a" "pages_of s x = tpages a" "page_size s = ?psz" using ownerE [OF inv ow] a by (metis option.inject)+
  have pn: "?pn < length (tpages a)" using ar(1) npages_bounds(2) [OF psz(1) i(1)] by (simp add: area_ok_def)
  have pin: "?page \<in> set (pages_of s x)" using pn ar(2) by simp
  obtain P where P: "pgs s ?page = Some P" "ref_count P = int (card (users s ?page))" using inv pin by (rule pageE)
  have get: "array_get (tpages a) (int ?pn) = Some ?page" using pn by (simp only: array_get_int if_True)
  note bp = byte_pos_small [OF i(2) psz]
  show ?thesis
  proof (cases "users s ?page = {x}")
    case True
    then obtain s' where s': "store_byte (address P) (unat i mod ?psz) b s = Some s'" "tls_inv env x PROT_WRITE s'"
        "owner s' = owner s" "tlss s' = tlss s"
        "tls_abs s' = (tls_abs s)(x \<mapsto> (area_bytes s a)[unat i := b])"
      using store_abs [OF inv ow a i(1) psz(1) _ P(1)] by metis
    then have "write_byte env v i b s = Some s'"
      using True P bp get a by (simp add: write_byte_def ar(3) del: array_get_int)
    moreover have "tlss s' v = Some a" using s'(4) a by simp
    ultimately show ?thesis using that s'(2,3,5) by blast
  next
    case False
    then have sh: "{x} \<subset> users s ?page" using pin by (auto simp: users_def)
    then have rc: "ref_count P > 1" using P(2) psubset_card_mono [OF finite_users sh] by simp
    obtain s1 cp C a1 where s1: "copy_page env v ?pn ?page s = Some (cp, s1)" "tls_inv env x PROT_WRITE s1" "owner s1 = owner s"
        "a1 = a\<lparr>tpages := (tpages a)[?pn := cp]\<rparr>" "tlss s1 v = Some a1" "page_size s1 = page_size s" "pgs s1 cp = Some C"
        "users s1 cp = {x}" "area_bytes s1 a1 = area_bytes s a" "\<And>t. t \<noteq> x \<Longrightarrow> tls_abs s1 t = tls_abs s t"
      by (rule copy_page_step [OF inv vm ow a pn sh]) (rule that)
    have ow1: "owner s1 x = Some v" and i1: "unat i < unat (tsize a1)" and cp: "tpages a1 ! ?pn = cp"
      using ow s1(3) i(1) pn by (simp_all add: s1(4))
    obtain s' where s': "store_byte (address C) (unat i mod ?psz) b s1 = Some s'" "tls_inv env x PROT_WRITE s'"
        "owner s' = owner s1" "tlss s' = tlss s1"
        "tls_abs s' = (tls_abs s1)(x \<mapsto> (area_bytes s1 a1)[unat i := b])"
      using store_abs [OF s1(2) ow1 s1(5) i1 psz(1), unfolded cp, OF s1(8,7)] by metis
    have "write_byte env v i b s = Some s'"
      using rc P bp get a s1(1,7) s'(1) by (simp add: write_byte_def ar(3) del: array_get_int)
    moreover have "tls_abs s' = (tls_abs s)(x \<mapsto> (area_bytes s a)[unat i := b])"
      using s'(5) s1(9,10) by (auto simp: fun_eq_iff)
    ultimately show ?thesis using that s'(2,3,4) s1(3,4,5) by simp
  qed
qed


section \<open>tls_write\<close>

lemma length_area_bytes:
  assumes inv: "tls_inv env x pr s" and ow: "owner s t = Some v" and a: "tlss s v = Some a" and psz: "0 < pagesize env"
  shows "length (area_bytes s a) = unat (tsize a)"
proof -
  have ar: "area_ok (pagesize env) a" "pages_of s t = tpages a" using ownerE [OF inv ow] a by (metis option.inject)+
  have "length (page_bytes s q) = pagesize env" if "q \<in> set (tpages a)" for q
    using inv that unfolding ar(2) [symmetric] by (rule pageE) simp
  then have "length (concat (map (page_bytes s) (tpages a))) = pagesize env * length (tpages a)"
    by (rule length_concat_map_const)
  with ar(1) npages_bounds(1) [OF psz, of "unat (tsize a)"] show ?thesis
    by (simp add: area_bytes_def area_ok_def mult.commute)
qed

lemma write_loop_step:
  assumes vm: "vm_ok env"
  shows "unat bound - unat index = n \<Longrightarrow> tls_inv env x PROT_WRITE s \<Longrightarrow> owner s x = Some v \<Longrightarrow>
     tlss s v = Some a \<Longrightarrow> unat bound \<le> unat (tsize a) \<Longrightarrow> unat bound < 2 ^ 31 \<Longrightarrow> count + n \<le> length buffer \<Longrightarrow>
     \<exists>s' a'. write_loop env v count index bound buffer s = Some s' \<and> tls_inv env x PROT_WRITE s' \<and>
       owner s' = owner s \<and> tlss s' v = Some a' \<and> tsize a' = tsize a \<and>
       tls_abs s' = (tls_abs s)(x \<mapsto> splice (unat index) (take n (drop count buffer)) (area_bytes s a))"
proof (induction n arbitrary: index count s a)
  case 0
  then have "\<not> index < bound" by (simp add: word_less_nat_alt)
  moreover have "tls_abs s x = Some (area_bytes s a)" using "0.prems"(3,4) by (simp add: tls_abs_def)
  ultimately show ?case using "0.prems" by (subst write_loop.simps) (auto simp: fun_upd_idem)
next
  case (Suc n)
  then have lt: "index < bound" by (simp add: word_less_nat_alt)
  have iu: "unat (index + 1) = unat index + 1" by (rule unat_Suc_less [OF lt])
  have i: "unat index < unat (tsize a)" "unat index < 2 ^ 31" "index \<noteq> 0x7FFFFFFF"
    using lt Suc.prems(5,6) by (auto simp: word_less_nat_alt)
  have cnt: "count < length buffer" using Suc.prems(7) by simp
  have psz: "0 < pagesize env" using vm by (simp add: vm_ok_def)
  note len = length_area_bytes [OF Suc.prems(2,3,4) psz]
  obtain s1 a1 where s1: "write_byte env v index (buffer ! count) s = Some s1" "tls_inv env x PROT_WRITE s1"
      "owner s1 = owner s" "tlss s1 v = Some a1" "tsize a1 = tsize a"
      "tls_abs s1 = (tls_abs s)(x \<mapsto> (area_bytes s a)[unat index := buffer ! count])"
    by (rule write_byte_step [OF Suc.prems(2) vm Suc.prems(3,4) i(1,2)])
  have ow1: "owner s1 x = Some v" using s1(3) Suc.prems(3) by simp
  have ab: "area_bytes s1 a1 = (area_bytes s a)[unat index := buffer ! count]"
    using s1(4,6) ow1 by (auto simp: tls_abs_def fun_eq_iff split: if_splits)
  have n: "unat bound - unat (index + 1) = n" using Suc.prems(1) iu by simp
  have b: "unat bound \<le> unat (tsize a1)" "count + 1 + n \<le> length buffer" using Suc.prems(5,7) s1(5) by simp_all
  obtain s' a' where s': "write_loop env v (count + 1) (index + 1) bound buffer s1 = Some s'" "tls_inv env x PROT_WRITE s'"
      "owner s' = owner s1" "tlss s' v = Some a'" "tsize a' = tsize a1"
      "tls_abs s' = (tls_abs s1)(x \<mapsto> splice (unat (index + 1)) (take n (drop (count + 1) buffer)) (area_bytes s1 a1))"
    using Suc.IH [OF n s1(2) ow1 s1(4) b(1) Suc.prems(6) b(2)] by blast
  have "write_loop env v count index bound buffer s = Some s'"
    using lt s1(1) s'(1) i(3) cnt by (subst write_loop.simps) simp
  moreover have "splice (unat (index + 1)) (take n (drop (count + 1) buffer)) (area_bytes s1 a1) =
      splice (unat index) (take (Suc n) (drop count buffer)) (area_bytes s a)"
    using splice_Cons [of "unat index" "area_bytes s a"] i(1) len cnt
    by (simp add: ab iu Cons_nth_drop_Suc [symmetric])
  ultimately show ?case using s'(2-6) s1(3,5,6) by (intro exI [of _ s'] exI [of _ a']) simp
qed

lemma tls_write_step:
  assumes wf: "tls_wf env s" and vm: "vm_ok env" and c: "tls_abs s self = Some c"
    and fit: "unat offset + unat len \<le> length c" "length c < 2 ^ 31" and buf: "unat len \<le> length buffer"
  obtains s' where "tls_write env self offset len buffer s = Some (0, s')" "tls_wf env s'"
    "tls_abs s' = (tls_abs s)(self \<mapsto> splice (unat offset) (take (unat len) buffer) c)" "owner s' = owner s"
proof -
  have inv: "tls_inv env self PROT_NONE s" by (rule wf_inv [OF wf])
  from c obtain v where ow: "owner s self = Some v" by (auto simp: tls_abs_def bind_eq_Some_conv)
  obtain a where a: "tlss s v = Some a" "area_ok (pagesize env) a" "pages_of s self = tpages a"
      "tls_abs s self = Some (area_bytes s a)" by (rule ownerE [OF inv ow])
  have psz: "0 < pagesize env" using vm by (simp add: vm_ok_def)
  have len: "length c = unat (tsize a)" using length_area_bytes [OF inv ow a(1) psz] a(4) c by simp
  have sum: "unat (offset + len) = unat offset + unat len"
    using fit unat_add_lem [of offset len] by simp
  obtain p e where fnd: "Find self s = Some p" "p \<noteq> 0" "items s p = Some e" "itls e = v" by (rule FindE [OF inv ow])
  obtain s1 where s1: "protect_pages (pages_of s self) PROT_WRITE s = Some s1" "tls_inv env self PROT_WRITE s1"
      "owner s1 = owner s" "tlss s1 = tlss s" "page_bytes s1 = page_bytes s" "tls_abs s1 = tls_abs s"
    using protect_step [OF inv] by metis
  have ab: "area_bytes s1 a = c" using a(4) c s1(5) by (simp add: area_bytes_def)
  have "\<exists>s2 a2. write_loop env v 0 offset (offset + len) buffer s1 = Some s2 \<and> tls_inv env self PROT_WRITE s2 \<and>
       owner s2 = owner s1 \<and> tlss s2 v = Some a2 \<and> tsize a2 = tsize a \<and>
       tls_abs s2 = (tls_abs s1)(self \<mapsto> splice (unat offset) (take (unat len) (drop 0 buffer)) (area_bytes s1 a))"
    by (rule write_loop_step [OF vm]) (use s1(2-4) ow a(1) fit len buf sum in simp_all)
  then obtain s2 a2 where s2: "write_loop env v 0 offset (offset + len) buffer s1 = Some s2" "tls_inv env self PROT_WRITE s2"
      "owner s2 = owner s1" "tlss s2 v = Some a2"
      "tls_abs s2 = (tls_abs s)(self \<mapsto> splice (unat offset) (take (unat len) buffer) c)"
    using s1(6) ab by auto
  have ow2: "owner s2 self = Some v" using s2(3) s1(3) ow by simp
  have a2: "pages_of s2 self = tpages a2" "page_num a2 = length (tpages a2)"
    using ownerE [OF s2(2) ow2] s2(4) by (metis option.inject area_ok_def)+
  obtain s3 where s3: "protect_pages (pages_of s2 self) PROT_NONE s2 = Some s3" "tls_inv env self PROT_NONE s3"
      "owner s3 = owner s2" "tls_abs s3 = tls_abs s2"
    using protect_step [OF s2(2)] by metis
  have "\<not> tsize a < offset + len" using sum fit(1) len by (simp add: word_less_nat_alt)
  then have "tls_write env self offset len buffer s = Some (0, s3)"
    using fnd a(1-3) s1(1) s2(1,4) a2 s3(1) by (simp add: tls_write_def area_ok_def)
  with that inv_wf [OF s3(2)] s3(3,4) s2(3,5) s1(3) show ?thesis by simp
qed


section \<open>tls_read\<close>

lemma read_byte_ok:
  assumes inv: "tls_inv env x PROT_READ s" and vm: "vm_ok env" and ow: "owner s x = Some v" and a: "tlss s v = Some a"
    and i: "unat i < unat (tsize a)" "unat i < 2 ^ 31"
  shows "read_byte v i s = Some (area_bytes s a ! unat i)"
proof -
  let ?psz = "pagesize env" and ?pn = "unat i div pagesize env"
  let ?page = "tpages a ! ?pn"
  have psz: "0 < ?psz" "?psz < 2 ^ 32" using vm by (auto simp: vm_ok_def)
  have ar: "area_ok ?psz a" "pages_of s x = tpages a" "page_size s = ?psz" using ownerE [OF inv ow] a by (metis option.inject)+
  have pn: "?pn < length (tpages a)" using ar(1) npages_bounds(2) [OF psz(1) i(1)] by (simp add: area_ok_def)
  have pin: "?page \<in> set (pages_of s x)" using pn ar(2) by simp
  obtain P R where P: "pgs s ?page = Some P" "maps s (address P) = Some R" "length (rbytes R) = ?psz"
      "rprot R = (if ?page \<in> set (pages_of s x) then PROT_READ else PROT_NONE)" "page_bytes s ?page = rbytes R"
    using inv pin by (rule pageE)
  have po: "unat i mod ?psz < ?psz" using psz(1) by simp
  have len: "length (page_bytes s q) = ?psz" if "q \<in> set (tpages a)" for q
    using inv that unfolding ar(2) [symmetric] by (rule pageE) simp
  have "area_bytes s a ! unat i = concat (map (page_bytes s) (tpages a)) ! (?pn * ?psz + unat i mod ?psz)"
    using i(1) by (simp add: area_bytes_def)
  also have "\<dots> = rbytes R ! (unat i mod ?psz)" using concat_map_nth [OF len pn po] P(5) by simp
  finally have nth: "area_bytes s a ! unat i = rbytes R ! (unat i mod ?psz)" .
  have "array_get (tpages a) (int ?pn) = Some ?page" using pn by (simp only: array_get_int if_True)
  moreover have "array_get (rbytes R) (int (unat i mod ?psz)) = Some (rbytes R ! (unat i mod ?psz))"
    using po P(3) by (simp only: array_get_int if_True)
  ultimately show ?thesis
    using byte_pos_small [OF i(2) psz] P(1,2,4) a pin
    by (simp add: read_byte_def load_byte_def ar(3) nth del: array_get_int)
qed

lemma read_loop_ok:
  assumes inv: "tls_inv env x PROT_READ s" and vm: "vm_ok env" and ow: "owner s x = Some v" and a: "tlss s v = Some a"
    and b: "unat bound \<le> unat (tsize a)" "unat bound < 2 ^ 31"
  shows "unat bound - unat index = n \<Longrightarrow> read_loop v index bound s = Some (take n (drop (unat index) (area_bytes s a)))"
proof (induction n arbitrary: index)
  case 0
  then have "\<not> index < bound" by (simp add: word_less_nat_alt)
  then show ?case by (subst read_loop.simps) simp
next
  case (Suc n)
  then have lt: "index < bound" by (simp add: word_less_nat_alt)
  have iu: "unat (index + 1) = unat index + 1" by (rule unat_Suc_less [OF lt])
  have i: "unat index < unat (tsize a)" "unat index < 2 ^ 31" "index \<noteq> 0x7FFFFFFF"
    using lt b by (auto simp: word_less_nat_alt)
  have psz: "0 < pagesize env" using vm by (simp add: vm_ok_def)
  note len = length_area_bytes [OF inv ow a psz]
  have "read_loop v (index + 1) bound s = Some (take n (drop (unat (index + 1)) (area_bytes s a)))"
    by (rule Suc.IH) (use Suc.prems iu in simp)
  then show ?case
    using lt i(3) read_byte_ok [OF inv vm ow a i(1,2)] i(1) len
    by (subst read_loop.simps) (simp add: iu Cons_nth_drop_Suc [symmetric])
qed

lemma tls_read_step:
  assumes wf: "tls_wf env s" and vm: "vm_ok env" and c: "tls_abs s self = Some c"
    and fit: "unat offset + unat len \<le> length c" "length c < 2 ^ 31"
  obtains s' where "tls_read self offset len s = Some (0, take (unat len) (drop (unat offset) c), s')"
    "tls_wf env s'" "tls_abs s' = tls_abs s"
proof -
  have inv: "tls_inv env self PROT_NONE s" by (rule wf_inv [OF wf])
  from c obtain v where ow: "owner s self = Some v" by (auto simp: tls_abs_def bind_eq_Some_conv)
  obtain a where a: "tlss s v = Some a" "area_ok (pagesize env) a" "pages_of s self = tpages a"
      "tls_abs s self = Some (area_bytes s a)" by (rule ownerE [OF inv ow])
  have psz: "0 < pagesize env" using vm by (simp add: vm_ok_def)
  have len: "length c = unat (tsize a)" using length_area_bytes [OF inv ow a(1) psz] a(4) c by simp
  have sum: "unat (offset + len) = unat offset + unat len"
    using fit unat_add_lem [of offset len] by simp
  obtain p e where fnd: "Find self s = Some p" "p \<noteq> 0" "items s p = Some e" "itls e = v" by (rule FindE [OF inv ow])
  obtain s1 where s1: "protect_pages (pages_of s self) PROT_READ s = Some s1" "tls_inv env self PROT_READ s1"
      "owner s1 = owner s" "tlss s1 = tlss s" "page_bytes s1 = page_bytes s" "tls_abs s1 = tls_abs s"
    using protect_step [OF inv] by metis
  have ab: "area_bytes s1 a = c" using a(4) c s1(5) by (simp add: area_bytes_def)
  have ow1: "owner s1 self = Some v" and a1: "tlss s1 v = Some a" using s1(3,4) ow a(1) by simp_all
  have rl: "read_loop v offset (offset + len) s1 = Some (take (unat len) (drop (unat offset) c))"
    using read_loop_ok [OF s1(2) vm ow1 a1, of "offset + len" offset "unat len"] ab sum fit len by simp
  have "pages_of s1 self = tpages a" using ow1 a1 by (simp add: pages_of_def)
  then obtain s2 where s2: "protect_pages (tpages a) PROT_NONE s1 = Some s2" "tls_inv env self PROT_NONE s2"
      "tls_abs s2 = tls_abs s1"
    using protect_step [OF s1(2), of PROT_NONE] by metis
  have "\<not> tsize a < offset + len" using sum fit(1) len by (simp add: word_less_nat_alt)
  then have "tls_read self offset len s = Some (0, take (unat len) (drop (unat offset) c), s2)"
    using fnd a(1-3) s1(1) rl s2(1) by (simp add: tls_read_def area_ok_def)
  with that inv_wf [OF s2(2)] s2(3) s1(6) show ?thesis by simp
qed

end
