(* ===== verification/TLS_Create.thy ===== *)
theory TLS_Create
  imports TLS_IO
begin

text \<open>
  Creating and cloning: both end by adding one storage area to the table. The lemma
  \<open>add_area\<close> says when that keeps the invariant.
\<close>

section \<open>Adding an area\<close>

definition in_use :: "tls_state \<Rightarrow> ThreadLocalStorage \<Rightarrow> nat \<Rightarrow> bool" where
  "in_use s a q \<longleftrightarrow> users s q \<noteq> {} \<or> q \<in> set (tpages a)"

definition new_users :: "tls_state \<Rightarrow> pthread_t \<Rightarrow> ThreadLocalStorage \<Rightarrow> nat \<Rightarrow> pthread_t set" where
  "new_users s self a q = (if q \<in> set (tpages a) then insert self (users s q) else users s q)"

lemma add_area:
  assumes inv: "tls_inv env x PROT_NONE s0" and none: "owner s0 self = None" and nf: "\<not> is_first_call s0"
    and s1: "Table s1 = Table s0" "items s1 = items s0" "tlss s1 = tlss s0" "is_first_call s1 = is_first_call s0"
      "page_size s1 = page_size s0"
    and fr: "tlss s0 tp = None" "items s0 ip = None" "ip \<noteq> 0"
    and a: "area_ok (pagesize env) a"
    and s2: "s2 = link self tp ip (s1\<lparr>fresh := f, tlss := (tlss s1)(tp \<mapsto> a)\<rparr>)" and heap: "heap_ok s2"
    and pages: "\<And>q. in_use s0 a q \<Longrightarrow> \<exists>Q R. pgs s1 q = Some Q \<and> maps s1 (address Q) = Some R \<and>
      length (rbytes R) = pagesize env \<and> rprot R = PROT_NONE \<and> ref_count Q = int (card (new_users s0 self a q))"
    and adr: "\<And>p q P Q. in_use s0 a p \<Longrightarrow> in_use s0 a q \<Longrightarrow> pgs s1 p = Some P \<Longrightarrow> pgs s1 q = Some Q \<Longrightarrow>
      address P = address Q \<Longrightarrow> p = q"
    and bytes: "\<And>q. users s0 q \<noteq> {} \<Longrightarrow> page_bytes s1 q = page_bytes s0 q"
  shows "tls_wf env s2 \<and> tls_abs s2 = (tls_abs s0)(self \<mapsto> area_bytes s1 a)"
proof -
  let ?s = "s1\<lparr>fresh := f, tlss := (tlss s1)(tp \<mapsto> a)\<rparr>"
  have tab: "table_ok ?s" using inv table_ok_cong [of ?s s0] s1(1,2) by (simp add: tls_inv_def)
  have ow0: "owner ?s = owner s0" by (rule owner_cong) (simp_all add: s1)
  have av: "linkable ?s self ip" using fr s1(2) none by (simp add: linkable_def ow0)
  have ow: "owner s2 = (owner s0)(self \<mapsto> tp)" unfolding s2 tmap.lookup_ins_upd [OF tab av] ow0 ..
  have notp: "owner s0 t \<noteq> Some tp" for t using ownerE [OF inv, of t tp] fr(1) by (metis option.distinct(1))
  have inj0: "tmap.injective ?s" using inv injective_cong [OF ow0] by (simp add: tls_inv_def)
  have inj: "tmap.injective s2" unfolding s2
    by (rule tmap.ins_injective [OF tab av inj0]) (use notp ow0 in simp)
  have tl: "tlss s2 = (tlss s0)(tp \<mapsto> a)" and pg2: "pgs s2 = pgs s1" "maps s2 = maps s1"
    and fc: "is_first_call s2 = is_first_call s0" "page_size s2 = page_size s0"
    by (simp_all add: s2 link_def s1)
  have po: "pages_of s2 t = (if t = self then tpages a else pages_of s0 t)" for t
    using notp [of t] by (cases "owner s0 t") (simp_all add: pages_of_def ow tl)
  have po0: "pages_of s0 self = []" by (simp add: pages_of_def none)
  have us: "users s2 q = new_users s0 self a q" for q
    using po0 by (auto simp: users_def new_users_def po split: if_splits)
  have use: "in_use s0 a q" if "q \<in> set (pages_of s2 t)" for q t
    using that by (auto simp: in_use_def po users_def split: if_splits)
  have use': "in_use s0 a q" if "users s2 q \<noteq> {}" for q using that use by (auto simp: users_def)
  have pb: "page_bytes s2 = page_bytes s1" by (rule ext) (simp add: page_bytes_def pg2)
  have "pages_ok (pagesize env) 0 PROT_NONE s2"
    unfolding pages_ok_def
  proof (intro conjI allI ballI impI)
    fix t q
    assume "q \<in> set (pages_of s2 t)"
    from pages [OF use [OF this]] show "page_ok (pagesize env) (if q \<in> set (pages_of s2 0) then PROT_NONE else PROT_NONE) s2 q"
      by (simp add: page_ok_def pg2 us)
  next
    fix p q P Q
    assume "users s2 p \<noteq> {}" "users s2 q \<noteq> {}" "pgs s2 p = Some P" "pgs s2 q = Some Q" "address P = address Q"
    then show "p = q" using adr [OF use' use'] pg2(1) by simp
  qed
  moreover have "areas_ok env s2"
    using inv a nf notp by (auto simp: tls_inv_def areas_ok_def ow tl fc)
  moreover have "table_ok s2" unfolding s2 by (rule tmap.ins_ok [OF tab av])
  ultimately have wf: "tls_wf env s2" using inj heap by (simp add: tls_wf_def tls_inv_def)
  have "tls_abs s2 t = tls_abs s0 t" if t: "t \<noteq> self" for t
  proof (cases "owner s0 t")
    case (Some v)
    obtain b where b: "tlss s0 v = Some b" "pages_of s0 t = tpages b" by (rule ownerE [OF inv Some])
    have "map (page_bytes s2) (tpages b) = map (page_bytes s0) (tpages b)"
      unfolding pb b(2) [symmetric] by (rule map_cong [OF refl], rule bytes) (auto simp: users_def)
    from area_bytes_cong [OF refl this] have "area_bytes s2 b = area_bytes s0 b" .
    with Some b(1) notp [of t] t show ?thesis by (simp add: tls_abs_def ow tl)
  qed (use t in \<open>simp add: tls_abs_def ow\<close>)
  moreover have "tls_abs s2 self = Some (area_bytes s1 a)"
    by (simp add: tls_abs_def ow tl area_bytes_def pb)
  ultimately have "tls_abs s2 = (tls_abs s0)(self \<mapsto> area_bytes s1 a)" by (auto simp: fun_eq_iff)
  with wf show ?thesis ..
qed


section \<open>tls_create\<close>

lemma create_pages_ok:
  assumes vm: "vm_ok env"
  shows "heap_ok s \<Longrightarrow>
     \<exists>ps s'. create_pages env n s = (Some ps, s') \<and> length ps = n \<and> distinct ps \<and> heap_ok s' \<and>
       Table s' = Table s \<and> items s' = items s \<and> tlss s' = tlss s \<and> is_first_call s' = is_first_call s \<and>
       page_size s' = page_size s \<and> fresh s \<le> fresh s' \<and> (\<forall>p\<in>set ps. fresh s \<le> p \<and> p < fresh s') \<and>
       (\<forall>p<fresh s. pgs s' p = pgs s p) \<and> (\<forall>a\<in>dom (maps s). maps s' a = maps s a) \<and>
       (\<forall>p\<in>set ps. \<exists>a. pgs s' p = Some \<lparr>address = a, ref_count = 1\<rparr> \<and> maps s a = None \<and>
          maps s' a = Some \<lparr>rprot = PROT_NONE, rbytes = replicate (page_size s) NUL\<rparr>) \<and>
       (\<forall>p\<in>set ps. \<forall>q\<in>set ps. address (the (pgs s' p)) = address (the (pgs s' q)) \<longrightarrow> p = q)"
proof (induction n arbitrary: s)
  case 0
  then show ?case by simp
next
  case (Suc n)
  from vm Suc.prems obtain a where a: "mmap_addr env (mmaps s) (maps s) = Some a" "maps s a = None"
    unfolding vm_ok_def heap_ok_def by blast
  let ?R = "\<lparr>rprot = PROT_NONE, rbytes = replicate (page_size s) NUL\<rparr>"
  define s1 where "s1 = s\<lparr>fresh := fresh s + 1, mmaps := mmaps s + 1, maps := (maps s)(a \<mapsto> ?R),
     pgs := (pgs s)(fresh s \<mapsto> \<lparr>address = a, ref_count = 1\<rparr>)\<rparr>"
  have h1: "heap_ok s1" using Suc.prems by (auto simp: heap_ok_def s1_def)
  have sel: "Table s1 = Table s" "items s1 = items s" "tlss s1 = tlss s" "is_first_call s1 = is_first_call s"
    "page_size s1 = page_size s" "fresh s1 = fresh s + 1"
    by (simp_all add: s1_def)
  from Suc.IH [OF h1] obtain ps s' where r: "create_pages env n s1 = (Some ps, s')" "length ps = n" "distinct ps" "heap_ok s'"
       "Table s' = Table s" "items s' = items s" "tlss s' = tlss s" "is_first_call s' = is_first_call s"
       "page_size s' = page_size s" "fresh s + 1 \<le> fresh s'" "\<forall>p\<in>set ps. fresh s + 1 \<le> p \<and> p < fresh s'"
       "\<forall>p<fresh s + 1. pgs s' p = pgs s1 p" "\<forall>b\<in>dom (maps s1). maps s' b = maps s1 b"
       "\<forall>p\<in>set ps. \<exists>b. pgs s' p = Some \<lparr>address = b, ref_count = 1\<rparr> \<and> maps s1 b = None \<and> maps s' b = Some ?R"
       "\<forall>p\<in>set ps. \<forall>q\<in>set ps. address (the (pgs s' p)) = address (the (pgs s' q)) \<longrightarrow> p = q"
    unfolding sel by blast
  have new: "pgs s' (fresh s) = Some \<lparr>address = a, ref_count = 1\<rparr>" "maps s' a = Some ?R"
    using r(12,13) by (simp_all add: s1_def)
  have na: "address (the (pgs s' p)) \<noteq> a" if "p \<in> set ps" for p
    using r(14) that by (force simp: s1_def)
  have run: "create_pages env (Suc n) s = (Some (fresh s # ps), s')"
    using a(1) r(1) by (simp add: mmap_def s1_def)
  have "maps s' b = maps s b" if "b \<in> dom (maps s)" for b
    using r(13) a(2) that by (auto simp: s1_def)
  moreover have "\<exists>b. pgs s' p = Some \<lparr>address = b, ref_count = 1\<rparr> \<and> maps s b = None \<and> maps s' b = Some ?R"
    if "p \<in> set (fresh s # ps)" for p
    using that new a(2) r(14) by (auto simp: s1_def split: if_splits)
  moreover have "p = q" if "p \<in> set (fresh s # ps)" "q \<in> set (fresh s # ps)"
      "address (the (pgs s' p)) = address (the (pgs s' q))" for p q
  proof (cases "p = fresh s"; cases "q = fresh s")
    assume "p \<noteq> fresh s" "q \<noteq> fresh s"
    with that r(15) show ?thesis by simp
  qed (use that na [of p] na [of q] new(1) in simp_all)
  moreover have "distinct (fresh s # ps)" using r(3,11) by force
  moreover have "\<forall>p\<in>set (fresh s # ps). fresh s \<le> p \<and> p < fresh s'" using r(10,11) by auto
  moreover have "\<forall>p<fresh s. pgs s' p = pgs s p" using r(12) by (simp add: s1_def)
  ultimately show ?case using run r(2,4-10) by (intro exI [of _ "fresh s # ps"] exI [of _ s']) simp
qed

definition first_call :: "tls_env \<Rightarrow> tls_state \<Rightarrow> tls_state" where
  "first_call env s = (if is_first_call s then (tls_init env s)\<lparr>is_first_call := False\<rparr> else s)"

lemma first_call_ok:
  assumes wf: "tls_wf env s"
  shows "tls_wf env (first_call env s)" "owner (first_call env s) = owner s" "tls_abs (first_call env s) = tls_abs s"
    "\<not> is_first_call (first_call env s)" "page_size (first_call env s) = pagesize env"
proof -
  let ?s = "first_call env s"
  have sel: "Table ?s = Table s" "items ?s = items s" "tlss ?s = tlss s" "pgs ?s = pgs s" "fresh ?s = fresh s" "maps ?s = maps s"
    by (simp_all add: first_call_def tls_init_def)
  note ow = owner_cong [OF sel(1,2)]
  note pg = pages_of_cong [OF ow sel(3)] and tab = table_ok_cong [OF sel(1,2)] and inj = injective_cong [OF ow]
  note us = users_cong [OF pg]
  show "owner ?s = owner s" by (rule ow)
  have "page_bytes ?s = page_bytes s" by (rule ext) (simp add: page_bytes_def sel)
  then show "tls_abs ?s = tls_abs s" by (intro ext) (simp add: tls_abs_def ow sel area_bytes_def)
  show fc: "\<not> is_first_call ?s" by (simp add: first_call_def)
  show ps: "page_size ?s = pagesize env"
    using wf by (simp add: first_call_def tls_init_def tls_wf_def tls_inv_def areas_ok_def)
  show "tls_wf env ?s"
    using wf by (auto simp: tls_wf_def tls_inv_def tab inj heap_ok_def sel areas_ok_def ow fc ps pages_ok_def page_ok_def pg us)
qed

lemma concat_replicate_NUL:
  "(\<And>p. p \<in> set ps \<Longrightarrow> f p = replicate k c) \<Longrightarrow> concat (map f ps) = replicate (length ps * k) c"
  by (induction ps) (simp_all add: replicate_add)

lemma npages_fit: "0 < k \<Longrightarrow> n \<le> npages k n * k"
proof (cases "n mod k = 0")
  case True
  then show ?thesis using div_mult_mod_eq [of n k] by (simp add: npages_def)
next
  case False
  assume "0 < k"
  then have "n mod k \<le> k" by simp
  with div_mult_mod_eq [of n k] have "n \<le> n div k * k + k" by linarith
  with False show ?thesis by (simp add: npages_def)
qed

text \<open>Fresh pages \<open>ps\<close> have been added: they are zero, protected and used once, the old ones are as before.\<close>

definition pages_added :: "nat list \<Rightarrow> tls_state \<Rightarrow> tls_state \<Rightarrow> bool" where
  "pages_added ps s0 s1 \<longleftrightarrow>
     (\<forall>p\<in>set ps. fresh s0 < p) \<and> (\<forall>p\<le>fresh s0. pgs s1 p = pgs s0 p) \<and> (\<forall>a\<in>dom (maps s0). maps s1 a = maps s0 a) \<and>
     (\<forall>p\<in>set ps. \<exists>a. pgs s1 p = Some \<lparr>address = a, ref_count = 1\<rparr> \<and> maps s0 a = None \<and>
        maps s1 a = Some \<lparr>rprot = PROT_NONE, rbytes = replicate (page_size s0) NUL\<rparr>) \<and>
     (\<forall>p\<in>set ps. \<forall>q\<in>set ps. address (the (pgs s1 p)) = address (the (pgs s1 q)) \<longrightarrow> p = q)"

lemma pages_added_old:
  assumes inv: "tls_inv env 0 PROT_NONE s0" and add: "pages_added ps s0 s1" and u: "users s0 q \<noteq> {}"
  obtains Q R where "pgs s0 q = Some Q" "pgs s1 q = Some Q" "maps s0 (address Q) = Some R" "maps s1 (address Q) = Some R"
    "length (rbytes R) = pagesize env" "rprot R = PROT_NONE" "ref_count Q = int (card (users s0 q))" "q \<notin> set ps"
proof -
  from u obtain t where t: "q \<in> set (pages_of s0 t)" by (auto simp: users_def)
  obtain Q R where Q: "pgs s0 q = Some Q" "maps s0 (address Q) = Some R" "length (rbytes R) = pagesize env"
      "rprot R = (if q \<in> set (pages_of s0 0) then PROT_NONE else PROT_NONE)" "ref_count Q = int (card (users s0 q))"
    using inv t by (rule pageE)
  have "heap_ok s0" using inv by (simp add: tls_inv_def)
  then have "q < fresh s0" using heap_used(1) Q(1) by auto
  then have "pgs s1 q = pgs s0 q" "q \<notin> set ps" using add by (auto simp: pages_added_def)
  moreover have "maps s1 (address Q) = maps s0 (address Q)" using add domI [of "maps s0", OF Q(2)] unfolding pages_added_def by blast
  ultimately show ?thesis using Q by (intro that [of Q R]) simp_all
qed

lemma pages_added_inj:
  assumes inv: "tls_inv env 0 PROT_NONE s0" and add: "pages_added ps s0 s1" and p: "users s0 p \<noteq> {} \<or> p \<in> set ps"
    and q: "users s0 q \<noteq> {} \<or> q \<in> set ps" and P: "pgs s1 p = Some P" "pgs s1 q = Some Q" "address P = address Q"
  shows "p = q"
proof -
  have diff: False if d: "users s0 p \<noteq> {}" "q \<in> set ps" "pgs s1 p = Some P" "pgs s1 q = Some Q" "address P = address Q" for p q P Q
  proof -
    obtain a where "pgs s1 q = Some \<lparr>address = a, ref_count = 1\<rparr>" "maps s0 a = None" using add d(2) unfolding pages_added_def by blast
    then have "maps s0 (address P) = None" using d(4,5) by simp
    with d(3) show False by (auto intro: pages_added_old [OF inv add d(1)])
  qed
  show ?thesis
  proof (cases "users s0 p = {}"; cases "users s0 q = {}")
    assume "users s0 p = {}" "users s0 q = {}"
    then show ?thesis using p q P add by (auto simp: pages_added_def)
  next
    assume u: "users s0 p \<noteq> {}" "users s0 q \<noteq> {}"
    then obtain t t' where "p \<in> set (pages_of s0 t)" "q \<in> set (pages_of s0 t')" by (auto simp: users_def)
    note inj = address_inj [OF inv this]
    have "pgs s0 p = Some P" "pgs s0 q = Some Q"
      by (rule pages_added_old [OF inv add u(1)], use P(1) in simp, rule pages_added_old [OF inv add u(2)], use P(2) in simp)
    from inj [OF this P(3)] show ?thesis .
  qed (use diff [of p q P Q] diff [of q p Q P] p q P in auto)
qed

text \<open>The area on the fresh pages is added to the table.\<close>

lemma fresh_area:
  assumes inv: "tls_inv env 0 PROT_NONE s0" and ow: "owner s0 self = None" and fc: "\<not> is_first_call s0" and ps: "page_size s0 = pagesize env"
    and s1: "Table s1 = Table s0" "items s1 = items s0" "tlss s1 = tlss s0" "is_first_call s1 = is_first_call s0" "page_size s1 = page_size s0"
    and fr: "heap_ok s1" "fresh s0 + 1 \<le> fresh s1" and add: "pages_added (tpages a) s0 s1" and a: "area_ok (pagesize env) a"
  defines "s2 \<equiv> link self (fresh s0) (fresh s1) (s1\<lparr>fresh := fresh s1 + 1, tlss := (tlss s1)(fresh s0 \<mapsto> a)\<rparr>)"
  shows "tls_wf env s2 \<and> tls_abs s2 = (tls_abs s0)(self \<mapsto> area_bytes s1 a)"
proof -
  have hp: "heap_ok s0" using inv by (simp add: tls_inv_def)
  show ?thesis
  proof (rule add_area [OF inv ow fc s1 _ _ _ a s2_def [THEN meta_eq_to_obj_eq]])
    show "tlss s0 (fresh s0) = None" "items s0 (fresh s1) = None" "fresh s1 \<noteq> 0" using hp fr(2) by (auto simp: heap_ok_def)
    show "heap_ok s2" using fr hp by (auto simp: s2_def heap_ok_def link_def)
    show "\<exists>Q R. pgs s1 q = Some Q \<and> maps s1 (address Q) = Some R \<and> length (rbytes R) = pagesize env \<and>
        rprot R = PROT_NONE \<and> ref_count Q = int (card (new_users s0 self a q))" if "in_use s0 a q" for q
    proof (cases "users s0 q = {}")
      case False
      then show ?thesis by (rule pages_added_old [OF inv add]) (auto simp: new_users_def)
    next
      case True
      then have "q \<in> set (tpages a)" using that by (simp add: in_use_def)
      with True add ps show ?thesis by (auto simp: pages_added_def new_users_def)
    qed
    show "p = q" if "in_use s0 a p" "in_use s0 a q" "pgs s1 p = Some P" "pgs s1 q = Some Q" "address P = address Q" for p q P Q
      using pages_added_inj [OF inv add _ _ that(3-5)] that(1,2) by (auto simp: in_use_def)
    show "page_bytes s1 q = page_bytes s0 q" if "users s0 q \<noteq> {}" for q
      using that by (rule pages_added_old [OF inv add]) (simp add: page_bytes_def)
  qed
qed

lemma tls_create_step:
  assumes wf: "tls_wf env s" and vm: "vm_ok env" and none: "tls_abs s self = None" and sz: "0 < sz"
  obtains s' where "tls_create env self sz s = Some (0, s')" "tls_wf env s'"
    "tls_abs s' = (tls_abs s)(self \<mapsto> replicate (unat sz) NUL)"
proof -
  define s0 where "s0 = first_call env s"
  note f = first_call_ok [OF wf, folded s0_def]
  have inv: "tls_inv env 0 PROT_NONE s0" by (rule wf_inv [OF f(1)])
  have psz: "0 < pagesize env" using vm by (simp add: vm_ok_def)
  have ow: "owner s0 self = None"
    using none ownerE [OF inv, of self] unfolding f(3) [symmetric] by (metis option.distinct(1) option.exhaust)
  let ?n = "npages (pagesize env) (unat sz)" and ?s = "s0\<lparr>fresh := fresh s0 + 1\<rparr>"
  have hp': "heap_ok ?s" using inv by (simp add: tls_inv_def heap_ok_def)
  obtain ps s1 where r: "create_pages env ?n ?s = (Some ps, s1)" "length ps = ?n" "distinct ps" "heap_ok s1"
      "Table s1 = Table s0" "items s1 = items s0" "tlss s1 = tlss s0" "is_first_call s1 = is_first_call s0"
      "page_size s1 = page_size s0" "fresh s0 + 1 \<le> fresh s1" "pages_added ps s0 s1"
    using create_pages_ok [OF vm hp', of ?n] by (auto simp: pages_added_def less_Suc_eq_le Suc_le_eq)
  let ?a = "\<lparr>tsize = sz, page_num = ?n, tpages = ps\<rparr>"
  let ?s2 = "link self (fresh s0) (fresh s1) (s1\<lparr>fresh := fresh s1 + 1, tlss := (tlss s1)(fresh s0 \<mapsto> ?a)\<rparr>)"
  have "area_ok (pagesize env) ?a" using r(2,3) by (simp add: area_ok_def)
  then have res: "tls_wf env ?s2 \<and> tls_abs ?s2 = (tls_abs s0)(self \<mapsto> area_bytes s1 ?a)"
    using fresh_area [OF inv ow f(4,5) r(5-9,4,10)] r(11) by simp
  have "page_bytes s1 p = replicate (pagesize env) NUL" if "p \<in> set ps" for p
    using r(11) that f(5) by (auto simp: pages_added_def page_bytes_def)
  from concat_replicate_NUL [of ps "page_bytes s1", OF this] have "area_bytes s1 ?a = replicate (unat sz) NUL"
    using npages_fit [OF psz, of "unat sz"] r(2) by (simp add: area_bytes_def min_absorb1)
  moreover have "tls_create env self sz s = Some (0, ?s2)"
  proof -
    have "table_ok (s1\<lparr>fresh := fresh s1 + 1, tlss := (tlss s1)(fresh s0 \<mapsto> ?a)\<rparr>)"
      using inv table_ok_cong [OF r(5,6)] by (simp add: tls_inv_def table_ok_def chain_ok_def)
    from Add_link [OF this, of self "fresh s1" "fresh s0"] show ?thesis
      unfolding tls_create_def Let_def first_call_def [symmetric] s0_def [symmetric]
      using sz psz f(5) Find_absent [OF inv ow] r(1) by (simp add: npages_def Let_def)
  qed
  ultimately show ?thesis using that res f(3) by simp
qed


section \<open>tls_clone\<close>

definition bump :: "nat list \<Rightarrow> (nat \<rightharpoonup> Page) \<Rightarrow> (nat \<rightharpoonup> Page)" where
  "bump ps P = (\<lambda>q. if q \<in> set ps then map_option (\<lambda>pg. pg\<lparr>ref_count := ref_count pg + 1\<rparr>) (P q) else P q)"

lemma share_pages_ok:
  "distinct ps \<Longrightarrow> (\<And>p. p \<in> set ps \<Longrightarrow> pgs s p \<noteq> None) \<Longrightarrow> share_pages ps s = Some (s\<lparr>pgs := bump ps (pgs s)\<rparr>)"
proof (induction ps arbitrary: s)
  case Nil
  then show ?case by (simp add: bump_def)
next
  case (Cons p ps)
  from Cons.prems(2) [of p] obtain P where P: "pgs s p = Some P" by auto
  let ?s = "s\<lparr>pgs := (pgs s)(p \<mapsto> P\<lparr>ref_count := ref_count P + 1\<rparr>)\<rparr>"
  have "share_pages ps ?s = Some (?s\<lparr>pgs := bump ps (pgs ?s)\<rparr>)"
    by (rule Cons.IH) (use Cons.prems in auto)
  moreover have "bump ps (pgs ?s) = bump (p # ps) (pgs s)"
    using P Cons.prems(1) by (auto simp: bump_def fun_eq_iff)
  ultimately show ?case using P by simp
qed

lemma tls_clone_step:
  assumes wf: "tls_wf env s" and none: "tls_abs s self = None" and c: "tls_abs s tid = Some c"
  obtains s' where "tls_clone self tid s = Some (0, s')" "tls_wf env s'" "tls_abs s' = (tls_abs s)(self \<mapsto> c)"
    "maps s' = maps s"
proof -
  have inv: "tls_inv env 0 PROT_NONE s" by (rule wf_inv [OF wf])
  from c obtain v where ow: "owner s tid = Some v" by (auto simp: tls_abs_def bind_eq_Some_conv)
  obtain a where a: "tlss s v = Some a" "area_ok (pagesize env) a" "pages_of s tid = tpages a"
      "tls_abs s tid = Some (area_bytes s a)" and nf: "\<not> is_first_call s" by (rule ownerE [OF inv ow])
  have no: "owner s self = None"
    using none ownerE [OF inv, of self] by (metis option.distinct(1) option.exhaust)
  obtain p e where p: "Find tid s = Some p" "p \<noteq> 0" "items s p = Some e" "itls e = v" by (rule FindE [OF inv ow])
  have hp: "heap_ok s" using inv by (simp add: tls_inv_def)
  define s1 where "s1 = s\<lparr>pgs := bump (tpages a) (pgs s)\<rparr>"
  have sel: "Table s1 = Table s" "items s1 = items s" "tlss s1 = tlss s" "is_first_call s1 = is_first_call s"
    "page_size s1 = page_size s" "maps s1 = maps s" "fresh s1 = fresh s" "pgs s1 = bump (tpages a) (pgs s)"
    by (simp_all add: s1_def)
  have full: "take (page_num a) (tpages a) = tpages a" and dis: "distinct (tpages a)"
    using a(2) by (simp_all add: area_ok_def)
  have ex: "pgs s p \<noteq> None" if "p \<in> set (tpages a)" for p
    using that unfolding a(3) [symmetric] by (rule pageE [OF inv]) simp
  have share: "share_pages (tpages a) s = Some s1"
    unfolding s1_def by (rule share_pages_ok [OF dis]) (rule ex)
  let ?s2 = "link self (fresh s + 1) (fresh s) (s1\<lparr>fresh := fresh s + 2, tlss := (tlss s1)(fresh s + 1 \<mapsto> a)\<rparr>)"
  have used: "\<exists>t. q \<in> set (pages_of s t)" if "in_use s a q" for q
    using that unfolding in_use_def users_def a(3) [symmetric] by blast
  have pb: "page_bytes s1 q = page_bytes s q" for q
    by (cases "pgs s q") (simp_all add: page_bytes_def sel bump_def)
  have res: "tls_wf env ?s2 \<and> tls_abs ?s2 = (tls_abs s)(self \<mapsto> area_bytes s1 a)"
  proof (rule add_area [OF inv no nf sel(1-5) _ _ _ a(2) refl])
    show "tlss s (fresh s + 1) = None" "items s (fresh s) = None" "fresh s \<noteq> 0"
      using hp by (auto simp: heap_ok_def)
    show "heap_ok ?s2" using hp by (auto simp: heap_ok_def link_def sel bump_def)
    fix q
    assume q: "in_use s a q"
    from used [OF q] obtain t where t: "q \<in> set (pages_of s t)" ..
    obtain Q R where Q: "pgs s q = Some Q" "maps s (address Q) = Some R" "length (rbytes R) = pagesize env"
        "rprot R = (if q \<in> set (pages_of s 0) then PROT_NONE else PROT_NONE)" "ref_count Q = int (card (users s q))"
      using inv t by (rule pageE)
    have "self \<notin> users s q" by (simp add: users_def pages_of_def no)
    then have "card (new_users s self a q) = card (users s q) + (if q \<in> set (tpages a) then 1 else 0)"
      by (simp add: new_users_def)
    with Q show "\<exists>Q R. pgs s1 q = Some Q \<and> maps s1 (address Q) = Some R \<and> length (rbytes R) = pagesize env \<and>
        rprot R = PROT_NONE \<and> ref_count Q = int (card (new_users s self a q))"
      by (simp add: sel bump_def)
  next
    fix p q P Q
    assume pq: "in_use s a p" "in_use s a q" "pgs s1 p = Some P" "pgs s1 q = Some Q" "address P = address Q"
    from used [OF pq(1)] used [OF pq(2)] obtain t t' where t: "p \<in> set (pages_of s t)" "q \<in> set (pages_of s t')" by blast
    have "\<exists>P0. pgs s p = Some P0 \<and> address P0 = address P" if "pgs s1 p = Some P" for p P
      using that by (cases "pgs s p") (auto simp: sel bump_def split: if_splits)
    from this [OF pq(3)] this [OF pq(4)] obtain P0 Q0 where
      "pgs s p = Some P0" "pgs s q = Some Q0" "address P0 = address Q0" using pq(5) by auto
    from address_inj [OF inv t this] show "p = q" .
  qed (rule pb)
  have "map (page_bytes s1) (tpages a) = map (page_bytes s) (tpages a)" by (simp add: pb)
  from area_bytes_cong [OF refl this] have "area_bytes s1 a = c" using a(4) c by simp
  moreover have "tls_clone self tid s = Some (0, ?s2)"
  proof -
    have "table_ok (s1\<lparr>fresh := fresh s + 2, tlss := (tlss s1)(fresh s + 1 \<mapsto> a)\<rparr>)"
      using inv table_ok_cong [OF sel(1,2)] by (simp add: tls_inv_def table_ok_def chain_ok_def)
    from Add_link [OF this, of self "fresh s" "fresh s + 1"] show ?thesis
      using p Find_absent [OF inv no] a(1) full share by (simp add: tls_clone_def sel Let_def)
  qed
  moreover have "maps ?s2 = maps s" by (simp add: link_def sel)
  ultimately show ?thesis using that res by simp
qed

end
