(* ===== verification/TLS_Fault.thy ===== *)
theory TLS_Fault
  imports TLS_Inv
begin

text \<open>
  The page-fault handler of \<^verbatim>\<open>tls.c\<close>, which walks every chain of the table, and \<open>tls_destroy\<close>,
  which frees an item that stays linked.
\<close>

section \<open>Walking the table\<close>

lemma chain_owner:
  assumes "table_ok s" "i < HASH" "chain_ok s i ps" "q \<in> set ps" "items s q = Some e"
  shows "owner s (itid e) = Some (itls e)"
proof -
  have h: "HashFunction (itid e) = i" and d: "distinct (map (\<lambda>q. itid (the (items s q))) ps)"
    using assms(3-5) by (auto simp: chain_ok_def)
  from find_distinct_map [OF d assms(4)] assms(5) Find_chain [OF assms(1), of "itid e" ps] assms(3) h
  show ?thesis by (simp add: owner_def)
qed

lemma owner_chain:
  assumes "table_ok s" "items s 0 = None" "owner s t = Some v"
  obtains ps q e where "chain_ok s (HashFunction t) ps" "q \<in> set ps" "items s q = Some e" "itid e = t" "itls e = v"
    "find (\<lambda>q. itid (the (items s q)) = t) ps = Some q"
proof -
  obtain ps where ps: "chain_ok s (HashFunction t) ps" by (rule table_okE [OF assms(1) HashFunction_less])
  show ?thesis
  proof (cases "find (\<lambda>q. itid (the (items s q)) = t) ps")
    case None
    then show ?thesis using Find_chain [OF assms(1) ps] assms(2,3) by (simp add: owner_def)
  next
    case (Some q)
    then have q: "q \<in> set ps" "itid (the (items s q)) = t" by (auto simp: find_Some_iff)
    then obtain e where e: "items s q = Some e" using bucket_dom ps by (fastforce simp: chain_ok_def)
    have "owner s t = Some (itls e)" using Find_chain [OF assms(1) ps] Some e by (simp add: owner_def)
    with that [OF ps q(1) e _ _ Some] q(2) e assms(3) show ?thesis by simp
  qed
qed


section \<open>The page-fault handler\<close>

definition page_at :: "tls_state \<Rightarrow> nat \<Rightarrow> nat \<Rightarrow> bool" where
  "page_at s a p \<longleftrightarrow> (\<exists>P. pgs s p = Some P \<and> address P = a)"

lemma fault_pages_ok:
  "(\<And>p. p \<in> set ps \<Longrightarrow> pgs s p \<noteq> None) \<Longrightarrow> fault_pages (pgs s) a ps = Some (\<exists>p\<in>set ps. page_at s a p)"
proof (induction ps)
  case (Cons p ps)
  from Cons.prems [of p] obtain P where "pgs s p = Some P" by auto
  with Cons show ?case by (simp add: page_at_def)
qed simp

lemma fault_items_ok:
  assumes "bucket (items s) p qs"
    and "\<And>q e. q \<in> set qs \<Longrightarrow> items s q = Some e \<Longrightarrow>
       \<exists>b. tlss s (itls e) = Some b \<and> fault_pages (pgs s) a (take (page_num b) (tpages b)) = Some (hit q)"
  shows "fault_items s a p = Some (\<exists>q\<in>set qs. hit q)"
  using assms
proof (induction qs arbitrary: p)
  case Nil
  then show ?case by (subst fault_items.simps) simp
next
  case (Cons q qs)
  then obtain e where e: "p = q" "q \<noteq> 0" "items s q = Some e" "bucket (items s) (inext e) qs"
    by (auto split: option.splits)
  from Cons.IH [OF e(4)] Cons.prems(2) have "fault_items s a (inext e) = Some (\<exists>q\<in>set qs. hit q)" by simp
  with Cons.prems(2) [of q e] e show ?case by (subst fault_items.simps) auto
qed

lemma fault_table_ok:
  "(\<And>p. p \<in> set ps \<Longrightarrow> fault_items s a p = Some (hit p)) \<Longrightarrow> fault_table s a ps = Some (\<exists>p\<in>set ps. hit p)"
  by (induction ps) auto

lemma fault_chain:
  assumes inv: "tls_inv env x pr s" and i: "i < HASH" and ps: "chain_ok s i qs"
  shows "fault_items s a (Table s ! i) = Some (\<exists>q\<in>set qs. \<exists>p\<in>set (pages_of s (itid (the (items s q)))). page_at s a p)"
proof (rule fault_items_ok)
  show "bucket (items s) (Table s ! i) qs" using ps by (simp add: chain_ok_def)
  fix q e
  assume q: "q \<in> set qs" "items s q = Some e"
  have tab: "table_ok s" using inv by (simp add: tls_inv_def)
  from ownerE [OF inv chain_owner [OF tab i ps q]] obtain b where b: "tlss s (itls e) = Some b"
    "area_ok (pagesize env) b" "pages_of s (itid e) = tpages b" by blast
  have "pgs s p \<noteq> None" if "p \<in> set (tpages b)" for p
    using that unfolding b(3) [symmetric] by (rule pageE [OF inv]) simp
  from fault_pages_ok [of "tpages b", OF this] b q(2)
  show "\<exists>b. tlss s (itls e) = Some b \<and> fault_pages (pgs s) a (take (page_num b) (tpages b)) =
      Some (\<exists>p\<in>set (pages_of s (itid (the (items s q)))). page_at s a p)"
    by (simp add: area_ok_def)
qed

lemma fault_handler_ok:
  assumes inv: "tls_inv env x pr s"
  shows "tls_handle_page_fault adr s =
    Some (if \<exists>t. \<exists>p\<in>set (pages_of s t). page_at s (page_of (page_size s) adr) p then Thread_Exit else Raise_Default)"
proof -
  let ?a = "page_of (page_size s) adr"
  let ?hit = "\<lambda>p. the (fault_items s ?a p)"
  have tab: "table_ok s" and z: "items s 0 = None" using inv by (auto simp: tls_inv_def heap_ok_def)
  have len: "length (Table s) = HASH" using tab by (simp add: table_ok_def)
  have "fault_items s ?a p = Some (?hit p)" if "p \<in> set (Table s)" for p
  proof -
    from that obtain i where i: "i < HASH" "p = Table s ! i" by (auto simp: in_set_conv_nth len)
    obtain qs where "chain_ok s i qs" by (rule table_okE [OF tab i(1)])
    from fault_chain [OF inv i(1) this] i(2) show ?thesis by simp
  qed
  from fault_table_ok [of "Table s", OF this]
  have run: "fault_table s ?a (Table s) = Some (\<exists>p\<in>set (Table s). ?hit p)" .
  have "(\<exists>p\<in>set (Table s). ?hit p) \<longleftrightarrow> (\<exists>t. \<exists>p\<in>set (pages_of s t). page_at s ?a p)"
  proof
    assume "\<exists>p\<in>set (Table s). ?hit p"
    then obtain i where i: "i < HASH" "?hit (Table s ! i)" by (auto simp: in_set_conv_nth len)
    obtain qs where "chain_ok s i qs" by (rule table_okE [OF tab i(1)])
    from fault_chain [OF inv i(1) this] i(2) show "\<exists>t. \<exists>p\<in>set (pages_of s t). page_at s ?a p" by auto
  next
    assume "\<exists>t. \<exists>p\<in>set (pages_of s t). page_at s ?a p"
    then obtain t p where t: "p \<in> set (pages_of s t)" "page_at s ?a p" by blast
    then obtain v where "owner s t = Some v" by (cases "owner s t") (auto simp: pages_of_def)
    from owner_chain [OF tab z this] obtain qs q e where q: "chain_ok s (HashFunction t) qs" "q \<in> set qs"
      "items s q = Some e" "itid e = t" by metis
    have "\<exists>q\<in>set qs. \<exists>p\<in>set (pages_of s (itid (the (items s q)))). page_at s ?a p"
      using q(2-4) t by (intro bexI [of _ q] bexI [of _ p]) simp_all
    with fault_chain [OF inv HashFunction_less q(1)] have "?hit (Table s ! HashFunction t)" by auto
    then show "\<exists>p\<in>set (Table s). ?hit p" by (auto simp: len intro!: bexI nth_mem)
  qed
  with run show ?thesis by (simp add: tls_handle_page_fault_def)
qed


section \<open>tls_destroy\<close>

lemma Find_loop_freed:
  "bucket H p ps \<Longrightarrow> find (\<lambda>q. itid (the (H q)) = t) ps = Some r \<Longrightarrow> Find_loop (H(r := None)) t p = None"
proof (induction H p ps rule: bucket.induct)
  case (2 H p q qs)
  then obtain e where e: "p = q" "q \<noteq> 0" "H q = Some e" "bucket H (inext e) qs" by (auto split: option.splits)
  show ?case
  proof (cases "q = r")
    case True
    with e show ?thesis by (subst Find_loop.simps) simp
  next
    case False
    with 2 e have "itid e \<noteq> t" "find (\<lambda>q. itid (the (H q)) = t) qs = Some r" by (auto split: if_splits)
    with "2.IH" [OF e(3,4)] e False show ?thesis by (subst Find_loop.simps) (simp del: fun_upd_apply add: fun_upd_other)
  qed
qed simp

lemma destroy_pages_ok:
  assumes "distinct ps" "\<And>p. p \<in> set ps \<Longrightarrow> pgs s p \<noteq> None"
  obtains s' where "destroy_pages ps s = Some s'" "Table s' = Table s" "items s' = items s" "tlss s' = tlss s"
    "is_first_call s' = is_first_call s"
  using assms
proof (induction ps arbitrary: s thesis)
  case Nil
  then show ?case by simp
next
  case (Cons p ps)
  from Cons.prems(3) [of p] obtain P where P: "pgs s p = Some P" by auto
  let ?s = "if ref_count P = 1 then s\<lparr>maps := (maps s)(address P := None), pgs := (pgs s)(p := None)\<rparr>
     else s\<lparr>pgs := (pgs s)(p \<mapsto> P\<lparr>ref_count := ref_count P - 1\<rparr>)\<rparr>"
  have "pgs ?s q \<noteq> None" if "q \<in> set ps" for q
    using that Cons.prems(2) Cons.prems(3) [of q] by auto
  with Cons.prems(2) obtain s' where "destroy_pages ps ?s = Some s'" "Table s' = Table ?s" "items s' = items ?s" "tlss s' = tlss ?s"
      "is_first_call s' = is_first_call ?s"
    using Cons.IH [of ?s] by auto
  with Cons.prems(1) [of s'] P show ?case by (simp split: if_splits)
qed

lemma tls_destroy_dangling:
  assumes wf: "tls_wf env s" and c: "tls_abs s self = Some c"
  obtains s' where "tls_destroy self s = Some (0, s')" "Find self s' = None" "is_first_call s' = is_first_call s"
proof -
  have inv: "tls_inv env 0 PROT_NONE s" by (rule wf_inv [OF wf])
  have tab: "table_ok s" and z: "items s 0 = None" using inv by (auto simp: tls_inv_def heap_ok_def)
  from c obtain v where ow: "owner s self = Some v" by (auto simp: tls_abs_def bind_eq_Some_conv)
  obtain a where a: "tlss s v = Some a" "area_ok (pagesize env) a" "pages_of s self = tpages a" by (rule ownerE [OF inv ow])
  obtain ps q e where q: "chain_ok s (HashFunction self) ps" "q \<in> set ps" "items s q = Some e" "itid e = self" "itls e = v"
      "find (\<lambda>q. itid (the (items s q)) = self) ps = Some q" by (rule owner_chain [OF tab z ow])
  have b: "bucket (items s) (Table s ! HashFunction self) ps" using q(1) by (simp add: chain_ok_def)
  have p: "Table s ! HashFunction self \<noteq> 0" "q \<noteq> 0" using b q(2) bucket_dom by (cases ps; fastforce)+
  have len: "length (Table s) = HASH" using tab by (simp add: table_ok_def)
  have rem: "Remove self s = Some q"
    using Remove_loop_bucket [OF b, of self 0] q(3,6) p len by (auto simp: Remove_def array_get_in)
  have ex: "pgs s p \<noteq> None" if "p \<in> set (tpages a)" for p
    using that unfolding a(3) [symmetric] by (rule pageE [OF inv]) simp
  have dis: "distinct (tpages a)" and full: "take (page_num a) (tpages a) = tpages a"
    using a(2) by (simp_all add: area_ok_def)
  obtain s1 where s1: "destroy_pages (tpages a) s = Some s1" "Table s1 = Table s" "items s1 = items s" "tlss s1 = tlss s"
      "is_first_call s1 = is_first_call s"
    by (rule destroy_pages_ok [OF dis ex])
  let ?s' = "s1\<lparr>tlss := (tlss s1)(v := None), items := (items s1)(q := None)\<rparr>"
  have "tls_destroy self s = Some (0, ?s')"
    using rem p(2) q(3,5) a(1) full s1(1) by (simp add: tls_destroy_def)
  moreover have "Find self ?s' = None"
    using Find_loop_freed [OF b q(6)] len by (simp add: Find_def s1 array_get_in)
  ultimately show ?thesis by (rule that) (simp add: s1)
qed

text \<open>A thread without storage that destroys it: -1 only when its chain is empty.\<close>

lemma tls_destroy_absent:
  assumes wf: "tls_wf env s" and c: "tls_abs s self = None"
  shows "tls_destroy self s = (if Table s ! HashFunction self = 0 then Some (-1, s) else None)"
proof -
  have inv: "tls_inv env 0 PROT_NONE s" by (rule wf_inv [OF wf])
  have tab: "table_ok s" and z: "items s 0 = None" using inv by (auto simp: tls_inv_def heap_ok_def)
  have ow: "owner s self = None" using c ownerE [OF inv, of self] by (metis option.distinct(1) option.exhaust)
  have len: "length (Table s) = HASH" using tab by (simp add: table_ok_def)
  obtain ps where ps: "chain_ok s (HashFunction self) ps" by (rule table_okE [OF tab HashFunction_less])
  have b: "bucket (items s) (Table s ! HashFunction self) ps" using ps by (simp add: chain_ok_def)
  have no: "\<forall>q\<in>set ps. itid (the (items s q)) \<noteq> self" using chain_absent [OF tab ps ow] by blast
  then have f: "find (\<lambda>q. itid (the (items s q)) = self) ps = None" and
      t: "takeWhile (\<lambda>q. itid (the (items s q)) \<noteq> self) ps = ps" by (auto simp: find_None_iff takeWhile_eq_all_conv)
  show ?thesis
  proof (cases ps)
    case Nil
    then show ?thesis using b len by (simp add: tls_destroy_def Remove_def array_get_in)
  next
    case (Cons q qs)
    then have "last ps \<noteq> 0" "Table s ! HashFunction self \<noteq> 0" using b bucket_dom [OF b, of "last ps"] by auto
    with Cons Remove_loop_bucket [OF b, of self 0] f t z len show ?thesis
      by (simp add: tls_destroy_def Remove_def array_get_in)
  qed
qed

end
