(* ===== verification/TLS_Props.thy ===== *)
theory TLS_Props
  imports TLS_Create TLS_Fault
begin

text \<open>
  The properties of the thread-local storage library. The specification is a map from threads
  to byte strings; a run is a sequence of calls, each by some thread. The calls are atomic: the
  library serialises its accesses to the pages with a mutex, which is not modelled.
\<close>

section \<open>Calls and their specification\<close>

datatype tls_op =
    Tls_Create u32
  | Tls_Write u32 u32 "byte list"
  | Tls_Read u32 u32
  | Tls_Clone pthread_t

type_synonym areas = "pthread_t \<rightharpoonup> byte list"

definition tls_exec :: "tls_env \<Rightarrow> pthread_t \<Rightarrow> tls_op \<Rightarrow> tls_state \<Rightarrow> (int \<times> byte list \<times> tls_state) option" where
  "tls_exec env self op s =
     (case op of
        Tls_Create sz \<Rightarrow> map_option (\<lambda>(r, s'). (r, [], s')) (tls_create env self sz s)
      | Tls_Write offset len buffer \<Rightarrow> map_option (\<lambda>(r, s'). (r, [], s')) (tls_write env self offset len buffer s)
      | Tls_Read offset len \<Rightarrow> tls_read self offset len s
      | Tls_Clone tid \<Rightarrow> map_option (\<lambda>(r, s'). (r, [], s')) (tls_clone self tid s))"

definition tls_spec :: "pthread_t \<Rightarrow> tls_op \<Rightarrow> areas \<Rightarrow> int \<times> byte list \<times> areas" where
  "tls_spec self op m =
     (case op of
        Tls_Create sz \<Rightarrow>
          if sz = 0 \<or> m self \<noteq> None then (-1, [], m) else (0, [], m(self \<mapsto> replicate (unat sz) NUL))
      | Tls_Write offset len buffer \<Rightarrow>
          (case m self of
             None \<Rightarrow> (-1, [], m)
           | Some c \<Rightarrow> if length c < unat offset + unat len then (-1, [], m)
                       else (0, [], m(self \<mapsto> splice (unat offset) (take (unat len) buffer) c)))
      | Tls_Read offset len \<Rightarrow>
          (case m self of
             None \<Rightarrow> (-1, [], m)
           | Some c \<Rightarrow> if length c < unat offset + unat len then (-1, [], m)
                       else (0, take (unat len) (drop (unat offset) c), m))
      | Tls_Clone tid \<Rightarrow>
          (case m tid of
             None \<Rightarrow> (-1, [], m)
           | Some c \<Rightarrow> if m self \<noteq> None then (-1, [], m) else (0, [], m(self \<mapsto> c))))"

text \<open>The specification applies when the sum of offset and length does not wrap around, the
  area is smaller than 2 GiB (the loop index is an \<open>int\<close>) and the buffer is long enough.\<close>

definition small_area :: "byte list option \<Rightarrow> bool" where
  "small_area a = (case a of None \<Rightarrow> True | Some c \<Rightarrow> length c < 2 ^ 31)"

definition tls_pre :: "pthread_t \<Rightarrow> tls_op \<Rightarrow> areas \<Rightarrow> bool" where
  "tls_pre self op m =
     (case op of
        Tls_Create sz \<Rightarrow> True
      | Tls_Write offset len buffer \<Rightarrow>
          unat offset + unat len < 2 ^ 32 \<and> unat len \<le> length buffer \<and> small_area (m self)
      | Tls_Read offset len \<Rightarrow> unat offset + unat len < 2 ^ 32 \<and> small_area (m self)
      | Tls_Clone tid \<Rightarrow> True)"

fun tls_run :: "tls_env \<Rightarrow> (pthread_t \<times> tls_op) list \<Rightarrow> tls_state \<Rightarrow> ((int \<times> byte list) list \<times> tls_state) option" where
  "tls_run env [] s = Some ([], s)"
| "tls_run env ((self, op) # cs) s = do {
     (r, out, s1) \<leftarrow> tls_exec env self op s;
     (rs, s2) \<leftarrow> tls_run env cs s1;
     Some ((r, out) # rs, s2)
   }"

fun spec_run :: "(pthread_t \<times> tls_op) list \<Rightarrow> areas \<Rightarrow> ((int \<times> byte list) list \<times> areas) option" where
  "spec_run [] m = Some ([], m)"
| "spec_run ((self, op) # cs) m =
     (if tls_pre self op m
      then let (r, out, m1) = tls_spec self op m in do {
        (rs, m2) \<leftarrow> spec_run cs m1;
        Some ((r, out) # rs, m2)
      }
      else None)"


section \<open>Refinement\<close>

lemma abs_None_owner:
  assumes "tls_wf env s" "tls_abs s t = None"
  shows "owner s t = None"
  using assms(2) ownerE [OF wf_inv [OF assms(1)], of t] by (metis option.distinct(1) option.exhaust)

text \<open>What a thread that has an area finds of it.\<close>

lemma areaE:
  assumes wf: "tls_wf env s" and vm: "vm_ok env" and c: "tls_abs s t = Some c"
  obtains p e a where "Find t s = Some p" "p \<noteq> 0" "items s p = Some e" "tlss s (itls e) = Some a"
    "area_ok (pagesize env) a" "pages_of s t = tpages a" "length c = unat (tsize a)" "owner s t = Some (itls e)"
proof -
  have inv: "tls_inv env t PROT_NONE s" by (rule wf_inv [OF wf])
  have psz: "0 < pagesize env" using vm by (simp add: vm_ok_def)
  from c obtain v where ow: "owner s t = Some v" by (auto simp: tls_abs_def bind_eq_Some_conv)
  obtain a where a: "tlss s v = Some a" "area_ok (pagesize env) a" "pages_of s t = tpages a"
      "tls_abs s t = Some (area_bytes s a)" by (rule ownerE [OF inv ow])
  have len: "length c = unat (tsize a)" using length_area_bytes [OF inv ow a(1) psz] a(4) c by simp
  obtain p e where "Find t s = Some p" "p \<noteq> 0" "items s p = Some e" "itls e = v" by (rule FindE [OF inv ow])
  with that [of p e a] a len ow show ?thesis by simp
qed

lemma create_refused:
  assumes wf: "tls_wf env s" and vm: "vm_ok env" and bad: "sz = 0 \<or> tls_abs s self \<noteq> None"
  obtains s' where "tls_create env self sz s = Some (-1, s')" "tls_wf env s'" "tls_abs s' = tls_abs s"
proof -
  let ?s = "first_call env s"
  note f = first_call_ok [OF wf]
  have "tls_create env self sz s = Some (-1, ?s)"
  proof (cases "sz = 0")
    case True
    then show ?thesis by (simp add: tls_create_def first_call_def [symmetric] Let_def)
  next
    case False
    with bad obtain c where "tls_abs ?s self = Some c" using f(3) by auto
    then obtain p where "Find self ?s = Some p" "p \<noteq> 0" by (rule areaE [OF f(1) vm])
    with False show ?thesis by (simp add: tls_create_def first_call_def [symmetric] Let_def)
  qed
  then show ?thesis by (rule that [OF _ f(1,3)])
qed

lemma too_long_refused:
  assumes wf: "tls_wf env s" and vm: "vm_ok env" and c: "tls_abs s self = Some c"
    and long: "length c < unat offset + unat len" "unat offset + unat len < 2 ^ 32"
  shows "tls_write env self offset len buffer s = Some (-1, s)" "tls_read self offset len s = Some (-1, [], s)"
proof -
  obtain p e a where a: "Find self s = Some p" "p \<noteq> 0" "items s p = Some e" "tlss s (itls e) = Some a"
    "length c = unat (tsize a)" by (rule areaE [OF wf vm c])
  have "unat (offset + len) = unat offset + unat len" using long(2) unat_add_lem [of offset len] by simp
  then have "tsize a < offset + len" using long(1) a(5) by (simp add: word_less_nat_alt)
  with a show "tls_write env self offset len buffer s = Some (-1, s)" "tls_read self offset len s = Some (-1, [], s)"
    by (simp_all add: tls_write_def tls_read_def)
qed

lemma no_area_refused:
  assumes wf: "tls_wf env s" and c: "tls_abs s self = None"
  shows "tls_write env self offset len buffer s = Some (-1, s)" "tls_read self offset len s = Some (-1, [], s)"
  using Find_absent [OF wf_inv [OF wf] abs_None_owner [OF wf c]] by (simp_all add: tls_write_def tls_read_def)

lemma Find_returns:
  assumes wf: "tls_wf env s" and vm: "vm_ok env"
  shows "\<exists>p. Find t s = Some p \<and> (p = 0 \<longleftrightarrow> tls_abs s t = None)"
proof (cases "tls_abs s t")
  case None
  then show ?thesis using Find_absent [OF wf_inv [OF wf] abs_None_owner [OF wf None]] by simp
next
  case (Some c)
  obtain p where "Find t s = Some p" "p \<noteq> 0" by (rule areaE [OF wf vm Some])
  with Some show ?thesis by simp
qed

lemma clone_refused:
  assumes wf: "tls_wf env s" and vm: "vm_ok env" and bad: "tls_abs s tid = None \<or> tls_abs s self \<noteq> None"
  shows "tls_clone self tid s = Some (-1, s)"
proof -
  note fnd = Find_returns [OF wf vm]
  obtain p q where "Find self s = Some p" "p = 0 \<longleftrightarrow> tls_abs s self = None"
      "Find tid s = Some q" "q = 0 \<longleftrightarrow> tls_abs s tid = None" using fnd [of self] fnd [of tid] by (elim exE conjE) (rule that)
  with bad show ?thesis by (auto simp: tls_clone_def)
qed

lemma exec_create:
  assumes wf: "tls_wf env s" and vm: "vm_ok env" and pre: "tls_pre self op (tls_abs s)"
    and spec: "tls_spec self op (tls_abs s) = (r, out, m)" and op: "op = Tls_Create sz"
  obtains s' where "tls_exec env self op s = Some (r, out, s')" "tls_wf env s'" "tls_abs s' = m"
proof (cases "sz = 0 \<or> tls_abs s self \<noteq> None")
  case True
  obtain s' where "tls_create env self sz s = Some (-1, s')" "tls_wf env s'" "tls_abs s' = tls_abs s"
    by (rule create_refused [OF wf vm True])
  with that [of s'] spec True op show ?thesis by (auto simp: tls_exec_def tls_spec_def)
next
  case False
  then have "tls_abs s self = None" "0 < sz" by (auto simp: word_greater_zero_iff)
  from tls_create_step [OF wf vm this] obtain s' where "tls_create env self sz s = Some (0, s')" "tls_wf env s'"
    "tls_abs s' = (tls_abs s)(self \<mapsto> replicate (unat sz) NUL)" .
  with that [of s'] spec False op show ?thesis by (auto simp: tls_exec_def tls_spec_def)
qed

lemma exec_write:
  assumes wf: "tls_wf env s" and vm: "vm_ok env" and pre: "tls_pre self op (tls_abs s)"
    and spec: "tls_spec self op (tls_abs s) = (r, out, m)" and op: "op = Tls_Write offset len buffer"
  obtains s' where "tls_exec env self op s = Some (r, out, s')" "tls_wf env s'" "tls_abs s' = m"
proof (cases "tls_abs s self")
  case None
  with that [of s] no_area_refused [OF wf None] wf spec op show ?thesis
    by (simp add: tls_exec_def tls_spec_def)
next
  case (Some c)
  note p = pre [unfolded tls_pre_def op small_area_def, simplified, unfolded Some, simplified]
  show ?thesis
  proof (cases "length c < unat offset + unat len")
    case True
    with that [of s] too_long_refused [OF wf vm Some True] p wf spec Some op show ?thesis
      by (simp add: tls_exec_def tls_spec_def)
  next
    case False
    then obtain s' where "tls_write env self offset len buffer s = Some (0, s')" "tls_wf env s'"
        "tls_abs s' = (tls_abs s)(self \<mapsto> splice (unat offset) (take (unat len) buffer) c)"
      using tls_write_step [OF wf vm Some, of offset len buffer] p by auto
    with that [of s'] spec False Some op show ?thesis by (auto simp: tls_exec_def tls_spec_def)
  qed
qed

lemma exec_read:
  assumes wf: "tls_wf env s" and vm: "vm_ok env" and pre: "tls_pre self op (tls_abs s)"
    and spec: "tls_spec self op (tls_abs s) = (r, out, m)" and op: "op = Tls_Read offset len"
  obtains s' where "tls_exec env self op s = Some (r, out, s')" "tls_wf env s'" "tls_abs s' = m"
proof (cases "tls_abs s self")
  case None
  with that [of s] no_area_refused [OF wf None] wf spec op show ?thesis
    by (simp add: tls_exec_def tls_spec_def)
next
  case (Some c)
  note p = pre [unfolded tls_pre_def op small_area_def, simplified, unfolded Some, simplified]
  show ?thesis
  proof (cases "length c < unat offset + unat len")
    case True
    with that [of s] too_long_refused [OF wf vm Some True] p wf spec Some op show ?thesis
      by (simp add: tls_exec_def tls_spec_def)
  next
    case False
    then obtain s' where "tls_read self offset len s = Some (0, take (unat len) (drop (unat offset) c), s')"
        "tls_wf env s'" "tls_abs s' = tls_abs s"
      using tls_read_step [OF wf vm Some, of offset len] p by auto
    with that [of s'] spec False Some op show ?thesis by (auto simp: tls_exec_def tls_spec_def)
  qed
qed

lemma exec_clone:
  assumes wf: "tls_wf env s" and vm: "vm_ok env" and pre: "tls_pre self op (tls_abs s)"
    and spec: "tls_spec self op (tls_abs s) = (r, out, m)" and op: "op = Tls_Clone tid"
  obtains s' where "tls_exec env self op s = Some (r, out, s')" "tls_wf env s'" "tls_abs s' = m"
proof (cases "tls_abs s tid = None \<or> tls_abs s self \<noteq> None")
  case True
  with that [of s] clone_refused [OF wf vm True] wf spec op show ?thesis
    by (auto simp: tls_exec_def tls_spec_def split: option.splits)
next
  case False
  then obtain c where c: "tls_abs s tid = Some c" "tls_abs s self = None" by auto
  from tls_clone_step [OF wf c(2,1)] obtain s' where "tls_clone self tid s = Some (0, s')" "tls_wf env s'"
    "tls_abs s' = (tls_abs s)(self \<mapsto> c)" by blast
  with that [of s'] spec c op show ?thesis by (auto simp: tls_exec_def tls_spec_def)
qed

lemma tls_exec_step:
  assumes "tls_wf env s" "vm_ok env" "tls_pre self op (tls_abs s)" "tls_spec self op (tls_abs s) = (r, out, m)"
  obtains s' where "tls_exec env self op s = Some (r, out, s')" "tls_wf env s'" "tls_abs s' = m"
proof (cases op)
  case (Tls_Create sz)
  show ?thesis by (rule exec_create [OF assms Tls_Create]) (rule that)
next
  case (Tls_Write offset len buffer)
  show ?thesis by (rule exec_write [OF assms Tls_Write]) (rule that)
next
  case (Tls_Read offset len)
  show ?thesis by (rule exec_read [OF assms Tls_Read]) (rule that)
next
  case (Tls_Clone tid)
  show ?thesis by (rule exec_clone [OF assms Tls_Clone]) (rule that)
qed

lemma tls_run_spec:
  assumes vm: "vm_ok env"
  shows "tls_wf env s \<Longrightarrow> spec_run cs (tls_abs s) = Some (rs, m) \<Longrightarrow>
     \<exists>s'. tls_run env cs s = Some (rs, s') \<and> tls_wf env s' \<and> tls_abs s' = m"
proof (induction cs arbitrary: s rs)
  case Nil
  then show ?case by simp
next
  case (Cons c cs)
  obtain self op where c: "c = (self, op)" by (cases c)
  obtain r out m1 where sp: "tls_spec self op (tls_abs s) = (r, out, m1)" by (cases "tls_spec self op (tls_abs s)")
  with Cons.prems(2) c have pre: "tls_pre self op (tls_abs s)" by (simp split: if_splits)
  with Cons.prems(2) c sp obtain rs1 where rs: "spec_run cs m1 = Some (rs1, m)" "rs = (r, out) # rs1"
    by (auto simp: bind_eq_Some_conv)
  from tls_exec_step [OF Cons.prems(1) vm pre sp] obtain s1 where
    s1: "tls_exec env self op s = Some (r, out, s1)" "tls_wf env s1" "tls_abs s1 = m1" by blast
  from Cons.IH [OF s1(2)] rs(1) s1(3) obtain s' where "tls_run env cs s1 = Some (rs1, s')" "tls_wf env s'" "tls_abs s' = m" by blast
  with c s1(1) rs(2) show ?case by simp
qed

lemma tls_boot_ok: "tls_wf env tls_boot" "tls_abs tls_boot = Map.empty"
proof -
  have ch: "chain_ok tls_boot i []" if "i < HASH" for i using that by (simp add: chain_ok_def tls_boot_def)
  then have tab: "table_ok tls_boot" by (auto simp: table_ok_def tls_boot_def)
  have ow: "owner tls_boot t = None" for t
    using Find_chain [OF tab ch [OF HashFunction_less, of t]] by (simp add: owner_def tls_boot_def)
  have "pages_of tls_boot t = []" for t by (simp add: pages_of_def ow)
  then show "tls_wf env tls_boot"
    using tab by (auto simp: tls_wf_def tls_inv_def tmap.injective_def ow heap_ok_def areas_ok_def pages_ok_def users_def,
        simp_all add: tls_boot_def)
  show "tls_abs tls_boot = Map.empty" by (rule ext) (simp add: tls_abs_def ow)
qed


section \<open>A system for the witnesses\<close>

text \<open>Pages of 4 bytes at the first free multiple of 4.\<close>

definition demo_env :: tls_env where
  "demo_env = \<lparr>pagesize = 4, mmap_addr = \<lambda>n ms. Some (LEAST a. ms a = None \<and> 4 dvd a \<and> 0 < a)\<rparr>"

lemma demo_vm: "vm_ok demo_env"
proof -
  have "ms (LEAST a. ms a = None \<and> 4 dvd a \<and> 0 < a) = None" if "finite (dom ms)" for ms :: "nat \<rightharpoonup> region"
  proof -
    let ?b = "4 * Suc (Max (insert 0 (dom ms)))"
    have "?b \<notin> dom ms"
    proof
      assume "?b \<in> dom ms"
      then have "?b \<le> Max (insert 0 (dom ms))" using that by simp
      then show False by simp
    qed
    then have "ms ?b = None \<and> 4 dvd ?b \<and> 0 < ?b" by (auto simp: domIff)
    then show ?thesis by (rule LeastI2) simp
  qed
  then show ?thesis by (simp add: vm_ok_def demo_env_def)
qed

text \<open>Threads 5 and 28 share a chain of the table; 28 clones the storage of 5 and then both write.\<close>

definition demo_calls :: "(pthread_t \<times> tls_op) list" where
  "demo_calls = [(5, Tls_Create 8), (5, Tls_Write 2 3 ''abc''), (28, Tls_Clone 5), (28, Tls_Write 3 1 ''x''),
     (5, Tls_Write 4 1 ''y''), (5, Tls_Read 1 5), (28, Tls_Read 1 5), (5, Tls_Create 3), (7, Tls_Read 0 1),
     (28, Tls_Write 6 3 ''pqr'')]"

definition demo_results :: "(int \<times> byte list) list" where
  "demo_results = [(0, []), (0, []), (0, []), (0, []), (0, []), (0, [NUL, CHR ''a'', CHR ''b'', CHR ''y'', NUL]),
     (0, [NUL, CHR ''a'', CHR ''x'', CHR ''c'', NUL]), (-1, []), (-1, []), (-1, [])]"

definition demo_areas :: areas where
  "demo_areas = [5 \<mapsto> [NUL, NUL] @ ''aby'' @ [NUL, NUL, NUL], 28 \<mapsto> [NUL, NUL] @ ''axc'' @ [NUL, NUL, NUL]]"

lemma demo_spec: "spec_run demo_calls Map.empty = Some (demo_results, demo_areas)"
proof -
  have "replicate 8 NUL = [NUL, NUL, NUL, NUL, NUL, NUL, NUL, NUL]" by (simp add: numeral_nat)
  then show ?thesis
    by (simp add: demo_calls_def demo_results_def demo_areas_def tls_pre_def tls_spec_def small_area_def splice_def
        fun_upd_twist)
qed

text \<open>The state after the demo calls, and the one after the first two.\<close>

lemma demo_run:
  obtains s where "tls_run demo_env demo_calls tls_boot = Some (demo_results, s)" "tls_wf demo_env s" "tls_abs s = demo_areas"
  using tls_run_spec [OF demo_vm tls_boot_ok(1), of demo_calls demo_results demo_areas] demo_spec
  by (auto simp: tls_boot_ok(2))

definition demo_two :: "(pthread_t \<times> tls_op) list" where
  "demo_two = [(5, Tls_Create 8), (5, Tls_Write 2 3 ''abc'')]"

definition demo_abc :: "byte list" where
  "demo_abc = [NUL, NUL, CHR ''a'', CHR ''b'', CHR ''c'', NUL, NUL, NUL]"

lemma demo_two_run:
  obtains rs s where "tls_run demo_env demo_two tls_boot = Some (rs, s)" "tls_wf demo_env s" "tls_abs s = [5 \<mapsto> demo_abc]"
proof -
  have "replicate 8 NUL = [NUL, NUL, NUL, NUL, NUL, NUL, NUL, NUL]" by (simp add: numeral_nat)
  then have "spec_run demo_two Map.empty = Some ([(0, []), (0, [])], [5 \<mapsto> demo_abc])"
    by (simp add: demo_two_def demo_abc_def tls_pre_def tls_spec_def small_area_def splice_def)
  with tls_run_spec [OF demo_vm tls_boot_ok(1), of demo_two] that show ?thesis by (auto simp: tls_boot_ok(2))
qed


text \<open>The states that calls reach.\<close>

inductive tls_reach :: "tls_env \<Rightarrow> tls_state \<Rightarrow> bool" for env where
  boot: "tls_reach env tls_boot"
| call: "tls_reach env s \<Longrightarrow> tls_pre self op (tls_abs s) \<Longrightarrow> tls_exec env self op s = Some (r, out, s') \<Longrightarrow> tls_reach env s'"

lemma reach_wf:
  assumes "vm_ok env"
  shows "tls_reach env s \<Longrightarrow> tls_wf env s"
proof (induction rule: tls_reach.induct)
  case boot
  show ?case by (rule tls_boot_ok)
next
  case (call s self op r out s')
  obtain r' out' m where "tls_spec self op (tls_abs s) = (r', out', m)" by (cases "tls_spec self op (tls_abs s)")
  from tls_exec_step [OF call.IH assms call.hyps(2) this] call.hyps(3) show ?case by auto
qed


section \<open>Properties\<close>

text \<open>C2. Every sequence of calls of \<open>tls_create\<close>, \<open>tls_write\<close>, \<open>tls_read\<close> and \<open>tls_clone\<close> by any
  threads, from the initial state of the library and within the specification's limits, is
  defined, returns the values and the bytes that the abstract map from threads to byte strings
  gives, and leaves the library in a state that stands for the final map: hash table, page
  tables, reference counts, page protections and copy-on-write implement one private byte
  string per thread.\<close>

theorem tls_trace:
  assumes "vm_ok env" "spec_run cs Map.empty = Some (rs, m)"
  shows "\<exists>s'. tls_run env cs tls_boot = Some (rs, s') \<and> tls_wf env s' \<and> tls_abs s' = m"
  using tls_run_spec [OF assms(1) tls_boot_ok(1), of cs rs m] assms(2) by (simp add: tls_boot_ok(2))

theorem tls_trace_witness:
  "\<exists>s'. tls_run demo_env demo_calls tls_boot = Some (demo_results, s') \<and> tls_wf demo_env s' \<and> tls_abs s' = demo_areas"
  using tls_trace [OF demo_vm demo_spec] .

text \<open>Every state that the library reaches by calls of create, write, read and clone within the
  limits satisfies its invariant: acyclic chains without duplicate threads, areas and pages that exist, a reference
  count that is the number of areas using the page, and every page inaccessible between calls.\<close>

theorem tls_reach_invariant:
  assumes "vm_ok env" "tls_reach env s"
  shows "tls_wf env s"
  using assms by (rule reach_wf)

theorem tls_reach_invariant_witness: "\<exists>s. tls_reach demo_env s \<and> tls_wf demo_env s \<and> tls_abs s = [5 \<mapsto> replicate 8 NUL]"
proof -
  obtain s where s: "tls_create demo_env 5 8 tls_boot = Some (0, s)" "tls_abs s = [5 \<mapsto> replicate 8 NUL]"
    using tls_create_step [OF tls_boot_ok(1) demo_vm, of 5 8] by (auto simp: tls_boot_ok(2))
  have "tls_reach demo_env s"
    by (rule tls_reach.call [OF tls_reach.boot, of 5 "Tls_Create 8"]) (simp_all add: tls_pre_def tls_exec_def s(1))
  with tls_reach_invariant [OF demo_vm this] s(2) show ?thesis by blast
qed

text \<open>C8. Copy on write isolates the clone: \<open>tls_clone\<close> maps no memory and gives the caller the
  bytes of the target; when afterwards one of the two writes, only its own bytes change.\<close>

theorem clone_isolation:
  assumes wf: "tls_wf env s" and vm: "vm_ok env" and none: "tls_abs s self = None" and c: "tls_abs s tid = Some c"
    and w: "w = self \<or> w = tid"
    and fit: "unat offset + unat len \<le> length c" "length c < 2 ^ 31" "unat len \<le> length buffer"
  shows "\<exists>s1 s2. tls_clone self tid s = Some (0, s1) \<and> maps s1 = maps s \<and> tls_abs s1 = (tls_abs s)(self \<mapsto> c) \<and>
    tls_write env w offset len buffer s1 = Some (0, s2) \<and> tls_wf env s2 \<and>
    tls_abs s2 = (tls_abs s)(self \<mapsto> c, w \<mapsto> splice (unat offset) (take (unat len) buffer) c)"
proof -
  obtain s1 where s1: "tls_clone self tid s = Some (0, s1)" "tls_wf env s1" "tls_abs s1 = (tls_abs s)(self \<mapsto> c)" "maps s1 = maps s"
    by (rule tls_clone_step [OF wf none c])
  have "tls_abs s1 w = Some c" using w c s1(3) by auto
  from tls_write_step [OF s1(2) vm this fit] obtain s2 where "tls_write env w offset len buffer s1 = Some (0, s2)" "tls_wf env s2"
    "tls_abs s2 = (tls_abs s1)(w \<mapsto> splice (unat offset) (take (unat len) buffer) c)" .
  with s1 show ?thesis by (intro exI [of _ s1] exI [of _ s2]) simp
qed

theorem clone_isolation_witness:
  "\<exists>s s1 s2. tls_abs s = [5 \<mapsto> demo_abc] \<and> tls_clone 28 5 s = Some (0, s1) \<and> maps s1 = maps s \<and>
     tls_abs s1 = [5 \<mapsto> demo_abc, 28 \<mapsto> demo_abc] \<and> tls_write demo_env 5 3 1 ''x'' s1 = Some (0, s2) \<and>
     tls_abs s2 = [28 \<mapsto> demo_abc, 5 \<mapsto> [NUL, NUL, CHR ''a'', CHR ''x'', CHR ''c'', NUL, NUL, NUL]]"
proof -
  obtain rs s where s: "tls_wf demo_env s" "tls_abs s = [5 \<mapsto> demo_abc]" by (rule demo_two_run)
  show ?thesis
    using clone_isolation [OF s(1) demo_vm, of 28 5 demo_abc 5 3 1 "''x''"] s(2)
    by (auto simp: demo_abc_def splice_def fun_upd_twist)
qed

text \<open>C22. What \<open>tls_write\<close> stores is what the same thread's \<open>tls_read\<close> of that range returns.\<close>

theorem tls_write_read:
  assumes wf: "tls_wf env s" and vm: "vm_ok env" and c: "tls_abs s self = Some c"
    and fit: "unat offset + unat len \<le> length c" "length c < 2 ^ 31" "unat len \<le> length buffer"
  shows "\<exists>s1 s2. tls_write env self offset len buffer s = Some (0, s1) \<and>
    tls_read self offset len s1 = Some (0, take (unat len) buffer, s2) \<and> tls_abs s2 = tls_abs s1"
proof -
  let ?c = "splice (unat offset) (take (unat len) buffer) c"
  obtain s1 where s1: "tls_write env self offset len buffer s = Some (0, s1)" "tls_wf env s1" "tls_abs s1 = (tls_abs s)(self \<mapsto> ?c)"
    by (rule tls_write_step [OF wf vm c fit])
  have len: "length ?c = length c" using fit by (intro length_splice) simp
  have "tls_abs s1 self = Some ?c" using s1(3) by simp
  from tls_read_step [OF s1(2) vm this, of offset len] fit len obtain s2 where
    "tls_read self offset len s1 = Some (0, take (unat len) (drop (unat offset) ?c), s2)" "tls_abs s2 = tls_abs s1" by auto
  moreover have "take (unat len) (drop (unat offset) ?c) = take (unat len) buffer"
    using take_drop_splice [of "unat offset" "take (unat len) buffer" c] fit by simp
  ultimately show ?thesis using s1(1) by simp
qed

theorem tls_write_read_witness:
  "\<exists>s s1 s2. tls_abs s = [5 \<mapsto> demo_abc] \<and> tls_write demo_env 5 1 6 ''uvwxyz'' s = Some (0, s1) \<and>
     tls_read 5 1 6 s1 = Some (0, ''uvwxyz'', s2)"
proof -
  obtain rs s where s: "tls_wf demo_env s" "tls_abs s = [5 \<mapsto> demo_abc]" by (rule demo_two_run)
  show ?thesis
    using tls_write_read [OF s(1) demo_vm, of 5 demo_abc 1 6 "''uvwxyz''"] s(2)
    by (auto simp: demo_abc_def)
qed

text \<open>C23. The bounds check adds offset and length in 32 bits. When the sum wraps around, \<open>tls_write\<close>
  and \<open>tls_read\<close> never transfer a byte: they fail with -1 and change nothing when the wrapped
  sum is larger than the area, and otherwise return 0, the value for success.\<close>

theorem wrapped_length:
  assumes wf: "tls_wf env s" and vm: "vm_ok env" and c: "tls_abs s self = Some c"
    and wrap: "2 ^ 32 \<le> unat offset + unat len"
  shows "if length c < unat offset + unat len - 2 ^ 32
    then tls_write env self offset len buffer s = Some (-1, s) \<and> tls_read self offset len s = Some (-1, [], s)
    else \<exists>s1 s2. tls_write env self offset len buffer s = Some (0, s1) \<and> tls_wf env s1 \<and> tls_abs s1 = tls_abs s \<and>
      tls_read self offset len s = Some (0, [], s2) \<and> tls_wf env s2 \<and> tls_abs s2 = tls_abs s"
proof -
  have inv: "tls_inv env self PROT_NONE s" by (rule wf_inv [OF wf])
  obtain p e a where a: "Find self s = Some p" "p \<noteq> 0" "items s p = Some e" "tlss s (itls e) = Some a"
    "area_ok (pagesize env) a" "pages_of s self = tpages a" "length c = unat (tsize a)" "owner s self = Some (itls e)"
    by (rule areaE [OF wf vm c])
  have full: "take (page_num a) (tpages a) = pages_of s self" using a(5,6) by (simp add: area_ok_def)
  have sum: "unat (offset + len) = unat offset + unat len - 2 ^ 32"
    using wrap unsigned_less [of offset, where ?'a = nat] unsigned_less [of len, where ?'a = nat] by (simp add: unat_word_ariths mod_if)
  have le: "tsize a < offset + len \<longleftrightarrow> length c < unat offset + unat len - 2 ^ 32" "\<not> offset < offset + len"
    using sum wrap a(7) unsigned_less [of len, where ?'a = nat] by (simp_all add: word_less_nat_alt)
  have run: "\<exists>s1 s2. protect_pages (pages_of s self) pr s = Some s1 \<and> protect_pages (pages_of s self) PROT_NONE s1 = Some s2 \<and>
      tlss s1 = tlss s \<and> tls_wf env s2 \<and> tls_abs s2 = tls_abs s" for pr
  proof -
    obtain s1 where s1: "protect_pages (pages_of s self) pr s = Some s1" "tls_inv env self pr s1" "owner s1 = owner s" "tlss s1 = tlss s"
      "tls_abs s1 = tls_abs s" using protect_step [OF inv, of pr] by metis
    obtain s2 where "protect_pages (pages_of s1 self) PROT_NONE s1 = Some s2" "tls_inv env self PROT_NONE s2" "tls_abs s2 = tls_abs s1"
      using protect_step [OF s1(2), of PROT_NONE] by metis
    with s1 pages_of_cong [OF s1(3,4)] inv_wf show ?thesis by auto
  qed
  have "write_loop env (itls e) 0 offset (offset + len) buffer s' = Some s'" "read_loop (itls e) offset (offset + len) s' = Some []" for s'
    using le(2) by (subst write_loop.simps read_loop.simps, simp)+
  with run [of PROT_WRITE] run [of PROT_READ] a(1-4) le(1) full show ?thesis
    by (auto simp: tls_write_def tls_read_def)
qed

theorem wrapped_length_witness:
  "\<exists>s s1. tls_abs s = [5 \<mapsto> demo_abc] \<and> tls_write demo_env 5 6 0xFFFFFFFF ''payload'' s = Some (0, s1) \<and> tls_abs s1 = tls_abs s \<and>
     tls_write demo_env 5 0xFFFFFFFF 100 ''payload'' s = Some (-1, s)"
proof -
  obtain rs s where s: "tls_wf demo_env s" "tls_abs s = [5 \<mapsto> demo_abc]" by (rule demo_two_run)
  show ?thesis
    using wrapped_length [OF s(1) demo_vm, of 5 demo_abc 6 "0xFFFFFFFF" "''payload''"]
      wrapped_length [OF s(1) demo_vm, of 5 demo_abc "0xFFFFFFFF" 100 "''payload''"] s(2)
    by (auto simp: demo_abc_def)
qed

text \<open>C24. The page-fault handler always returns, and ends the thread exactly when the page of the
  faulting address belongs to the storage of some thread; any other fault is raised again with
  the default action.\<close>

theorem page_fault_decides:
  assumes "tls_wf env s"
  shows "tls_handle_page_fault adr s =
    Some (if \<exists>t. \<exists>p\<in>set (pages_of s t). page_at s (page_of (page_size s) adr) p then Thread_Exit else Raise_Default)"
  using wf_inv [OF assms] by (rule fault_handler_ok)

theorem page_fault_decides_witness:
  "\<exists>s. tls_create demo_env 5 3 tls_boot = Some (0, s) \<and> tls_handle_page_fault 6 s = Some Thread_Exit \<and>
     tls_handle_page_fault 9 s = Some Raise_Default"
proof -
  obtain s where s: "tls_create demo_env 5 3 tls_boot = Some (0, s)" "tls_wf demo_env s"
    using tls_create_step [OF tls_boot_ok(1) demo_vm, of 5 3] by (auto simp: tls_boot_ok(2))
  have least: "(LEAST a. 4 dvd a \<and> (0::nat) < a) = 4" by (rule Least_equality) (auto dest: dvd_imp_le)
  have stop: "Find_loop H t 0 = Some 0" for H t by (subst Find_loop.simps) simp
  let ?i = "Suc (Suc (Suc 0))" and ?p = "Suc (Suc 0)"
  have st: "Table s = (replicate 23 0)[5 := ?i]" "items s = [?i \<mapsto> \<lparr>itid = 5, itls = 1, inext = 0\<rparr>]"
    "tlss s = [1 \<mapsto> \<lparr>tsize = 3, page_num = 1, tpages = [?p]\<rparr>]" "pgs s = [?p \<mapsto> \<lparr>address = 4, ref_count = 1\<rparr>]" "page_size s = 4"
    using s(1) by (auto simp: tls_create_def Let_def tls_init_def demo_env_def tls_boot_def Find_def HASH_def
      HashFunction_def array_get_in stop mmap_def Add_def least)
  have "Find_loop (items s) 5 ?i = Some ?i" by (subst Find_loop.simps) (simp add: st)
  then have "owner s 5 = Some 1" by (simp add: owner_def Find_def HASH_def HashFunction_def st array_get_in)
  then have pg: "pages_of s 5 = [?p]" by (simp add: pages_of_def st)
  have "\<exists>t. \<exists>p\<in>set (pages_of s t). page_at s (page_of (page_size s) 6) p"
    by (intro exI [of _ 5]) (simp add: pg page_at_def st page_of_def)
  moreover have "\<not> (\<exists>t. \<exists>p\<in>set (pages_of s t). page_at s (page_of (page_size s) 9) p)"
    by (auto simp: page_at_def st page_of_def)
  ultimately show ?thesis
    using page_fault_decides [OF s(2), of 6] page_fault_decides [OF s(2), of 9] s(1) by auto
qed

text \<open>C25. \<open>Find\<close> follows the linked list of one chain. In every well-formed state the loop ends, for
  every thread. It returns the only item of the whole table (of any chain, at any depth) that
  belongs to the thread, and the null pointer exactly when the table has no such item.\<close>

theorem Find_terminates:
  assumes "tls_wf env s"
  shows "\<exists>p. Find t s = Some p \<and>
    {q. linked s q \<and> (\<exists>e. items s q = Some e \<and> itid e = t)} = (if p = 0 then {} else {p})"
proof -
  have "table_ok s" using wf_inv [OF assms, of 0] by (simp add: tls_inv_def)
  then obtain p where p: "Find t s = Some p" "p \<noteq> 0 \<Longrightarrow> linked s p \<and> (\<exists>e. items s p = Some e \<and> itid e = t)"
    "\<And>q e. linked s q \<Longrightarrow> items s q = Some e \<Longrightarrow> itid e = t \<Longrightarrow> q = p \<and> p \<noteq> 0"
    by (rule Find_linked [where t = t]) blast
  have "{q. linked s q \<and> (\<exists>e. items s q = Some e \<and> itid e = t)} = (if p = 0 then {} else {p})"
  proof (cases "p = 0")
    case True
    with p(3) show ?thesis by auto
  next
    case False
    with p(2,3) show ?thesis by auto
  qed
  with p(1) show ?thesis by blast
qed

text \<open>The threads 5 and 28 are in one chain; thread 51 would be in it too.\<close>

theorem Find_terminates_witness:
  "\<exists>s p q. HashFunction 5 = HashFunction 28 \<and> HashFunction 51 = HashFunction 28 \<and>
     Find 28 s = Some p \<and> linked s p \<and> Find 5 s = Some q \<and> linked s q \<and> Find 51 s = Some 0"
proof -
  obtain s where s: "tls_wf demo_env s" "tls_abs s = demo_areas" by (rule demo_run)
  have in_table: "\<exists>p. Find t s = Some p \<and> linked s p" if st: "tls_abs s t \<noteq> None" for t
  proof -
    obtain p where p: "Find t s = Some p" "p \<noteq> 0" using Find_returns [OF s(1) demo_vm, of t] st by auto
    with Find_terminates [OF s(1), of t] have "p \<in> {q. linked s q \<and> (\<exists>e. items s q = Some e \<and> itid e = t)}" by simp
    with p(1) show ?thesis by simp
  qed
  have "Find 51 s = Some 0"
    using Find_returns [OF s(1) demo_vm, of 51] by (auto simp: s(2) demo_areas_def)
  moreover have "HashFunction 5 = HashFunction 28" "HashFunction 51 = HashFunction 28"
    by (simp_all add: HashFunction_def HASH_def)
  moreover have "tls_abs s 28 \<noteq> None" "tls_abs s 5 \<noteq> None" by (simp_all add: s(2) demo_areas_def)
  ultimately show ?thesis using in_table by blast
qed

text \<open>C26. \<open>tls_destroy\<close> frees the item of the thread but leaves it in the hash table: \<open>Remove\<close>
  assigns a local variable instead of unlinking. Afterwards every further call of the thread
  that looks at the table follows the dangling pointer, so creating new storage, writing,
  reading and cloning are all undefined.\<close>

theorem destroy_dangling:
  assumes "tls_wf env s" "tls_abs s self = Some c" "0 < sz"
  shows "\<exists>s'. tls_destroy self s = Some (0, s') \<and> \<not> is_first_call s' \<and> tls_create env self sz s' = None \<and>
    tls_write env self offset len buffer s' = None \<and> tls_read self offset len s' = None \<and> tls_clone self tid s' = None"
proof -
  obtain s' where s': "tls_destroy self s = Some (0, s')" "Find self s' = None" "is_first_call s' = is_first_call s"
    by (rule tls_destroy_dangling [OF assms(1,2)])
  have "\<not> is_first_call s"
    using assms(2) ownerE [OF wf_inv [OF assms(1)], of self] by (auto simp: tls_abs_def bind_eq_Some_conv)
  with s' assms(3) show ?thesis
    by (intro exI [of _ s']) (simp add: tls_create_def tls_write_def tls_read_def tls_clone_def Let_def)
qed

theorem destroy_dangling_witness:
  "\<exists>s s'. tls_abs s = [5 \<mapsto> demo_abc] \<and> tls_destroy 5 s = Some (0, s') \<and> tls_create demo_env 5 8 s' = None"
proof -
  obtain rs s where s: "tls_wf demo_env s" "tls_abs s = [5 \<mapsto> demo_abc]" by (rule demo_two_run)
  show ?thesis using destroy_dangling [OF s(1), of 5 demo_abc 8 0 0 "[]" 0] s(2) by auto
qed

text \<open>\<open>tls_destroy\<close> by a thread without storage returns -1 when the chain of its hash value is
  empty; when another thread's item is in that chain it dereferences a null pointer.\<close>

theorem destroy_absent:
  assumes "tls_wf env s" "tls_abs s self = None"
  shows "tls_destroy self s = (if Table s ! HashFunction self = 0 then Some (-1, s) else None)"
  using assms by (rule tls_destroy_absent)

theorem destroy_absent_witness:
  "\<exists>s. tls_abs s = [5 \<mapsto> demo_abc] \<and> tls_destroy 28 s = None \<and> tls_destroy 7 tls_boot = Some (-1, tls_boot)"
proof -
  obtain rs s where s: "tls_wf demo_env s" "tls_abs s = [5 \<mapsto> demo_abc]" by (rule demo_two_run)
  have h: "HashFunction 28 = HashFunction 5" by (simp add: HashFunction_def HASH_def)
  have z: "Table s ! HashFunction 5 \<noteq> 0"
  proof
    assume z: "Table s ! HashFunction 5 = 0"
    have "length (Table s) = HASH" using s(1) by (simp add: tls_wf_def tls_inv_def table_ok_def)
    then have "Find 5 s = Find_loop (items s) 5 0" using z by (simp add: Find_def array_get_in)
    also have "\<dots> = Some 0" by (subst Find_loop.simps) simp
    finally show False using Find_returns [OF s(1) demo_vm, of 5] s(2) by simp
  qed
  have "Table tls_boot ! HashFunction 7 = 0" by (simp add: tls_boot_def)
  with destroy_absent [OF s(1), of 28] destroy_absent [OF tls_boot_ok(1), of 7] s(2) z show ?thesis
    by (auto simp: h tls_boot_ok(2))
qed

end
