(* ===== verification/Threads.thy ===== *)
theory Threads
  imports Prelude
begin

text \<open>
  Project 2, the user-level threading library (\<^verbatim>\<open>threads.c\<close> and \<^verbatim>\<open>ec440threads.h\<close>). Control
  leaves a function of the library when it calls \<open>longjmp\<close>: such a function returns the jump
  buffer that is loaded, with the state. What \<open>setjmp\<close> stores, the registers of the
  running program at that call, is an argument. The result \<open>None\<close> stands for a subscript
  outside the thread table and for a loop that does not end. The functions work on every
  extension of the state, so that Project 3, which repeats them unchanged, can add its own.
\<close>

unbundle bit_operations_syntax

section \<open>Data\<close>

type_synonym pthread_t = nat
type_synonym jmp_buf = "u64 list"

definition MAX_THREADS :: nat where
  "MAX_THREADS = 128"

definition THREAD_STACK_SIZE :: u64 where
  "THREAD_STACK_SIZE = 32767"

text \<open>Indices of a jump buffer.\<close>

definition JB_RBP :: nat where "JB_RBP = 1"
definition JB_R12 :: nat where "JB_R12 = 2"
definition JB_R13 :: nat where "JB_R13 = 3"
definition JB_RSP :: nat where "JB_RSP = 6"
definition JB_PC :: nat where "JB_PC = 7"

lemmas JB_defs = JB_RBP_def JB_R12_def JB_R13_def JB_RSP_def JB_PC_def

datatype thread_status = TS_EXITED | TS_RUNNING | TS_READY | TS_EMPTY | TS_BLOCKED

record thread_control_block =
  tid :: pthread_t
  stack :: u64
  regs :: jmp_buf
  status :: thread_status

text \<open>The globals, the static variable of \<open>pthread_create\<close>, whether the timer is set, and the
  words that the library writes to the stacks.\<close>

record threads =
  TCB_Table :: "thread_control_block list"
  TID :: pthread_t
  is_first_call :: bool
  alarm :: bool
  memory :: "u64 \<rightharpoonup> u64"

text \<open>The program before its first call: static storage is zero, and 0 is \<open>TS_EXITED\<close>.\<close>

definition threads_boot :: threads where
  "threads_boot = \<lparr>TCB_Table = replicate MAX_THREADS \<lparr>tid = 0, stack = 0, regs = replicate 8 0, status = TS_EXITED\<rparr>,
     TID = 0, is_first_call = True, alarm = False, memory = Map.empty\<rparr>"

text \<open>Where the program is loaded, the pointer guard \<open>%fs:0x30\<close>, and the address that \<open>malloc\<close>
  gives the stack of a thread.\<close>

record machine =
  fs30 :: u64
  start_thunk_addr :: u64
  return_save_addr :: u64
  malloc_stack :: "pthread_t \<Rightarrow> u64"


section \<open>Scheduling\<close>

partial_function (option) find_ready :: "thread_control_block list \<Rightarrow> pthread_t \<Rightarrow> pthread_t option" where
  "find_ready T current_tid = do {
     let next = (if current_tid = MAX_THREADS - 1 then 0 else current_tid + 1);
     t \<leftarrow> array_get T (int next);
     if status t = TS_READY then Some next else find_ready T next
   }"

text \<open>\<open>here\<close> is what \<open>setjmp\<close> stores; the result is the buffer given to \<open>longjmp\<close>.\<close>

definition schedule :: "jmp_buf \<Rightarrow> 'a threads_scheme \<Rightarrow> (jmp_buf \<times> 'a threads_scheme) option" where
  "schedule here s = do {
     t \<leftarrow> array_get (TCB_Table s) (int (TID s));
     let T1 = (if status t = TS_RUNNING then (TCB_Table s)[TID s := t\<lparr>status := TS_READY\<rparr>] else TCB_Table s);
     current_tid \<leftarrow> find_ready T1 (TID s);
     t1 \<leftarrow> array_get T1 (int (TID s));
     let T2 = (if status t1 \<noteq> TS_EXITED then T1[TID s := t1\<lparr>regs := here\<rparr>] else T1);
     n \<leftarrow> array_get T2 (int current_tid);
     Some (regs n, s\<lparr>TCB_Table := T2[current_tid := n\<lparr>status := TS_RUNNING\<rparr>], TID := current_tid\<rparr>)
   }"

definition scheduler_init :: "'a threads_scheme \<Rightarrow> 'a threads_scheme" where
  "scheduler_init s =
     s\<lparr>TCB_Table := map (\<lambda>(i, t). t\<lparr>status := TS_EMPTY, tid := i\<rparr>) (enumerate 0 (TCB_Table s)), alarm := True\<rparr>"


section \<open>Creating a thread\<close>

definition ptr_mangle :: "machine \<Rightarrow> u64 \<Rightarrow> u64" where
  "ptr_mangle mc p = word_rotl 17 (p XOR fs30 mc)"

partial_function (option) find_empty :: "thread_control_block list \<Rightarrow> pthread_t \<Rightarrow> pthread_t option" where
  "find_empty T current_tid = do {
     t \<leftarrow> array_get T (int current_tid);
     if status t \<noteq> TS_EMPTY \<and> current_tid < MAX_THREADS then find_empty T (current_tid + 1) else Some current_tid
   }"

text \<open>How a call ends: the process exits with a status, after freeing some stacks, or control
  goes to a jump buffer.\<close>

datatype 'a outcome = Exit int "u64 list" | Jump jmp_buf 'a

text \<open>The three calls of \<open>setjmp\<close>.\<close>

datatype jmp_point = Main_setjmp | New_setjmp | Schedule_setjmp

definition new_tcb :: "machine \<Rightarrow> jmp_buf \<Rightarrow> u64 \<Rightarrow> u64 \<Rightarrow> pthread_t \<Rightarrow> thread_control_block" where
  "new_tcb mc here start_routine arg t =
     (let st = malloc_stack mc t;
          stackPointer = st + THREAD_STACK_SIZE - 8
      in \<lparr>tid = t, stack = st,
          regs = here[JB_PC := ptr_mangle mc (start_thunk_addr mc), JB_R13 := arg, JB_R12 := start_routine,
                      JB_RSP := ptr_mangle mc stackPointer],
          status = TS_READY\<rparr>)"

definition create_init :: "jmp_buf \<Rightarrow> 'a threads_scheme \<Rightarrow> 'a threads_scheme" where
  "create_init here s0 =
     (if is_first_call s0
      then let s = scheduler_init s0 in
        s\<lparr>is_first_call := False, TCB_Table := (TCB_Table s)[0 := (TCB_Table s ! 0)\<lparr>status := TS_READY, regs := here\<rparr>]\<rparr>
      else s0)"

text \<open>The result holds the thread id that the call stores in \<open>*thread\<close>.\<close>

definition pthread_create :: "machine \<Rightarrow> (jmp_point \<Rightarrow> jmp_buf) \<Rightarrow> u64 \<Rightarrow> u64 \<Rightarrow> 'a threads_scheme \<Rightarrow>
    (pthread_t option \<times> 'a threads_scheme outcome) option" where
  "pthread_create mc cpu start_routine arg s0 = do {
     let s = create_init (cpu Main_setjmp) s0;
     current_tid \<leftarrow> find_empty (TCB_Table s) 1;
     if current_tid = MAX_THREADS then Some (None, Exit 1 [])
     else do {
       let t = new_tcb mc (cpu New_setjmp) start_routine arg current_tid;
       (buf, s') \<leftarrow> schedule (cpu Schedule_setjmp)
         (s\<lparr>TCB_Table := (TCB_Table s)[current_tid := t],
            memory := (memory s)(stack t + THREAD_STACK_SIZE - 8 \<mapsto> return_save_addr mc)\<rparr>);
       Some (Some current_tid, Jump buf s')
     }
   }"

definition pthread_self :: "'a threads_scheme \<Rightarrow> pthread_t" where
  "pthread_self s = TID s"


section \<open>Ending a thread\<close>

definition threads_left :: "thread_control_block list \<Rightarrow> bool" where
  "threads_left T = list_ex (\<lambda>t. status t \<in> {TS_READY, TS_RUNNING, TS_BLOCKED}) T"

definition pthread_exit :: "'a threads_scheme \<Rightarrow> 'a threads_scheme outcome option" where
  "pthread_exit s = do {
     t \<leftarrow> array_get (TCB_Table s) (int (TID s));
     let T1 = (TCB_Table s)[TID s := t\<lparr>status := TS_EXITED\<rparr>];
     T2 \<leftarrow> (if tid t \<noteq> TID s
           then do { w \<leftarrow> array_get T1 (int (tid t)); Some (T1[tid t := w\<lparr>status := TS_READY\<rparr>]) }
           else Some T1);
     if threads_left T2
     then do { (buf, s') \<leftarrow> schedule [] (s\<lparr>TCB_Table := T2\<rparr>); Some (Jump buf s') }
     else Some (Exit 0 (map stack (filter (\<lambda>t. status t = TS_EXITED) T2)))
   }"

definition pthread_function_return_save :: "'a threads_scheme \<Rightarrow> 'a threads_scheme outcome option" where
  "pthread_function_return_save s = pthread_exit s"


section \<open>The first instructions of a thread\<close>

record cpu_state =
  rip :: u64
  rsp :: u64
  rbp :: u64
  rdi :: u64
  r12 :: u64
  r13 :: u64
  stk :: "u64 \<rightharpoonup> u64"

text \<open>What \<open>longjmp\<close> of the C library does with a buffer: program counter and stack pointer are
  stored mangled.\<close>

definition ptr_demangle :: "machine \<Rightarrow> u64 \<Rightarrow> u64" where
  "ptr_demangle mc p = word_rotr 17 p XOR fs30 mc"

definition longjmp :: "machine \<Rightarrow> jmp_buf \<Rightarrow> (u64 \<rightharpoonup> u64) \<Rightarrow> cpu_state" where
  "longjmp mc buf m = \<lparr>rip = ptr_demangle mc (buf ! JB_PC), rsp = ptr_demangle mc (buf ! JB_RSP), rbp = buf ! JB_RBP,
     rdi = 0, r12 = buf ! JB_R12, r13 = buf ! JB_R13, stk = m\<rparr>"

definition pushq :: "u64 \<Rightarrow> cpu_state \<Rightarrow> cpu_state" where
  "pushq v c = c\<lparr>rsp := rsp c - 8, stk := (stk c)(rsp c - 8 \<mapsto> v)\<rparr>"

definition popq :: "cpu_state \<Rightarrow> (u64 \<times> cpu_state) option" where
  "popq c = do { v \<leftarrow> stk c (rsp c); Some (v, c\<lparr>rsp := rsp c + 8\<rparr>) }"

text \<open>\<open>start_thunk\<close> with the prologue \<open>pushq %rbp; movq %rsp, %rbp\<close> that its first instruction undoes.\<close>

definition start_thunk :: "cpu_state \<Rightarrow> cpu_state option" where
  "start_thunk c0 = do {
     let c1 = pushq (rbp c0) c0;
     (v, c2) \<leftarrow> popq (c1\<lparr>rbp := rsp c1\<rparr>);
     let c3 = pushq (r12 c2) (c2\<lparr>rbp := v, rdi := r13 c2\<rparr>);
     (a, c4) \<leftarrow> popq c3;
     Some (c4\<lparr>rip := a\<rparr>)
   }"

end
