(* ===== verification/Thread_Props.thy ===== *)
theory Thread_Props
  imports Thread_Sched
begin

text \<open>
  Runs of the threading library and their properties. A step is one entry into the library that
  ends in a context switch: the alarm signal, \<open>pthread_create\<close> or \<open>pthread_exit\<close>.
\<close>

section \<open>Bounded waiting, from the progress of one step\<close>

locale round_robin_system =
  fixes ok :: "'s \<Rightarrow> bool"
    and current :: "'s \<Rightarrow> nat"
    and waiting :: "'s \<Rightarrow> nat \<Rightarrow> bool"
    and step :: "'s \<Rightarrow> 's \<Rightarrow> bool"
  assumes step_ok: "ok s \<Longrightarrow> step s s' \<Longrightarrow> ok s'"
    and step_progress: "ok s \<Longrightarrow> step s s' \<Longrightarrow> waiting s i \<Longrightarrow>
      current s' = i \<or> waiting s' i \<and> dist (current s') i < dist (current s) i"
begin

lemma runs_within:
  assumes "\<And>k. k < n \<Longrightarrow> step (p k) (p (Suc k))" "ok (p 0)" "waiting (p 0) i" "dist (current (p 0)) i < n"
  shows "\<exists>k. 0 < k \<and> k \<le> n \<and> current (p k) = i"
  using assms
proof (induction n arbitrary: p)
  case (Suc n)
  from Suc.prems(1) [of 0] have s: "step (p 0) (p 1)" by simp
  from step_progress [OF Suc.prems(2) s Suc.prems(3)] show ?case
  proof
    assume w: "waiting (p 1) i \<and> dist (current (p 1)) i < dist (current (p 0)) i"
    have "\<exists>k. 0 < k \<and> k \<le> n \<and> current (p (Suc k)) = i"
      by (rule Suc.IH [of "\<lambda>k. p (Suc k)"]) (use Suc.prems w step_ok [OF Suc.prems(2) s] in auto)
    then show ?thesis by force
  qed auto
qed simp

lemma bounded_waiting:
  assumes "\<And>k. k < MAX_THREADS \<Longrightarrow> step (p k) (p (Suc k))" "ok (p 0)" "waiting (p 0) i"
  shows "\<exists>k. 0 < k \<and> k \<le> MAX_THREADS \<and> current (p k) = i"
  by (rule runs_within [OF assms dist_less])

end


section \<open>Steps\<close>

inductive thread_step :: "machine \<Rightarrow> threads \<Rightarrow> threads \<Rightarrow> bool" for mc where
  alarm_signal: "alarm s \<Longrightarrow> schedule here s = Some (buf, s') \<Longrightarrow> thread_step mc s s'"
| create_call: "pthread_create mc cpu f arg s = Some (Some t, Jump buf s') \<Longrightarrow> thread_step mc s s'"
| exit_call: "pthread_exit s = Some (Jump buf s') \<Longrightarrow> thread_step mc s s'"

text \<open>The runs of a program, with the number of threads they have created.\<close>

inductive thread_run :: "machine \<Rightarrow> nat \<Rightarrow> threads \<Rightarrow> bool" for mc where
  run_boot: "thread_run mc 0 threads_boot"
| run_alarm: "thread_run mc n s \<Longrightarrow> alarm s \<Longrightarrow> schedule here s = Some (buf, s') \<Longrightarrow> thread_run mc n s'"
| run_create: "thread_run mc n s \<Longrightarrow> pthread_create mc cpu f arg s = Some (Some t, Jump buf s') \<Longrightarrow> thread_run mc (n + 1) s'"
| run_exit: "thread_run mc n s \<Longrightarrow> pthread_exit s = Some (Jump buf s') \<Longrightarrow> thread_run mc n s'"

inductive_simps thread_step_simps: "thread_step mc s s'"

text \<open>Exactly one thread runs, the current one. Before the first call of \<open>pthread_create\<close> the
  table is unused.\<close>

definition one_running :: "'a threads_scheme \<Rightarrow> bool" where
  "one_running s \<longleftrightarrow> (\<forall>i<MAX_THREADS. st s i = TS_RUNNING \<longleftrightarrow> i = TID s)"

definition threads_ok :: "'a threads_scheme \<Rightarrow> bool" where
  "threads_ok s \<longleftrightarrow> tcbs_ok s \<and>
     (if is_first_call s then TID s = 0 \<and> tid (TCB_Table s ! 0) = 0 \<and> \<not> alarm s \<and> (\<forall>i<MAX_THREADS. st s i = TS_EXITED)
      else (\<forall>i<MAX_THREADS. tid (TCB_Table s ! i) = i) \<and> one_running s)"

lemma threads_okE:
  assumes "threads_ok s"
  obtains "tcbs_ok s" "is_first_call s" "TID s = 0" "\<not> alarm s" "\<And>i. i < MAX_THREADS \<Longrightarrow> st s i = TS_EXITED"
  | "tcbs_ok s" "\<not> is_first_call s" "\<And>i. i < MAX_THREADS \<Longrightarrow> tid (TCB_Table s ! i) = i" "one_running s"
  using assms by (auto simp: threads_ok_def split: if_splits)

lemma schedule_ok:
  assumes ok: "tcbs_ok s" and run: "schedule here s = Some (buf, s')" and nf: "\<not> is_first_call s"
    and tids: "\<And>i. i < MAX_THREADS \<Longrightarrow> tid (TCB_Table s ! i) = i"
    and one: "\<And>i. i < MAX_THREADS \<Longrightarrow> i \<noteq> TID s \<Longrightarrow> st s i \<noteq> TS_RUNNING"
  shows "threads_ok s'"
proof -
  note sch = schedule_step [OF ok run]
  have "st s' i = TS_RUNNING \<longleftrightarrow> i = TID s'" if "i < MAX_THREADS" for i
    using sch(4) [OF that] one [OF that] by (auto simp: yielded_def)
  then show ?thesis using sch(1,5,6) nf tids by (simp add: threads_ok_def one_running_def)
qed

lemma schedule_progress:
  assumes ok: "tcbs_ok s" and run: "schedule here s = Some (buf, s')" and i: "i < MAX_THREADS" "yielded s i = TS_READY"
  shows "TID s' = i \<or> st s' i = TS_READY \<and> dist (TID s') i < dist (TID s) i"
proof (cases "TID s' = i")
  case False
  note sch = schedule_step [OF ok run]
  have T: "TID s < MAX_THREADS" "TID s' < MAX_THREADS" using ok sch(1) by (auto simp: tcbs_ok_def)
  have "dist (TID s) (TID s') \<noteq> dist (TID s) i" using False cyc_dist [OF T(1) i(1)] cyc_dist [OF T] by metis
  with sch(3) [OF i] have "dist (TID s) (TID s') < dist (TID s) i" by simp
  from dist_step [OF T(1) i(1) this] cyc_dist [OF T] have "dist (TID s') i < dist (TID s) i" by simp
  with False sch(4) [OF i(1)] i(2) show ?thesis by simp
qed simp


section \<open>Creating a thread\<close>

lemma find_empty_eq:
  assumes "length T = MAX_THREADS"
  shows "c \<le> MAX_THREADS \<Longrightarrow> find_empty T c = find (\<lambda>i. status (T ! i) = TS_EMPTY) [c..<MAX_THREADS]"
proof (induction "MAX_THREADS - c" arbitrary: c)
  case 0
  then show ?case using assms by (subst find_empty.simps) simp
next
  case (Suc k)
  then have c: "c < MAX_THREADS" by simp
  from Suc(1) [of "Suc c"] Suc(2) c have "find_empty T (Suc c) = find (\<lambda>i. status (T ! i) = TS_EMPTY) [Suc c..<MAX_THREADS]" by simp
  with c assms show ?case by (subst find_empty.simps) (simp add: upt_conv_Cons)
qed

text \<open>The state in which \<open>pthread_create\<close> looks for a free slot.\<close>

lemma create_init_ok:
  fixes here :: jmp_buf and s :: "'a threads_scheme"
  assumes "threads_ok s"
  defines "s0 \<equiv> create_init here s"
  shows "tcbs_ok s0" "TID s0 = TID s" "\<not> is_first_call s0" "memory s0 = memory s"
    "\<And>i. i < MAX_THREADS \<Longrightarrow> tid (TCB_Table s0 ! i) = i"
    "\<And>i. i < MAX_THREADS \<Longrightarrow>
       st s0 i = (if is_first_call s then (if i = 0 then TS_READY else TS_EMPTY) else st s i)"
    "\<And>i. i < MAX_THREADS \<Longrightarrow> i \<noteq> TID s \<Longrightarrow> st s0 i \<noteq> TS_RUNNING"
    "st s0 (TID s) \<noteq> TS_EMPTY" "yielded s0 (TID s) = TS_READY"
proof -
  have r: "st s (TID s) = TS_RUNNING" if "\<not> is_first_call s"
    using assms(1) that by (simp add: threads_ok_def one_running_def tcbs_ok_def)
  show "tcbs_ok s0" "TID s0 = TID s" "\<not> is_first_call s0" "memory s0 = memory s"
    "\<And>i. i < MAX_THREADS \<Longrightarrow> tid (TCB_Table s0 ! i) = i"
    "\<And>i. i < MAX_THREADS \<Longrightarrow>
       st s0 i = (if is_first_call s then (if i = 0 then TS_READY else TS_EMPTY) else st s i)"
    "\<And>i. i < MAX_THREADS \<Longrightarrow> i \<noteq> TID s \<Longrightarrow> st s0 i \<noteq> TS_RUNNING"
    "st s0 (TID s) \<noteq> TS_EMPTY" "yielded s0 (TID s) = TS_READY"
  using assms(1) r unfolding s0_def
  by (auto elim!: threads_okE simp: create_init_def scheduler_init_def tcbs_ok_def Let_def nth_list_update nth_enumerate_eq
      one_running_def yielded_def MAX_THREADS_def)
qed

lemma create_step:
  fixes mc :: machine and cpu :: "jmp_point \<Rightarrow> jmp_buf" and f arg :: u64 and t :: pthread_t and s :: "'a threads_scheme"
  assumes ok: "threads_ok s" and run: "pthread_create mc cpu f arg s = Some (Some t, Jump buf s')"
  defines "s0 \<equiv> create_init (cpu Main_setjmp) s"
  defines "n \<equiv> new_tcb mc (cpu New_setjmp) f arg t"
  defines "s1 \<equiv> s0\<lparr>TCB_Table := (TCB_Table s0)[t := n], memory := (memory s0)(stack n + THREAD_STACK_SIZE - 8 \<mapsto> return_save_addr mc)\<rparr>"
  shows "find (\<lambda>i. st s0 i = TS_EMPTY) [1..<MAX_THREADS] = Some t" "0 < t" "t < MAX_THREADS" "t \<noteq> TID s" "st s0 t = TS_EMPTY"
    "schedule (cpu Schedule_setjmp) s1 = Some (buf, s')" "tcbs_ok s1" "TID s1 = TID s"
    "\<And>i. i < MAX_THREADS \<Longrightarrow> st s1 i = (if i = t then TS_READY else st s0 i)"
    "threads_ok s'"
proof -
  note i0 = create_init_ok [OF ok, where here = "cpu Main_setjmp", folded s0_def]
  have len: "length (TCB_Table s0) = MAX_THREADS" using i0(1) by (simp add: tcbs_ok_def)
  have fe: "find_empty (TCB_Table s0) 1 = find (\<lambda>i. st s0 i = TS_EMPTY) [1..<MAX_THREADS]"
    by (rule find_empty_eq [OF len]) (simp add: MAX_THREADS_def)
  have "find_empty (TCB_Table s0) 1 = Some t" and r: "schedule (cpu Schedule_setjmp) s1 = Some (buf, s')"
    using run unfolding pthread_create_def s0_def [symmetric] Let_def
    by (auto simp: bind_eq_Some_conv s1_def n_def split: if_splits)
  then show f: "find (\<lambda>i. st s0 i = TS_EMPTY) [1..<MAX_THREADS] = Some t" using fe by simp
  then have "t \<in> set [1..<MAX_THREADS]" and e: "st s0 t = TS_EMPTY" by (auto simp: find_Some_iff)
  then show t: "0 < t" "t < MAX_THREADS" by auto
  show "st s0 t = TS_EMPTY" by (rule e)
  then show ne: "t \<noteq> TID s" using i0(8) by auto
  show "schedule (cpu Schedule_setjmp) s1 = Some (buf, s')" by (rule r)
  show ok1: "tcbs_ok s1" using i0(1) by (simp add: tcbs_ok_def s1_def)
  show T1: "TID s1 = TID s" using i0(2) by (simp add: s1_def)
  show st1: "st s1 i = (if i = t then TS_READY else st s0 i)" if "i < MAX_THREADS" for i
    using len t that by (simp add: s1_def n_def new_tcb_def Let_def)
  have "tid (TCB_Table s1 ! i) = i" if "i < MAX_THREADS" for i
    using len t that i0(5) [OF that] by (simp add: s1_def n_def new_tcb_def Let_def nth_list_update)
  moreover have "st s1 i \<noteq> TS_RUNNING" if "i < MAX_THREADS" "i \<noteq> TID s1" for i
    using st1 [OF that(1)] i0(7) [OF that(1)] that(2) T1 by simp
  ultimately show "threads_ok s'" using i0(3) by (intro schedule_ok [OF ok1 r]) (simp_all add: s1_def)
qed


section \<open>Ending a thread\<close>

lemma exit_step:
  fixes s :: "'a threads_scheme"
  assumes ok: "threads_ok s" and nf: "\<not> is_first_call s"
  defines "s1 \<equiv> s\<lparr>TCB_Table := (TCB_Table s)[TID s := (TCB_Table s ! TID s)\<lparr>status := TS_EXITED\<rparr>]\<rparr>"
  shows "pthread_exit s =
      (if threads_left (TCB_Table s1) then map_option (\<lambda>(buf, s'). Jump buf s') (schedule [] s1)
       else Some (Exit 0 (map stack (filter (\<lambda>t. status t = TS_EXITED) (TCB_Table s1)))))"
    "tcbs_ok s1" "TID s1 = TID s" "\<And>i. i < MAX_THREADS \<Longrightarrow> st s1 i = (if i = TID s then TS_EXITED else st s i)"
    "schedule [] s1 = Some (buf, s') \<Longrightarrow> threads_ok s'"
proof -
  have w: "tcbs_ok s" "\<And>i. i < MAX_THREADS \<Longrightarrow> tid (TCB_Table s ! i) = i" "one_running s"
    using ok nf by (auto elim: threads_okE)
  then have T: "TID s < MAX_THREADS" "length (TCB_Table s) = MAX_THREADS" by (auto simp: tcbs_ok_def)
  show "pthread_exit s =
      (if threads_left (TCB_Table s1) then map_option (\<lambda>(buf, s'). Jump buf s') (schedule [] s1)
       else Some (Exit 0 (map stack (filter (\<lambda>t. status t = TS_EXITED) (TCB_Table s1)))))"
    using T w(2) [OF T(1)] by (cases "schedule [] s1") (auto simp: pthread_exit_def Let_def s1_def)
  show ok1: "tcbs_ok s1" "TID s1 = TID s" using w(1) by (simp_all add: tcbs_ok_def s1_def)
  show st1: "st s1 i = (if i = TID s then TS_EXITED else st s i)" if "i < MAX_THREADS" for i
    using T that by (simp add: s1_def nth_list_update)
  assume r: "schedule [] s1 = Some (buf, s')"
  show "threads_ok s'"
  proof (rule schedule_ok [OF ok1(1) r])
    show "\<not> is_first_call s1" using nf by (simp add: s1_def)
    fix i
    assume i: "i < MAX_THREADS"
    show "tid (TCB_Table s1 ! i) = i" using T i w(2) [OF i] by (simp add: s1_def nth_list_update)
    assume "i \<noteq> TID s1"
    with st1 [OF i] w(3) i ok1(2) show "st s1 i \<noteq> TS_RUNNING" by (simp add: one_running_def)
  qed
qed

lemma exit_first:
  assumes "threads_ok s" "is_first_call s"
  shows "pthread_exit s = Some (Exit 0 (map stack (TCB_Table s)))"
proof -
  have w: "tcbs_ok s" "\<And>i. i < MAX_THREADS \<Longrightarrow> st s i = TS_EXITED" "TID s = 0" "tid (TCB_Table s ! 0) = 0"
    using assms by (auto simp: threads_ok_def)
  then have T: "0 < length (TCB_Table s)" "\<And>t. t \<in> set (TCB_Table s) \<Longrightarrow> status t = TS_EXITED"
    by (auto simp: tcbs_ok_def MAX_THREADS_def in_set_conv_nth)
  have "(TCB_Table s)[0 := (TCB_Table s ! 0)\<lparr>status := TS_EXITED\<rparr>] = TCB_Table s"
    using T(1) w(2) [of 0] by (simp add: MAX_THREADS_def list_update_same_conv)
  with T w(3,4) show ?thesis by (auto simp: pthread_exit_def Let_def threads_left_def list_ex_iff filter_True array_get_def)
qed

lemma create_defined:
  fixes s :: "'a threads_scheme"
  assumes ok: "threads_ok s" and free: "\<exists>i<MAX_THREADS. 0 < i \<and> st (create_init (cpu Main_setjmp) s) i = TS_EMPTY"
  obtains t buf s' where "pthread_create mc cpu f arg s = Some (Some t, Jump buf s')"
proof -
  let ?s = "create_init (cpu Main_setjmp) s"
  note i0 = create_init_ok [OF ok, where here = "cpu Main_setjmp"]
  have len: "length (TCB_Table ?s) = MAX_THREADS" using i0(1) by (simp add: tcbs_ok_def)
  have fe: "find_empty (TCB_Table ?s) 1 = find (\<lambda>i. st ?s i = TS_EMPTY) [1..<MAX_THREADS]"
    by (rule find_empty_eq [OF len]) (simp add: MAX_THREADS_def)
  moreover have "\<dots> \<noteq> None" using free by (auto simp: find_None_iff)
  ultimately obtain t where t: "find_empty (TCB_Table ?s) 1 = Some t" "find (\<lambda>i. st ?s i = TS_EMPTY) [1..<MAX_THREADS] = Some t"
    by auto
  from find_SomeD [OF this(2)] have t': "t \<in> set [1..<MAX_THREADS]" by blast
  let ?n = "new_tcb mc (cpu New_setjmp) f arg t"
  let ?s1 = "?s\<lparr>TCB_Table := (TCB_Table ?s)[t := ?n], memory := (memory ?s)(stack ?n + THREAD_STACK_SIZE - 8 \<mapsto> return_save_addr mc)\<rparr>"
  have "tcbs_ok ?s1" using i0(1) by (simp add: tcbs_ok_def)
  moreover have "yielded ?s1 t = TS_READY" using t' len by (simp add: yielded_def new_tcb_def Let_def)
  ultimately have "schedule (cpu Schedule_setjmp) ?s1 \<noteq> None" using schedule_defined [of ?s1] t' by auto
  then obtain buf s' where "schedule (cpu Schedule_setjmp) ?s1 = Some (buf, s')" by auto
  with t t' have "pthread_create mc cpu f arg s = Some (Some t, Jump buf s')" by (simp add: pthread_create_def Let_def)
  then show ?thesis by (rule that)
qed

lemma schedule_running_defined:
  assumes "threads_ok s" "\<not> is_first_call s"
  shows "schedule here s \<noteq> None"
proof -
  have "tcbs_ok s" "one_running s" using assms by (auto simp: threads_ok_def)
  then have "TID s < MAX_THREADS" "yielded s (TID s) = TS_READY" by (auto simp: tcbs_ok_def one_running_def yielded_def)
  then show ?thesis using schedule_defined [OF \<open>tcbs_ok s\<close>] by blast
qed


section \<open>The library is a round-robin system\<close>

definition ready :: "threads \<Rightarrow> nat \<Rightarrow> bool" where
  "ready s i \<longleftrightarrow> \<not> is_first_call s \<and> i < MAX_THREADS \<and> st s i = TS_READY"

lemma step_cases:
  assumes ok: "threads_ok s" and step: "thread_step mc s s'"
  obtains s1 here buf where "tcbs_ok s1" "TID s1 = TID s" "schedule here s1 = Some (buf, s')" "threads_ok s'"
    "\<not> is_first_call s'" "\<And>i. i < MAX_THREADS \<Longrightarrow> ready s i \<Longrightarrow> yielded s1 i = TS_READY"
  using step
proof cases
  case (alarm_signal here buf)
  have nf: "\<not> is_first_call s" using ok alarm_signal(1) by (auto simp: threads_ok_def split: if_splits)
  then have w: "tcbs_ok s" "\<And>i. i < MAX_THREADS \<Longrightarrow> tid (TCB_Table s ! i) = i" "one_running s" using ok by (auto simp: threads_ok_def)
  have "threads_ok s'" by (rule schedule_ok [OF w(1) alarm_signal(2) nf w(2)]) (use w(3) in \<open>auto simp: one_running_def\<close>)
  then show ?thesis
    using that [OF w(1) refl alarm_signal(2)] schedule_step(6) [OF w(1) alarm_signal(2)] nf by (auto simp: ready_def yielded_def)
next
  case (create_call cpu f arg t buf)
  note c = create_step [OF ok create_call] and i0 = create_init_ok [OF ok, where here = "cpu Main_setjmp"]
  have "\<not> is_first_call s'" using schedule_step(6) [OF c(7,6)] i0(3) by simp
  then show ?thesis
  proof (rule that [OF c(7,8,6,10)])
    fix i
    assume i: "i < MAX_THREADS" "ready s i"
    with i0(6) [OF i(1)] have "st (create_init (cpu Main_setjmp) s) i = TS_READY" by (simp add: ready_def)
    with c(9) [OF i(1)] show "yielded ((create_init (cpu Main_setjmp) s)\<lparr>TCB_Table := (TCB_Table (create_init (cpu Main_setjmp) s))
        [t := new_tcb mc (cpu New_setjmp) f arg t], memory := (memory (create_init (cpu Main_setjmp) s))
        (stack (new_tcb mc (cpu New_setjmp) f arg t) + THREAD_STACK_SIZE - 8 \<mapsto> return_save_addr mc)\<rparr>) i = TS_READY"
      by (simp add: yielded_def)
  qed
next
  case (exit_call buf)
  then have nf: "\<not> is_first_call s" using exit_first [OF ok] by auto
  note e = exit_step [OF ok nf]
  from exit_call e(1) obtain
    r: "schedule [] (s\<lparr>TCB_Table := (TCB_Table s)[TID s := (TCB_Table s ! TID s)\<lparr>status := TS_EXITED\<rparr>]\<rparr>) = Some (buf, s')"
    by (auto split: if_splits)
  have "\<not> is_first_call s'" using schedule_step(6) [OF e(2) r] nf by simp
  moreover have "st s (TID s) = TS_RUNNING" using ok nf by (auto simp: threads_ok_def one_running_def tcbs_ok_def)
  ultimately show ?thesis
    by (intro that [OF e(2,3) r e(5) [OF r]]) (use e(4) in \<open>auto simp: ready_def yielded_def\<close>)
qed

interpretation lib: round_robin_system threads_ok TID ready "thread_step mc" for mc
proof
  fix s s' i
  assume ok: "threads_ok s" and step: "thread_step mc s s'"
  obtain s1 here buf where s1: "tcbs_ok s1" "TID s1 = TID s" "schedule here s1 = Some (buf, s')" "threads_ok s'"
    "\<not> is_first_call s'" "\<And>i. i < MAX_THREADS \<Longrightarrow> ready s i \<Longrightarrow> yielded s1 i = TS_READY"
    using ok step by (rule step_cases) blast
  show "threads_ok s'" by (rule s1)
  assume r: "ready s i"
  then have i: "i < MAX_THREADS" by (simp add: ready_def)
  from schedule_progress [OF s1(1,3) i s1(6) [OF i r]] i s1(2,5)
  show "TID s' = i \<or> ready s' i \<and> dist (TID s') i < dist (TID s) i" by (auto simp: ready_def)
qed

lemma boot_ok: "threads_ok threads_boot"
  by (simp add: threads_ok_def tcbs_ok_def threads_boot_def MAX_THREADS_def)

lemma run_step: "thread_run mc n s \<Longrightarrow> threads_ok s"
proof (induction rule: thread_run.induct)
  case run_boot
  show ?case by (rule boot_ok)
next
  case (run_alarm n s here buf s')
  from lib.step_ok [OF run_alarm.IH thread_step.alarm_signal [OF run_alarm.hyps(2,3)]] show ?case .
next
  case (run_create n s cpu f arg t buf s')
  from lib.step_ok [OF run_create.IH thread_step.create_call [OF run_create.hyps(2)]] show ?case .
next
  case (run_exit n s buf s')
  from lib.step_ok [OF run_exit.IH thread_step.exit_call [OF run_exit.hyps(2)]] show ?case .
qed

section \<open>Free slots\<close>

definition free_slots :: "'a threads_scheme \<Rightarrow> nat set" where
  "free_slots s = {i. i < MAX_THREADS \<and> st s i = TS_EMPTY}"

lemma schedule_free_slots:
  assumes ok: "tcbs_ok s" and run: "schedule here s = Some (buf, s')"
  shows "free_slots s' = free_slots s"
proof -
  note sch = schedule_step [OF ok run]
  have "st s' i = TS_EMPTY \<longleftrightarrow> st s i = TS_EMPTY" if "i < MAX_THREADS" for i
    using sch(2) sch(4) [OF that] by (auto simp: yielded_def split: if_splits)
  then show ?thesis by (auto simp: free_slots_def)
qed

lemma create_free_slots:
  fixes s :: "'a threads_scheme"
  assumes ok: "threads_ok s" and run: "pthread_create mc cpu f arg s = Some (Some t, Jump buf s')"
  shows "\<not> is_first_call s'"
    "t \<in> (if is_first_call s then {1..<MAX_THREADS} else free_slots s)"
    "free_slots s' = (if is_first_call s then {1..<MAX_THREADS} else free_slots s) - {t}"
proof -
  let ?s = "create_init (cpu Main_setjmp) s"
  note c = create_step [OF ok run] and i0 = create_init_ok [OF ok, where here = "cpu Main_setjmp"]
  show "\<not> is_first_call s'" using schedule_step(6) [OF c(7,6)] i0(3) by simp
  have "free_slots ?s = (if is_first_call s then {1..<MAX_THREADS} else free_slots s)"
    using i0(6) by (auto simp: free_slots_def split: if_splits)
  moreover have "t \<in> free_slots ?s" using c(3,5) by (simp add: free_slots_def)
  moreover have "free_slots s' = free_slots ?s - {t}"
    using schedule_free_slots [OF c(7,6)] c(3,9) by (auto simp: free_slots_def split: if_splits)
  ultimately show "t \<in> (if is_first_call s then {1..<MAX_THREADS} else free_slots s)"
    "free_slots s' = (if is_first_call s then {1..<MAX_THREADS} else free_slots s) - {t}" by simp_all
qed

lemma exit_free_slots:
  fixes s :: "'a threads_scheme"
  assumes ok: "threads_ok s" and run: "pthread_exit s = Some (Jump buf s')"
  shows "\<not> is_first_call s" "\<not> is_first_call s'" "free_slots s' = free_slots s"
proof -
  show nf: "\<not> is_first_call s" using exit_first [OF ok] run by auto
  note e = exit_step [OF ok nf]
  from run e(1) obtain
    r: "schedule [] (s\<lparr>TCB_Table := (TCB_Table s)[TID s := (TCB_Table s ! TID s)\<lparr>status := TS_EXITED\<rparr>]\<rparr>) = Some (buf, s')"
    by (auto split: if_splits)
  show "\<not> is_first_call s'" using schedule_step(6) [OF e(2) r] nf by simp
  have "st s (TID s) = TS_RUNNING" using ok nf by (auto simp: threads_ok_def one_running_def tcbs_ok_def)
  then show "free_slots s' = free_slots s"
    unfolding schedule_free_slots [OF e(2) r] using e(4) by (auto simp: free_slots_def split: if_splits)
qed

lemma run_slots:
  "thread_run mc n s \<Longrightarrow> if is_first_call s then n = 0 else card (free_slots s) + n = MAX_THREADS - 1"
proof (induction rule: thread_run.induct)
  case run_boot
  show ?case by (simp add: threads_boot_def)
next
  case (run_alarm n s here buf s')
  have ok: "threads_ok s" by (rule run_step [OF run_alarm.hyps(1)])
  then have "tcbs_ok s" "\<not> is_first_call s" using run_alarm.hyps(2) by (auto simp: threads_ok_def split: if_splits)
  with schedule_step(6) [OF this(1) run_alarm.hyps(3)] schedule_free_slots [OF this(1) run_alarm.hyps(3)] run_alarm.IH
  show ?case by simp
next
  case (run_create n s cpu f arg t buf s')
  note c = create_free_slots [OF run_step [OF run_create.hyps(1)] run_create.hyps(2)]
  have fin: "finite (if is_first_call s then {1..<MAX_THREADS} else free_slots s)" by (simp add: free_slots_def)
  from card.remove [OF fin c(2)] c(1,3) run_create.IH show ?case by (auto simp: MAX_THREADS_def split: if_splits)
next
  case (run_exit n s buf s')
  from exit_free_slots [OF run_step [OF run_exit.hyps(1)] run_exit.hyps(2)] run_exit.IH show ?case by simp
qed


section \<open>A program for the witnesses\<close>

definition demo_mc :: machine where
  "demo_mc = \<lparr>fs30 = 0x1234, start_thunk_addr = 0x401000, return_save_addr = 0x402000, malloc_stack = \<lambda>t. 0x100000 * of_nat t\<rparr>"

definition demo_cpu :: "jmp_point \<Rightarrow> jmp_buf" where
  "demo_cpu pt = [0, 1, 2, 3, 4, 5, 6, 7]"

text \<open>The first call of \<open>pthread_create\<close> makes thread 1, which starts to run; the main program
  becomes thread 0 and is ready.\<close>

lemma first_create:
  fixes s0 :: "'a threads_scheme"
  assumes ok: "threads_ok s0" and first: "is_first_call s0"
  obtains buf s where "pthread_create mc cpu f arg s0 = Some (Some 1, Jump buf s)"
    "threads_ok s" "\<not> is_first_call s" "TID s = 1" "st s 0 = TS_READY" "free_slots s = {2..<MAX_THREADS}" "alarm s"
proof -
  let ?b = "create_init (cpu Main_setjmp) s0"
  have T0: "TID s0 = 0" using ok first by (simp add: threads_ok_def)
  note i0 = create_init_ok [OF ok, where here = "cpu Main_setjmp"]
  have al: "alarm ?b" by (simp add: create_init_def first scheduler_init_def Let_def)
  have "\<exists>i<MAX_THREADS. 0 < i \<and> st ?b i = TS_EMPTY" using i0(6) [of 1] first by (auto simp: MAX_THREADS_def intro!: exI [of _ 1])
  then obtain t buf s where r: "pthread_create mc cpu f arg s0 = Some (Some t, Jump buf s)"
    by (rule create_defined [OF ok])
  note c = create_step [OF ok r] and fs = create_free_slots [OF ok r]
  have "[1..<MAX_THREADS] = 1 # [2..<MAX_THREADS]" by (simp add: MAX_THREADS_def upt_rec numeral_2_eq_2)
  then have t: "t = 1" using c(1) i0(6) [of 1] first by (simp add: MAX_THREADS_def)
  note sch = schedule_step [OF c(7,6)]
  have one: "1 < MAX_THREADS" "0 < MAX_THREADS" by (simp_all add: MAX_THREADS_def)
  have T: "TID s < MAX_THREADS" using sch(1) by (simp add: tcbs_ok_def)
  have "dist 0 (TID s) \<le> dist 0 1" using sch(3) [OF one(1)] c(9) [OF one(1)] t c(8) T0 by (simp add: yielded_def)
  moreover have "dist 0 1 = 0" using one by (simp add: dist_if)
  ultimately have T1: "TID s = 1" using T one by (simp add: dist_if MAX_THREADS_def split: if_splits)
  have "st s 0 = TS_READY" using sch(4) [OF one(2)] c(9) [OF one(2)] i0(6) [OF one(2)] T1 t T0 first by (simp add: yielded_def)
  moreover have "{1..<MAX_THREADS} - {1} = {2..<MAX_THREADS}" by auto
  then have "free_slots s = {2..<MAX_THREADS}" using fs(3) t first by simp
  ultimately show ?thesis using r c(10) fs(1) T1 sch(7) al unfolding t by (intro that [of buf s]) simp_all
qed

lemma demo_create:
  obtains buf s where "pthread_create demo_mc demo_cpu 0x403000 42 threads_boot = Some (Some 1, Jump buf s)"
    "threads_ok s" "\<not> is_first_call s" "TID s = 1" "st s 0 = TS_READY" "free_slots s = {2..<MAX_THREADS}"
    "thread_run demo_mc 1 s" "alarm s"
proof -
  have "is_first_call threads_boot" by (simp add: threads_boot_def)
  then obtain buf s where s: "pthread_create demo_mc demo_cpu 0x403000 42 threads_boot = Some (Some 1, Jump buf s)"
    "threads_ok s" "\<not> is_first_call s" "TID s = 1" "st s 0 = TS_READY" "free_slots s = {2..<MAX_THREADS}" "alarm s"
    by (rule first_create [OF boot_ok]) (rule that)
  moreover have "thread_run demo_mc (0 + 1) s" by (rule thread_run.run_create [OF thread_run.run_boot s(1)])
  ultimately show ?thesis by (intro that [of buf s]) simp_all
qed

section \<open>Properties\<close>

text \<open>C27. The search loop of \<open>schedule\<close> computes the first ready thread in cyclic order after the
  given one, and does not end exactly when no thread is ready.\<close>

theorem find_ready_is_round_robin:
  assumes "length T = MAX_THREADS" "c < MAX_THREADS"
  shows "find_ready T c = round_robin T c"
  using assms by (rule find_ready_eq)

theorem find_ready_is_round_robin_witness:
  "find_ready (replicate MAX_THREADS \<lparr>tid = 0, stack = 0, regs = [], status = TS_READY\<rparr>) 127 = Some 0 \<and>
   find_ready (replicate MAX_THREADS \<lparr>tid = 0, stack = 0, regs = [], status = TS_BLOCKED\<rparr>) 5 = None"
proof -
  let ?T = "\<lambda>x. replicate MAX_THREADS \<lparr>tid = 0, stack = 0, regs = [], status = x\<rparr>"
  have c: "127 < MAX_THREADS" "5 < MAX_THREADS" "0 < MAX_THREADS" by (simp_all add: MAX_THREADS_def)
  have "dist 127 0 = 0" using dist_if [OF c(1,3)] by (simp add: MAX_THREADS_def)
  then have "round_robin (?T TS_READY) 127 = Some 0" "round_robin (?T TS_BLOCKED) 5 = None"
    using c(3) by (simp_all add: round_robin_Some [OF c(1)] round_robin_None [OF c(2)])
  then show ?thesis
    using find_ready_is_round_robin [of "?T TS_READY" 127] find_ready_is_round_robin [of "?T TS_BLOCKED" 5] c by simp
qed

text \<open>C9. A context switch: from every consistent state \<open>schedule\<close> returns. The thread it selects was
  ready, or is the one that ran when no other is ready, and no ready thread has a smaller cyclic
  distance; it becomes the only running one. The thread that ran is ready again and its
  registers are saved; the registers loaded are those of the selected thread.\<close>

theorem context_switch:
  assumes "threads_ok s" "\<not> is_first_call s"
  shows "\<exists>buf s'. schedule here s = Some (buf, s') \<and> threads_ok s' \<and>
    (if \<exists>i<MAX_THREADS. st s i = TS_READY then st s (TID s') = TS_READY else TID s' = TID s) \<and>
    (\<forall>i<MAX_THREADS. st s i = TS_READY \<longrightarrow> dist (TID s) (TID s') \<le> dist (TID s) i) \<and>
    (\<forall>i<MAX_THREADS. st s' i = (if i = TID s' then TS_RUNNING else if i = TID s then TS_READY else st s i)) \<and>
    regs (TCB_Table s' ! TID s) = here \<and>
    buf = (if TID s' = TID s then here else regs (TCB_Table s ! TID s'))"
proof -
  from schedule_running_defined [OF assms] obtain buf s' where r: "schedule here s = Some (buf, s')" by fastforce
  have w: "tcbs_ok s" "\<And>i. i < MAX_THREADS \<Longrightarrow> tid (TCB_Table s ! i) = i" "one_running s" using assms by (auto simp: threads_ok_def)
  then have T: "TID s < MAX_THREADS" "st s (TID s) = TS_RUNNING" by (auto simp: tcbs_ok_def one_running_def)
  note sch = schedule_step [OF w(1) r]
  have "threads_ok s'" by (rule schedule_ok [OF w(1) r assms(2) w(2)]) (use w(3) in \<open>auto simp: one_running_def\<close>)
  moreover have "dist (TID s) (TID s') \<le> dist (TID s) i" if "i < MAX_THREADS" "st s i = TS_READY" for i
    using sch(3) [OF that(1)] that(2) by (simp add: yielded_def)
  moreover have "if \<exists>i<MAX_THREADS. st s i = TS_READY then st s (TID s') = TS_READY else TID s' = TID s"
  proof (cases "TID s' = TID s")
    case True
    have "dist (TID s) i < dist (TID s) (TID s)" if "i < MAX_THREADS" "st s i = TS_READY" for i
      using T that by (intro dist_self_max) auto
    with calculation(2) True show ?thesis by (metis leD)
  next
    case False
    with sch(1,2) T show ?thesis by (auto simp: yielded_def tcbs_ok_def)
  qed
  moreover have "st s' i = (if i = TID s' then TS_RUNNING else if i = TID s then TS_READY else st s i)" if "i < MAX_THREADS" for i
    using sch(4) [OF that] T by (simp add: yielded_def)
  moreover have "regs (TCB_Table s' ! TID s) = here" using sch(10) [OF T(1)] T(2) by simp
  ultimately show ?thesis using r sch(9) by blast
qed

theorem context_switch_witness:
  "\<exists>(s :: threads) buf s'. TID s = 1 \<and> schedule (replicate 8 9) s = Some (buf, s') \<and> TID s' = 0 \<and> st s' 1 = TS_READY \<and>
     regs (TCB_Table s' ! 1) = replicate 8 9"
proof -
  obtain s :: threads where s: "threads_ok s" "\<not> is_first_call s" "TID s = 1" "st s 0 = TS_READY" "free_slots s = {2..<MAX_THREADS}"
    by (rule demo_create) blast
  obtain buf s' where c: "schedule (replicate 8 9) s = Some (buf, s')" "threads_ok s'"
    "if \<exists>i<MAX_THREADS. st s i = TS_READY then st s (TID s') = TS_READY else TID s' = TID s"
    "\<forall>i<MAX_THREADS. st s' i = (if i = TID s' then TS_RUNNING else if i = TID s then TS_READY else st s i)"
    "regs (TCB_Table s' ! TID s) = replicate 8 9"
    using context_switch [OF s(1,2), of "replicate 8 9"] by blast
  have one: "0 < MAX_THREADS" "1 < MAX_THREADS" by (simp_all add: MAX_THREADS_def)
  have T: "TID s' < MAX_THREADS" using c(2) by (simp add: threads_ok_def tcbs_ok_def)
  have ready: "st s (TID s') = TS_READY" using c(3) s(4) one(1) by (auto split: if_splits)
  moreover have "st s i = TS_EMPTY" if "2 \<le> i" "i < MAX_THREADS" for i
    using s(5) that unfolding free_slots_def set_eq_iff by auto
  ultimately have "\<not> 2 \<le> TID s'" using s(3) T by force
  then have "TID s' < 2" using T by simp
  moreover have "st s 1 \<noteq> TS_READY" using s(1-3) one(2) by (auto simp: threads_ok_def one_running_def)
  then have "TID s' \<noteq> 1" using ready by metis
  ultimately have z: "TID s' = 0" by simp
  then have "st s' 1 = TS_READY" using c(4) one(2) s(3) by simp
  with c(1,5) s(3) z show ?thesis by auto
qed

text \<open>In every run of the library exactly one thread is in state \<open>TS_RUNNING\<close>, the one whose
  id \<open>pthread_self\<close> returns, and every slot holds its own id.\<close>

theorem one_thread_runs:
  assumes "thread_run mc n s" "\<not> is_first_call s"
  shows "pthread_self s < MAX_THREADS \<and> (\<forall>i<MAX_THREADS. (st s i = TS_RUNNING \<longleftrightarrow> i = pthread_self s) \<and> tid (TCB_Table s ! i) = i)"
  using run_step [OF assms(1)] assms(2) by (simp add: threads_ok_def one_running_def tcbs_ok_def pthread_self_def)

theorem one_thread_runs_witness: "\<exists>s. thread_run demo_mc 1 s \<and> st s 1 = TS_RUNNING \<and> st s 0 \<noteq> TS_RUNNING"
proof -
  obtain b s where s: "\<not> is_first_call s" "TID s = 1" "thread_run demo_mc 1 s" by (rule demo_create) blast
  have "st s 1 = TS_RUNNING" "st s 0 \<noteq> TS_RUNNING"
    using one_thread_runs [OF s(3,1)] s(2) by (auto simp: pthread_self_def MAX_THREADS_def)
  with s(3) show ?thesis by blast
qed

text \<open>C5. Bounded waiting: a thread that is ready runs within 128 steps, whatever the alarm, the
  creation and the termination of threads do meanwhile.\<close>

theorem ready_thread_runs:
  assumes "threads_ok (p 0)" "\<not> is_first_call (p 0)" "i < MAX_THREADS" "st (p 0) i = TS_READY"
    "\<And>k. k < MAX_THREADS \<Longrightarrow> thread_step mc (p k) (p (Suc k))"
  shows "\<exists>k. 0 < k \<and> k \<le> MAX_THREADS \<and> TID (p k) = i"
proof -
  have "ready (p 0) i" using assms(2-4) by (simp add: ready_def)
  from lib.bounded_waiting [OF assms(5,1) this] show ?thesis .
qed

text \<open>An endless run of alarms.\<close>

fun alarms :: "threads \<Rightarrow> nat \<Rightarrow> threads" where
  "alarms s 0 = s"
| "alarms s (Suc k) = snd (the (schedule (replicate 8 0) (alarms s k)))"

lemma alarms_step:
  assumes "threads_ok s" "\<not> is_first_call s" "alarm s"
  shows "threads_ok (alarms s k) \<and> \<not> is_first_call (alarms s k) \<and> alarm (alarms s k)"
    "thread_step mc (alarms s k) (alarms s (Suc k))"
proof -
  have st: "thread_step mc (alarms s k) (alarms s (Suc k)) \<and> is_first_call (alarms s (Suc k)) = is_first_call (alarms s k) \<and>
      alarm (alarms s (Suc k)) = alarm (alarms s k)"
    if a: "threads_ok (alarms s k)" "\<not> is_first_call (alarms s k)" "alarm (alarms s k)" for k
  proof -
    from schedule_running_defined [OF a(1,2), of "replicate 8 0"] obtain buf
      where r: "schedule (replicate 8 0) (alarms s k) = Some (buf, alarms s (Suc k))" by force
    have "tcbs_ok (alarms s k)" using a(1) by (simp add: threads_ok_def)
    from schedule_step(6,7) [OF this r] thread_step.alarm_signal [OF a(3) r] show ?thesis by simp
  qed
  have inv: "threads_ok (alarms s k) \<and> \<not> is_first_call (alarms s k) \<and> alarm (alarms s k)" for k
  proof (induction k)
    case 0
    then show ?case using assms by simp
  next
    case (Suc k)
    then show ?case using st [of k] lib.step_ok [of "alarms s k" _ "alarms s (Suc k)"] by metis
  qed
  then show "threads_ok (alarms s k) \<and> \<not> is_first_call (alarms s k) \<and> alarm (alarms s k)" by blast
  show "thread_step mc (alarms s k) (alarms s (Suc k))" using st [of k] inv [of k] by blast
qed

theorem ready_thread_runs_witness: "\<exists>s k. thread_run demo_mc 1 s \<and> TID s = 1 \<and> 0 < k \<and> k \<le> MAX_THREADS \<and> TID (alarms s k) = 0"
proof -
  obtain s :: threads where s: "threads_ok s" "\<not> is_first_call s" "TID s = 1" "st s 0 = TS_READY" "thread_run demo_mc 1 s" "alarm s"
    by (rule demo_create) blast
  have "\<exists>k. 0 < k \<and> k \<le> MAX_THREADS \<and> TID (alarms s k) = 0"
    by (rule ready_thread_runs [of "alarms s" 0 demo_mc]) (use s alarms_step [OF s(1,2,6)] in \<open>simp_all add: MAX_THREADS_def\<close>)
  with s(3,5) show ?thesis by blast
qed

text \<open>C28. A created thread starts its routine: resuming the jump buffer that \<open>pthread_create\<close> has
  built goes to \<open>start_thunk\<close>, which enters \<open>start_routine\<close> with \<open>arg\<close> as its first argument, on
  a stack whose return address is \<open>pthread_function_return_save\<close>.\<close>

theorem thread_starts:
  fixes s :: "'a threads_scheme"
  assumes ok: "threads_ok s" and len: "length (cpu New_setjmp) = 8"
    and run: "pthread_create mc cpu f arg s = Some (Some t, Jump buf s')"
  shows "\<exists>c. start_thunk (longjmp mc (regs (TCB_Table s' ! t)) (memory s')) = Some c \<and>
    rip (longjmp mc (regs (TCB_Table s' ! t)) (memory s')) = start_thunk_addr mc \<and>
    rip c = f \<and> rdi c = arg \<and> rsp c = malloc_stack mc t + THREAD_STACK_SIZE - 8 \<and>
    stk c (rsp c) = Some (return_save_addr mc)"
proof -
  note c = create_step [OF ok run] and i0 = create_init_ok [OF ok, where here = "cpu Main_setjmp"]
  note sch = schedule_step [OF c(7,6)]
  have l: "length (TCB_Table (create_init (cpu Main_setjmp) s)) = MAX_THREADS" using i0(1) by (simp add: tcbs_ok_def)
  have r: "regs (TCB_Table s' ! t) = regs (new_tcb mc (cpu New_setjmp) f arg t)"
    using sch(10) [OF c(3)] c(3,4,8) l by simp
  have m: "memory s' (malloc_stack mc t + THREAD_STACK_SIZE - 8) = Some (return_save_addr mc)"
    using sch(8) by (simp add: new_tcb_def Let_def)
  have un: "ptr_demangle mc (ptr_mangle mc p) = p" for p
    by (simp add: ptr_demangle_def ptr_mangle_def xor.assoc)
  show ?thesis
    using len m by (simp add: r new_tcb_def Let_def JB_defs longjmp_def un start_thunk_def pushq_def popq_def)
qed

theorem thread_starts_witness:
  "\<exists>(s :: threads) c. start_thunk (longjmp demo_mc (regs (TCB_Table s ! 1)) (memory s)) = Some c \<and> rip c = 0x403000 \<and> rdi c = 42 \<and>
     stk c (rsp c) = Some 0x402000"
proof -
  obtain buf s where r: "pthread_create demo_mc demo_cpu 0x403000 42 threads_boot = Some (Some 1, Jump buf s)"
    by (rule demo_create)
  have mc: "return_save_addr demo_mc = 0x402000" "length (demo_cpu New_setjmp) = 8" by (simp_all add: demo_mc_def demo_cpu_def)
  from thread_starts [OF boot_ok mc(2) r] show ?thesis unfolding mc by blast
qed

text \<open>C29. No slot of the table is ever reused, even after its thread has ended: a program creates at
  most 127 threads in its life.\<close>

theorem create_limit:
  assumes "thread_run mc n s"
  shows "n \<le> MAX_THREADS - 1 \<and> (0 < n \<longrightarrow> card (free_slots s) = MAX_THREADS - 1 - n)"
  using run_slots [OF assms] by (auto split: if_splits)

theorem create_limit_witness: "\<exists>s. thread_run demo_mc 1 s \<and> card (free_slots s) = 126"
proof -
  obtain s :: threads where s: "thread_run demo_mc 1 s" by (rule demo_create) blast
  with create_limit [OF s] show ?thesis by (auto simp: MAX_THREADS_def)
qed

text \<open>When no slot is free, \<open>pthread_create\<close> does not reach its error exit: the loop reads the
  status of slot 128, which is outside the table.\<close>

theorem create_table_full:
  fixes s :: "'a threads_scheme"
  assumes "threads_ok s" "\<not> is_first_call s" "free_slots s = {}"
  shows "pthread_create mc cpu f arg s = None"
proof -
  have len: "length (TCB_Table s) = MAX_THREADS" using assms(1) by (simp add: threads_ok_def tcbs_ok_def)
  have "find (\<lambda>i. st s i = TS_EMPTY) [1..<MAX_THREADS] = None" using assms(3) by (auto simp: find_None_iff free_slots_def)
  then have "find_empty (TCB_Table s) 1 = None" using find_empty_eq [OF len, of 1] by (simp add: MAX_THREADS_def)
  then show ?thesis using assms(2) by (simp add: pthread_create_def create_init_def)
qed

text \<open>A table whose slots are all taken.\<close>

definition full_state :: threads where
  "full_state = \<lparr>TCB_Table = map (\<lambda>i. \<lparr>tid = i, stack = 0, regs = replicate 8 0,
     status = (if i = 0 then TS_RUNNING else TS_EXITED)\<rparr>) [0..<MAX_THREADS],
     TID = 0, is_first_call = False, alarm = True, memory = Map.empty\<rparr>"

lemma full_state_ok: "threads_ok full_state" "\<not> is_first_call full_state" "free_slots full_state = {}"
  by (auto simp: threads_ok_def tcbs_ok_def one_running_def full_state_def free_slots_def MAX_THREADS_def)

theorem create_table_full_witness:
  "threads_ok full_state \<and> pthread_create demo_mc demo_cpu 0x403000 42 full_state = None"
  using create_table_full [OF full_state_ok] full_state_ok(1) by simp

text \<open>C30. How a thread ends: when another thread is ready, control goes to it and the caller never
  runs again; when the others are only blocked, the scheduler loops for ever; when there is
  no other thread left, the process exits with status 0 after freeing the stack of every
  thread that has ended.\<close>

theorem exit_outcome:
  assumes ok: "threads_ok s" and nf: "\<not> is_first_call s"
  shows "case pthread_exit s of
      Some (Jump buf s') \<Rightarrow> threads_ok s' \<and> st s (TID s') = TS_READY \<and> st s' (TID s) = TS_EXITED
    | Some (Exit r freed) \<Rightarrow> r = 0 \<and> (\<forall>i<MAX_THREADS. i \<noteq> TID s \<longrightarrow> st s i \<in> {TS_EXITED, TS_EMPTY}) \<and>
        (\<forall>i<MAX_THREADS. i = TID s \<or> st s i = TS_EXITED \<longrightarrow> stack (TCB_Table s ! i) \<in> set freed)
    | None \<Rightarrow> (\<forall>i<MAX_THREADS. st s i \<noteq> TS_READY) \<and> (\<exists>i<MAX_THREADS. st s i = TS_BLOCKED)"
proof -
  let ?s = "s\<lparr>TCB_Table := (TCB_Table s)[TID s := (TCB_Table s ! TID s)\<lparr>status := TS_EXITED\<rparr>]\<rparr>"
  note e = exit_step [OF ok nf]
  have w: "TID s < MAX_THREADS" "length (TCB_Table s) = MAX_THREADS" "one_running s" using ok nf by (auto simp: threads_ok_def tcbs_ok_def)
  have len: "length (TCB_Table ?s) = MAX_THREADS" using w(2) by simp
  have left: "threads_left (TCB_Table ?s) \<longleftrightarrow> (\<exists>i<MAX_THREADS. i \<noteq> TID s \<and> st s i \<in> {TS_READY, TS_BLOCKED})"
    unfolding threads_left_def list_ex_length len using e(4) w(3) by (auto simp: one_running_def split: if_splits)
  have y: "yielded ?s i = (if i = TID s then TS_EXITED else st s i)" if "i < MAX_THREADS" for i
    using e(4) [OF that] by (auto simp: yielded_def)
  show ?thesis
  proof (cases "threads_left (TCB_Table ?s)")
    case False
    then have ex: "pthread_exit s = Some (Exit 0 (map stack (filter (\<lambda>t. status t = TS_EXITED) (TCB_Table ?s))))" by (simp only: e(1) if_False)
    have "st s i \<in> {TS_EXITED, TS_EMPTY}" if "i < MAX_THREADS" "i \<noteq> TID s" for i
      using False left that w(3) by (cases "st s i") (auto simp: one_running_def)
    moreover have "stack (TCB_Table s ! i) \<in> set (map stack (filter (\<lambda>t. status t = TS_EXITED) (TCB_Table ?s)))"
      if "i < MAX_THREADS" "i = TID s \<or> st s i = TS_EXITED" for i
    proof -
      have "TCB_Table ?s ! i \<in> set (TCB_Table ?s)" using that(1) len by simp
      moreover have "status (TCB_Table ?s ! i) = TS_EXITED" "stack (TCB_Table ?s ! i) = stack (TCB_Table s ! i)"
        using e(4) [OF that(1)] that w(1,2) by (auto simp: nth_list_update)
      ultimately show ?thesis unfolding set_map set_filter by (intro image_eqI [of _ stack "TCB_Table ?s ! i"]) simp_all
    qed
    ultimately show ?thesis by (simp only: ex option.case outcome.case) blast
  next
    case True
    then have ex: "pthread_exit s = map_option (\<lambda>(buf, s'). Jump buf s') (schedule [] ?s)" by (simp only: e(1) if_True)
    show ?thesis
    proof (cases "schedule [] ?s")
      case None
      then have "yielded ?s i \<noteq> TS_READY" if "i < MAX_THREADS" for i using schedule_defined [OF e(2), of "[]"] that by auto
      then have "st s i \<noteq> TS_READY" if "i < MAX_THREADS" for i
        using y that w(3) by (force simp: one_running_def split: if_splits)
      moreover from this left True obtain i where "i < MAX_THREADS" "st s i = TS_BLOCKED" by auto
      ultimately show ?thesis using ex None by auto
    next
      case (Some r)
      obtain buf s' where r: "schedule [] ?s = Some (buf, s')" using Some by (cases r) simp
      note sch = schedule_step [OF e(2) r]
      have T': "TID s' < MAX_THREADS" using sch(1) by (simp add: tcbs_ok_def)
      then have "st s (TID s') = TS_READY \<and> TID s' \<noteq> TID s" using sch(2) y [OF T'] by (simp split: if_splits)
      moreover have "st s' (TID s) = TS_EXITED" using sch(4) [OF w(1)] y [OF w(1)] calculation by simp
      ultimately show ?thesis using ex r e(5) [OF r] by simp
    qed
  qed
qed

theorem exit_outcome_witness: "\<exists>freed. pthread_exit full_state = Some (Exit 0 freed) \<and> 0 \<in> set freed"
proof -
  have st: "st full_state i \<in> {TS_RUNNING, TS_EXITED}" "stack (TCB_Table full_state ! i) = 0" if "i < MAX_THREADS" for i
    using that by (auto simp: full_state_def)
  have T: "TID full_state < MAX_THREADS" using full_state_ok(1) by (simp add: threads_ok_def tcbs_ok_def)
  note x = exit_outcome [OF full_state_ok(1,2)]
  show ?thesis
  proof (cases "pthread_exit full_state")
    case None
    then show ?thesis using x st(1) by fastforce
  next
    case (Some r)
    then show ?thesis
    proof (cases r)
      case (Exit c freed)
      then show ?thesis using x Some st(2) [OF T] T by force
    next
      case (Jump buf s')
      then have "threads_ok s'" "st full_state (TID s') = TS_READY" using x Some by simp_all
      then show ?thesis using st(1) [of "TID s'"] by (auto simp: threads_ok_def tcbs_ok_def)
    qed
  qed
qed

end
