(* ===== verification/Thread_Sync.thy ===== *)
theory Thread_Sync
  imports Threads
begin

text \<open>
  Project 3, mutexes and barriers (\<^verbatim>\<open>threads.c\<close> and \<^verbatim>\<open>ec440threads.h\<close>). A function that calls
  \<open>schedule\<close> loses control in the middle, and the alarm can interrupt any function where
  \<open>SIGALRM\<close> is not masked. The functions that may lose control are therefore given as a
  sequence of atomic segments, one per program point: a segment is executed without
  interruption and says where the function goes on, or what it returns. The code between
  \<open>lock()\<close> and \<open>unlock()\<close> is one segment. \<open>mutex\<close> and \<open>barrier\<close> are the values of
  \<open>mutex->__align\<close> and \<open>barrier->__align\<close>.
\<close>

section \<open>Data\<close>

datatype mutex_state = LOCKED | UNLOCKED

record linked_list =
  ltid :: pthread_t
  lnext :: nat

record MutexControlBlock =
  mstate :: mutex_state
  wait_list :: nat
  wait_list_tail :: nat

record BarrierControlBlock =
  init :: int
  flag :: int
  calling_thread :: pthread_t
  count :: u32
  left :: u32

text \<open>The heap of the library and the signal mask.\<close>

record sync = threads +
  nodes :: "nat \<rightharpoonup> linked_list"
  mcbs :: "nat \<rightharpoonup> MutexControlBlock"
  bcbs :: "nat \<rightharpoonup> BarrierControlBlock"
  fresh :: nat
  masked :: bool

definition EBUSY :: int where "EBUSY = 16"
definition EINVAL :: int where "EINVAL = 22"
definition PTHREAD_BARRIER_SERIAL_THREAD :: int where "PTHREAD_BARRIER_SERIAL_THREAD = -1"

definition lock :: "'a sync_scheme \<Rightarrow> 'a sync_scheme" where
  "lock s = s\<lparr>masked := True\<rparr>"

definition unlock :: "'a sync_scheme \<Rightarrow> 'a sync_scheme" where
  "unlock s = s\<lparr>masked := False\<rparr>"

definition set_status :: "pthread_t \<Rightarrow> thread_status \<Rightarrow> 'a threads_scheme \<Rightarrow> 'a threads_scheme option" where
  "set_status t v s = do {
     c \<leftarrow> array_get (TCB_Table s) (int t);
     Some (s\<lparr>TCB_Table := (TCB_Table s)[t := c\<lparr>status := v\<rparr>]\<rparr>)
   }"


section \<open>The linked list\<close>

text \<open>A list is given by its head and tail pointers.\<close>

definition insert_tail :: "nat \<times> nat \<Rightarrow> pthread_t \<Rightarrow> 'a sync_scheme \<Rightarrow> ((nat \<times> nat) \<times> 'a sync_scheme) option" where
  "insert_tail lt t s = (
     let (list, tail) = lt;
         to_ins = fresh s;
         H = (nodes s)(to_ins \<mapsto> \<lparr>ltid = t, lnext = 0\<rparr>)
     in if list = 0 then Some ((to_ins, to_ins), s\<lparr>fresh := fresh s + 1, nodes := H\<rparr>)
        else do {
          e \<leftarrow> H tail;
          Some ((list, to_ins), s\<lparr>fresh := fresh s + 1, nodes := H(tail \<mapsto> e\<lparr>lnext := to_ins\<rparr>)\<rparr>)
        })"

definition get_head :: "nat \<times> nat \<Rightarrow> 'a sync_scheme \<Rightarrow> (pthread_t \<times> (nat \<times> nat) \<times> 'a sync_scheme) option" where
  "get_head lt s = (
     let (list, tail) = lt in do {
       to_del \<leftarrow> nodes s list;
       let list' = lnext to_del;
       Some (ltid to_del, (list', if list' = 0 then 0 else tail), s\<lparr>nodes := (nodes s)(list := None)\<rparr>)
     })"

definition is_empty :: "nat \<Rightarrow> bool" where
  "is_empty list \<longleftrightarrow> list = 0"


section \<open>Mutexes\<close>

text \<open>The pointer that \<open>pthread_mutex_init\<close> stores in \<open>mutex->__align\<close> is part of the result.\<close>

definition pthread_mutex_init :: "'a sync_scheme \<Rightarrow> int \<times> nat \<times> 'a sync_scheme" where
  "pthread_mutex_init s =
     (let MCB = fresh s in
      (0, MCB, s\<lparr>fresh := fresh s + 1,
                 mcbs := (mcbs s)(MCB \<mapsto> \<lparr>mstate = UNLOCKED, wait_list = 0, wait_list_tail = 0\<rparr>)\<rparr>))"

definition pthread_mutex_destroy :: "nat \<Rightarrow> 'a sync_scheme \<Rightarrow> (int \<times> 'a sync_scheme) option" where
  "pthread_mutex_destroy mutex s = do {
     MCB \<leftarrow> mcbs s mutex;
     Some (if mstate MCB \<noteq> LOCKED then (0, s\<lparr>mcbs := (mcbs s)(mutex := None)\<rparr>) else (-1, s))
   }"

datatype 'p flow = Goto 'p | Return int

datatype lock_pc = L_test | L_take | L_block | L_yield | L_busy

fun pthread_mutex_lock :: "lock_pc \<Rightarrow> nat \<Rightarrow> jmp_buf \<Rightarrow> 'a sync_scheme \<Rightarrow> (lock_pc flow \<times> 'a sync_scheme) option" where
  "pthread_mutex_lock L_test mutex here s = do {
     MCB \<leftarrow> mcbs s mutex;
     Some (Goto (if mstate MCB = UNLOCKED then L_take else L_block), s)
   }"
| "pthread_mutex_lock L_take mutex here s = do {
     let s1 = lock s;
     MCB \<leftarrow> mcbs s1 mutex;
     Some (Return 0, unlock (s1\<lparr>mcbs := (mcbs s1)(mutex \<mapsto> MCB\<lparr>mstate := LOCKED\<rparr>)\<rparr>))
   }"
| "pthread_mutex_lock L_block mutex here s = do {
     s1 \<leftarrow> set_status (TID s) TS_BLOCKED (lock s);
     MCB \<leftarrow> mcbs s1 mutex;
     ((l, t), s2) \<leftarrow> insert_tail (wait_list MCB, wait_list_tail MCB) (TID s1) s1;
     Some (Goto L_yield, unlock (s2\<lparr>mcbs := (mcbs s2)(mutex \<mapsto> MCB\<lparr>wait_list := l, wait_list_tail := t\<rparr>)\<rparr>))
   }"
| "pthread_mutex_lock L_yield mutex here s = do {
     (buf, s') \<leftarrow> schedule here s;
     Some (Goto L_busy, s')
   }"
| "pthread_mutex_lock L_busy mutex here s = Some (Return EBUSY, s)"

datatype unlock_pc = U_test | U_free | U_wake | U_yield | U_done

text \<open>\<open>MCB->state = 1\<close> stores the second enumerator, \<open>UNLOCKED\<close>.\<close>

fun pthread_mutex_unlock :: "unlock_pc \<Rightarrow> nat \<Rightarrow> jmp_buf \<Rightarrow> 'a sync_scheme \<Rightarrow> (unlock_pc flow \<times> 'a sync_scheme) option" where
  "pthread_mutex_unlock U_test mutex here s = do {
     MCB \<leftarrow> mcbs s mutex;
     Some (Goto (if is_empty (wait_list MCB) then U_free else U_wake), s)
   }"
| "pthread_mutex_unlock U_free mutex here s = do {
     let s1 = lock s;
     MCB \<leftarrow> mcbs s1 mutex;
     Some (Return 0, unlock (s1\<lparr>mcbs := (mcbs s1)(mutex \<mapsto> MCB\<lparr>mstate := UNLOCKED\<rparr>)\<rparr>))
   }"
| "pthread_mutex_unlock U_wake mutex here s = do {
     let s1 = lock s;
     MCB \<leftarrow> mcbs s1 mutex;
     (next_thread, (l, t), s2) \<leftarrow> get_head (wait_list MCB, wait_list_tail MCB) s1;
     s3 \<leftarrow> set_status next_thread TS_READY
       (s2\<lparr>mcbs := (mcbs s2)(mutex \<mapsto> MCB\<lparr>mstate := UNLOCKED, wait_list := l, wait_list_tail := t\<rparr>)\<rparr>);
     Some (Goto U_yield, unlock s3)
   }"
| "pthread_mutex_unlock U_yield mutex here s = do {
     (buf, s') \<leftarrow> schedule here s;
     Some (Goto U_done, s')
   }"
| "pthread_mutex_unlock U_done mutex here s = Some (Return 0, s)"


section \<open>Barriers\<close>

definition pthread_barrier_init :: "u32 \<Rightarrow> 'a sync_scheme \<Rightarrow> int \<times> nat option \<times> 'a sync_scheme" where
  "pthread_barrier_init n s =
     (if n = 0 then (EINVAL, None, s)
      else let BCB = fresh s in
        (0, Some BCB, s\<lparr>fresh := fresh s + 1,
           bcbs := (bcbs s)(BCB \<mapsto> \<lparr>init = 1, flag = 0, calling_thread = 2 ^ 64 - 1, count = n, left = n\<rparr>)\<rparr>))"

definition pthread_barrier_destroy :: "nat \<Rightarrow> 'a sync_scheme \<Rightarrow> (int \<times> 'a sync_scheme) option" where
  "pthread_barrier_destroy barrier s = do {
     BCB \<leftarrow> bcbs s barrier;
     Some (if init BCB \<noteq> 1 then (0, s\<lparr>bcbs := (bcbs s)(barrier := None)\<rparr>) else (-1, s))
   }"

datatype barrier_pc = B_enter | B_flag | B_block | B_yield | B_loop | B_spin | B_release | B_yield2 | B_last

fun pthread_barrier_wait :: "barrier_pc \<Rightarrow> nat \<Rightarrow> jmp_buf \<Rightarrow> 'a sync_scheme \<Rightarrow> (barrier_pc flow \<times> 'a sync_scheme) option" where
  "pthread_barrier_wait B_enter barrier here s = do {
     BCB \<leftarrow> bcbs s barrier;
     Some (Goto B_flag, s\<lparr>bcbs := (bcbs s)(barrier \<mapsto> BCB\<lparr>left := left BCB - 1\<rparr>)\<rparr>)
   }"
| "pthread_barrier_wait B_flag barrier here s = do {
     BCB \<leftarrow> bcbs s barrier;
     Some (Goto (if flag BCB \<noteq> 1 then B_block else B_loop), s)
   }"
| "pthread_barrier_wait B_block barrier here s = do {
     s1 \<leftarrow> set_status (TID s) TS_BLOCKED (lock s);
     BCB \<leftarrow> bcbs s1 barrier;
     Some (Goto B_yield, unlock (s1\<lparr>bcbs := (bcbs s1)(barrier \<mapsto> BCB\<lparr>calling_thread := TID s1, flag := 1\<rparr>)\<rparr>))
   }"
| "pthread_barrier_wait B_yield barrier here s = do {
     (buf, s') \<leftarrow> schedule here s;
     Some (Goto B_loop, s')
   }"
| "pthread_barrier_wait B_loop barrier here s = do {
     BCB \<leftarrow> bcbs s barrier;
     Some (Goto (if left BCB \<noteq> 0 then B_spin else B_release), s)
   }"
| "pthread_barrier_wait B_spin barrier here s = do {
     (buf, s') \<leftarrow> schedule here s;
     Some (Goto B_loop, s')
   }"
| "pthread_barrier_wait B_release barrier here s = do {
     let s1 = lock s;
     BCB \<leftarrow> bcbs s1 barrier;
     s2 \<leftarrow> (if flag BCB = 1
           then set_status (calling_thread BCB) TS_READY (s1\<lparr>bcbs := (bcbs s1)(barrier \<mapsto> BCB\<lparr>flag := 0\<rparr>)\<rparr>)
           else Some s1);
     Some (Goto B_yield2, unlock s2)
   }"
| "pthread_barrier_wait B_yield2 barrier here s = do {
     (buf, s') \<leftarrow> schedule here s;
     Some (Goto B_last, s')
   }"
| "pthread_barrier_wait B_last barrier here s = do {
     BCB \<leftarrow> bcbs s barrier;
     Some (if calling_thread BCB = TID s
           then (Return PTHREAD_BARRIER_SERIAL_THREAD, s\<lparr>bcbs := (bcbs s)(barrier \<mapsto> BCB\<lparr>left := count BCB\<rparr>)\<rparr>)
           else (Return 0, s))
   }"

end
