(* ===== verification/Sync_Queue.thy ===== *)
theory Sync_Queue
  imports Thread_Sync
begin

text \<open>
  The wait list of a mutex is a first-in first-out queue. The locale \<open>fifo\<close> is the contract that
  the mutexes rely on; the linked list of \<^verbatim>\<open>ec440threads.h\<close> implements it.
\<close>

section \<open>The contract\<close>

text \<open>A client of a queue puts elements in and takes elements out in any order; the list of the
  elements is the abstract queue. Taking from an empty queue is an error of the client.\<close>

datatype 'a queue_op = Put 'a | Get

fun list_queue :: "'a queue_op list \<Rightarrow> 'a list \<Rightarrow> ('a list \<times> 'a list) option" where
  "list_queue [] xs = Some ([], xs)"
| "list_queue (Put x # ops) xs = list_queue ops (xs @ [x])"
| "list_queue (Get # ops) [] = None"
| "list_queue (Get # ops) (x # xs) = map_option (\<lambda>(out, ys). (x # out, ys)) (list_queue ops xs)"

locale fifo =
  fixes rep :: "'s \<Rightarrow> 'q \<Rightarrow> 'a list \<Rightarrow> bool"
    and put :: "'q \<Rightarrow> 'a \<Rightarrow> 's \<Rightarrow> ('q \<times> 's) option"
    and get :: "'q \<Rightarrow> 's \<Rightarrow> ('a \<times> 'q \<times> 's) option"
    and empty :: "'q \<Rightarrow> bool"
  assumes rep_empty: "rep s q xs \<Longrightarrow> empty q \<longleftrightarrow> xs = []"
    and rep_put: "rep s q xs \<Longrightarrow> \<exists>q' s'. put q x s = Some (q', s') \<and> rep s' q' (xs @ [x])"
    and rep_get: "rep s q (x # xs) \<Longrightarrow> \<exists>q' s'. get q s = Some (x, q', s') \<and> rep s' q' xs"
    and rep_get_empty: "rep s q [] \<Longrightarrow> get q s = None"
begin

fun queue_run :: "'a queue_op list \<Rightarrow> 'q \<times> 's \<Rightarrow> ('a list \<times> 'q \<times> 's) option" where
  "queue_run [] (q, s) = Some ([], q, s)"
| "queue_run (Put x # ops) (q, s) = do { qs \<leftarrow> put q x s; queue_run ops qs }"
| "queue_run (Get # ops) (q, s) = do { (x, qs) \<leftarrow> get q s; (out, qs') \<leftarrow> queue_run ops qs; Some (x # out, qs') }"

text \<open>Every sequence of operations gives what the list gives: the same elements in the same order,
  a queue that represents the list that remains, or the same error.\<close>

lemma queue_run_list:
  assumes "rep s q xs"
  shows "case list_queue ops xs of
      None \<Rightarrow> queue_run ops (q, s) = None
    | Some (out, ys) \<Rightarrow> \<exists>q' s'. queue_run ops (q, s) = Some (out, q', s') \<and> rep s' q' ys \<and> (empty q' \<longleftrightarrow> ys = [])"
  using assms
proof (induction ops xs arbitrary: q s rule: list_queue.induct)
  case (1 xs)
  then show ?case using rep_empty by auto
next
  case (2 x ops xs)
  from rep_put [OF "2.prems", of x] obtain q' s' where "put q x s = Some (q', s')" "rep s' q' (xs @ [x])" by blast
  with "2.IH" [OF this(2)] show ?case by (auto split: option.splits)
next
  case (3 ops)
  then show ?case using rep_get_empty by simp
next
  case (4 ops x xs)
  from rep_get [OF "4.prems"] obtain q' s' where "get q s = Some (x, q', s')" "rep s' q' xs" by blast
  with "4.IH" [OF this(2)] show ?case by (auto split: option.splits)
qed

end


section \<open>Linked lists\<close>

fun lpath :: "(nat \<rightharpoonup> linked_list) \<Rightarrow> nat \<Rightarrow> nat list \<Rightarrow> bool" where
  "lpath H p [] \<longleftrightarrow> p = 0"
| "lpath H p (q # qs) \<longleftrightarrow> p = q \<and> q \<noteq> 0 \<and> (case H q of None \<Rightarrow> False | Some e \<Rightarrow> lpath H (lnext e) qs)"

lemma lpath_upd_other: "q \<notin> set ps \<Longrightarrow> lpath (H(q := x)) p ps = lpath H p ps"
  by (induction H p ps rule: lpath.induct) (auto split: option.splits)

lemma lpath_dom: "lpath H p ps \<Longrightarrow> q \<in> set ps \<Longrightarrow> q \<noteq> 0 \<and> H q \<noteq> None"
  by (induction H p ps rule: lpath.induct) (auto split: option.splits)

lemma lpath_unique: "lpath H p ps \<Longrightarrow> lpath H p qs \<Longrightarrow> ps = qs"
proof (induction H p ps arbitrary: qs rule: lpath.induct)
  case (1 H p)
  then show ?case by (cases qs) auto
next
  case (2 H p q ps)
  then show ?case by (cases qs) (auto split: option.splits)
qed

lemma lpath_zero [simp]: "lpath H 0 ps \<longleftrightarrow> ps = []"
  by (cases ps) auto

lemma lpath_snoc:
  "lpath H p ps \<Longrightarrow> ps \<noteq> [] \<Longrightarrow> distinct ps \<Longrightarrow> H (last ps) = Some e \<Longrightarrow> new \<notin> set ps \<Longrightarrow> new \<noteq> 0 \<Longrightarrow>
     H new = Some e' \<Longrightarrow> lnext e' = 0 \<Longrightarrow> lpath (H(last ps \<mapsto> e\<lparr>lnext := new\<rparr>)) p (ps @ [new])"
proof (induction H p ps rule: lpath.induct)
  case (2 H p q qs)
  then obtain f where f: "H q = Some f" "lpath H (lnext f) qs" "p = q" by (auto split: option.splits)
  show ?case
  proof (cases "qs = []")
    case True
    with 2 f show ?thesis by auto
  next
    case False
    then have "q \<noteq> last qs" using 2(4) by auto
    moreover have "lpath (H(last qs \<mapsto> e\<lparr>lnext := new\<rparr>)) (lnext f) (qs @ [new])"
      by (rule "2.IH" [OF f(1,2) False]) (use 2 False in auto)
    ultimately show ?thesis using 2 f False by simp
  qed
qed simp

text \<open>The list with head \<open>l\<close> and tail \<open>t\<close> whose nodes are at \<open>ps\<close>.\<close>

definition lrep :: "(nat \<rightharpoonup> linked_list) \<Rightarrow> nat \<times> nat \<Rightarrow> nat list \<Rightarrow> bool" where
  "lrep H q ps \<longleftrightarrow> lpath H (fst q) ps \<and> distinct ps \<and> (ps \<noteq> [] \<longrightarrow> snd q = last ps)"

definition nodes_ok :: "'a sync_scheme \<Rightarrow> bool" where
  "nodes_ok s \<longleftrightarrow> 0 < fresh s \<and> nodes s 0 = None \<and> (\<forall>p. fresh s \<le> p \<longrightarrow> nodes s p = None)"

definition threads_at :: "(nat \<rightharpoonup> linked_list) \<Rightarrow> nat list \<Rightarrow> pthread_t list" where
  "threads_at H ps = map (\<lambda>p. ltid (the (H p))) ps"

lemma lrep_empty: "lrep H q ps \<Longrightarrow> is_empty (fst q) \<longleftrightarrow> ps = []"
  by (cases ps) (auto simp: lrep_def is_empty_def)

lemma insert_tail_step:
  assumes ok: "nodes_ok s" and q: "lrep (nodes s) q ps"
  obtains q' s' where "insert_tail q t s = Some (q', s')" "lrep (nodes s') q' (ps @ [fresh s])"
    "nodes s' (fresh s) = Some \<lparr>ltid = t, lnext = 0\<rparr>" "\<And>p. p \<noteq> fresh s \<Longrightarrow> map_option ltid (nodes s' p) = map_option ltid (nodes s p)"
    "\<And>p. p \<notin> set ps \<Longrightarrow> p \<noteq> fresh s \<Longrightarrow> nodes s' p = nodes s p"
    "nodes_ok s'" "s' = s\<lparr>fresh := fresh s + 1, nodes := nodes s'\<rparr>"
proof -
  obtain l tl where lt: "q = (l, tl)" by (cases q)
  have new: "nodes s (fresh s) = None" "fresh s \<noteq> 0" using ok by (auto simp: nodes_ok_def)
  let ?H = "(nodes s)(fresh s \<mapsto> \<lparr>ltid = t, lnext = 0\<rparr>)"
  have notin: "fresh s \<notin> set ps" using q lpath_dom new(1) by (fastforce simp: lrep_def)
  show ?thesis
  proof (cases "ps = []")
    case True
    let ?s = "s\<lparr>fresh := fresh s + 1, nodes := ?H\<rparr>"
    have "insert_tail q t s = Some ((fresh s, fresh s), ?s)" using q True by (simp add: insert_tail_def lt lrep_def Let_def)
    moreover have "lrep (nodes ?s) (fresh s, fresh s) (ps @ [fresh s])" using True new by (simp add: lrep_def)
    ultimately show ?thesis using ok by (intro that [of "(fresh s, fresh s)" ?s]) (auto simp: nodes_ok_def)
  next
    case False
    then have la: "last ps \<in> set ps" by simp
    have lp: "lpath (nodes s) l ps" and "tl = last ps" using q False by (auto simp: lrep_def lt)
    moreover from lp False have "l \<noteq> 0" by (cases "l = 0") auto
    moreover have "last ps \<noteq> fresh s" using notin la by auto
    ultimately obtain e where e: "nodes s (last ps) = Some e" "l \<noteq> 0" "tl = last ps" "last ps \<noteq> fresh s"
      using lpath_dom [OF lp la] by blast
    have "last ps \<noteq> 0" using lpath_dom [OF lp la] by blast
    let ?H2 = "?H(tl \<mapsto> e\<lparr>lnext := fresh s\<rparr>)"
    let ?s = "s\<lparr>fresh := fresh s + 1, nodes := ?H2\<rparr>"
    have "insert_tail q t s = Some ((l, fresh s), ?s)" using e by (simp add: insert_tail_def lt Let_def)
    moreover have "lpath ?H2 l (ps @ [fresh s])"
      unfolding e(3) by (rule lpath_snoc) (use q False notin new e in \<open>auto simp: lrep_def lt lpath_upd_other\<close>)
    then have "lrep (nodes ?s) (l, fresh s) (ps @ [fresh s])" using q notin by (simp add: lrep_def)
    moreover have "nodes ?s p = nodes s p" if "p \<notin> set ps" "p \<noteq> fresh s" for p
      using that False e(3) by (auto simp: last_in_set)
    moreover have "nodes_ok ?s" using ok e \<open>last ps \<noteq> 0\<close> by (auto simp: nodes_ok_def)
    ultimately show ?thesis using e by (intro that [of "(l, fresh s)" ?s]) auto
  qed
qed

lemma get_head_step:
  assumes ok: "nodes_ok s" and q: "lrep (nodes s) q (p # ps)"
  obtains q' s' where "get_head q s = Some (ltid (the (nodes s p)), q', s')" "lrep (nodes s') q' ps"
    "s' = s\<lparr>nodes := (nodes s)(p := None)\<rparr>" "nodes_ok s'"
proof -
  obtain l tl where lt: "q = (l, tl)" by (cases q)
  obtain e where e: "nodes s p = Some e" "l = p" "p \<noteq> 0" "lpath (nodes s) (lnext e) ps" "tl = last (p # ps)" "p \<notin> set ps" "distinct ps"
    using q by (auto simp: lrep_def lt split: option.splits)
  let ?s = "s\<lparr>nodes := (nodes s)(p := None)\<rparr>"
  have "get_head q s = Some (ltid e, (lnext e, if lnext e = 0 then 0 else tl), ?s)"
    using e by (simp add: get_head_def lt Let_def)
  moreover have "lrep (nodes ?s) (lnext e, if lnext e = 0 then 0 else tl) ps"
    using e by (auto simp: lrep_def lpath_upd_other)
  ultimately show ?thesis using ok e(1)
    by (intro that [of "(lnext e, if lnext e = 0 then 0 else tl)" ?s]) (auto simp: nodes_ok_def)
qed

definition queue_rep :: "'a sync_scheme \<Rightarrow> nat \<times> nat \<Rightarrow> pthread_t list \<Rightarrow> bool" where
  "queue_rep s q xs \<longleftrightarrow> nodes_ok s \<and> (\<exists>ps. lrep (nodes s) q ps \<and> threads_at (nodes s) ps = xs)"

lemma threads_at_cong:
  "(\<And>p. p \<in> set ps \<Longrightarrow> map_option ltid (H' p) = map_option ltid (H p)) \<Longrightarrow> (\<And>p. p \<in> set ps \<Longrightarrow> H p \<noteq> None) \<Longrightarrow>
     threads_at H' ps = threads_at H ps"
  unfolding threads_at_def by (rule map_cong [OF refl]) (metis map_option_is_None option.map_sel)

interpretation wl: fifo queue_rep insert_tail get_head "\<lambda>q. is_empty (fst q)"
proof
  fix s :: "'a sync_scheme" and q :: "nat \<times> nat" and xs :: "pthread_t list" and x :: pthread_t
  show "is_empty (fst q) \<longleftrightarrow> xs = []" if "queue_rep s q xs"
  proof -
    from that obtain ps where "lrep (nodes s) q ps" "threads_at (nodes s) ps = xs" by (auto simp: queue_rep_def)
    with lrep_empty [OF this(1)] show ?thesis by (auto simp: threads_at_def)
  qed
  show "\<exists>q' s'. insert_tail q x s = Some (q', s') \<and> queue_rep s' q' (xs @ [x])" if r: "queue_rep s q xs"
  proof -
    from r obtain ps where ps: "nodes_ok s" "lrep (nodes s) q ps" "threads_at (nodes s) ps = xs" by (auto simp: queue_rep_def)
    obtain q' s' where i: "insert_tail q x s = Some (q', s')" "lrep (nodes s') q' (ps @ [fresh s])"
      "nodes s' (fresh s) = Some \<lparr>ltid = x, lnext = 0\<rparr>" "\<And>p. p \<noteq> fresh s \<Longrightarrow> map_option ltid (nodes s' p) = map_option ltid (nodes s p)"
      "nodes_ok s'" using insert_tail_step [OF ps(1,2), of x] by metis
    have d: "nodes s p \<noteq> None \<and> p \<noteq> fresh s" if "p \<in> set ps" for p
      using that ps(1,2) lpath_dom [of "nodes s" "fst q" ps p] by (auto simp: lrep_def nodes_ok_def)
    have "threads_at (nodes s') ps = threads_at (nodes s) ps" by (rule threads_at_cong) (use d i(4) in auto)
    then have "threads_at (nodes s') (ps @ [fresh s]) = xs @ [x]" using ps(3) i(3) unfolding threads_at_def map_append by simp
    with i show ?thesis by (auto simp: queue_rep_def)
  qed
  show "\<exists>q' s'. get_head q s = Some (x, q', s') \<and> queue_rep s' q' xs" if r: "queue_rep s q (x # xs)"
  proof -
    from r obtain p ps where ps: "nodes_ok s" "lrep (nodes s) q (p # ps)" "ltid (the (nodes s p)) = x" "threads_at (nodes s) ps = xs"
      by (auto simp: queue_rep_def threads_at_def)
    obtain q' s' where g: "get_head q s = Some (ltid (the (nodes s p)), q', s')" "lrep (nodes s') q' ps"
      "s' = s\<lparr>nodes := (nodes s)(p := None)\<rparr>" "nodes_ok s'" by (rule get_head_step [OF ps(1,2)])
    have "p \<notin> set ps" using ps(2) by (simp add: lrep_def)
    then have "threads_at (nodes s') ps = xs" using ps(4) unfolding g(3) threads_at_def by auto
    with g ps(3) show ?thesis by (auto simp: queue_rep_def)
  qed
  show "get_head q s = None" if "queue_rep s q []"
    using that by (cases q) (auto simp: queue_rep_def threads_at_def lrep_def nodes_ok_def get_head_def)
qed

end
