(* ===== verification/Sync_Machine.thy ===== *)
theory Sync_Machine
  imports Sync_Queue Thread_Sched
begin

text \<open>
  Threads that use mutexes and barriers, as a machine: the running thread executes the segments of
  the call it is in, a thread outside the library makes a call, and the alarm switches threads
  between any two segments. Every thread has its own program point.
\<close>

section \<open>The machine\<close>

datatype frame = Done int | In_Lock lock_pc nat | In_Unlock unlock_pc nat | In_Barrier barrier_pc nat

record sync_sys = sync +
  pcs :: "pthread_t \<Rightarrow> frame"

primrec resume :: "('p \<Rightarrow> frame) \<Rightarrow> 'p flow \<Rightarrow> frame" where
  "resume C (Goto p) = C p"
| "resume C (Return r) = Done r"

definition segment :: "frame \<Rightarrow> jmp_buf \<Rightarrow> sync_sys \<Rightarrow> (frame \<times> sync_sys) option" where
  "segment f here s =
     (case f of
        Done r \<Rightarrow> None
      | In_Lock p m \<Rightarrow> map_option (\<lambda>(n, s'). (resume (\<lambda>p. In_Lock p m) n, s')) (pthread_mutex_lock p m here s)
      | In_Unlock p m \<Rightarrow> map_option (\<lambda>(n, s'). (resume (\<lambda>p. In_Unlock p m) n, s')) (pthread_mutex_unlock p m here s)
      | In_Barrier p b \<Rightarrow> map_option (\<lambda>(n, s'). (resume (\<lambda>p. In_Barrier p b) n, s')) (pthread_barrier_wait p b here s))"

datatype event = Segment frame | Call frame | Alarm

definition calls :: "frame \<Rightarrow> bool" where
  "calls f = (case f of Done r \<Rightarrow> False | In_Lock p m \<Rightarrow> p = L_test | In_Unlock p m \<Rightarrow> p = U_test | In_Barrier p b \<Rightarrow> p = B_enter)"

inductive sync_step :: "sync_sys \<Rightarrow> event \<Rightarrow> sync_sys \<Rightarrow> bool" where
  run_segment: "segment (pcs s (TID s)) here s = Some (f, s1) \<Longrightarrow>
     sync_step s (Segment (pcs s (TID s))) (s1\<lparr>pcs := (pcs s1)(TID s := f)\<rparr>)"
| make_call: "pcs s (TID s) = Done r \<Longrightarrow> st s (TID s) = TS_RUNNING \<Longrightarrow> calls f \<Longrightarrow> sync_step s (Call f) (s\<lparr>pcs := (pcs s)(TID s := f)\<rparr>)"
| take_alarm: "alarm s \<Longrightarrow> \<not> masked s \<Longrightarrow> schedule here s = Some (buf, s') \<Longrightarrow> sync_step s Alarm s'"

inductive sync_trace :: "sync_sys \<Rightarrow> event list \<Rightarrow> sync_sys \<Rightarrow> bool" for s0 where
  start: "sync_trace s0 [] s0"
| step: "sync_trace s0 es s \<Longrightarrow> sync_step s e s' \<Longrightarrow> sync_trace s0 (es @ [e]) s'"


section \<open>Which threads are blocked\<close>

definition blocked :: "'a threads_scheme \<Rightarrow> pthread_t \<Rightarrow> bool" where
  "blocked s t \<longleftrightarrow> t < MAX_THREADS \<and> st s t = TS_BLOCKED"

lemma schedule_frame:
  fixes s :: "'a sync_scheme"
  assumes ok: "tcbs_ok s" and run: "schedule here s = Some (buf, s')"
  shows "nodes s' = nodes s" "mcbs s' = mcbs s" "bcbs s' = bcbs s" "fresh s' = fresh s" "masked s' = masked s"
    "blocked s' t = blocked s t" "tcbs_ok s'" "st s' (TID s') = TS_RUNNING"
proof -
  obtain T where s': "s' = s\<lparr>TCB_Table := T, TID := TID s'\<rparr>"
    using run by (auto simp: schedule_eq [OF ok] split: option.splits)
  show "nodes s' = nodes s" "mcbs s' = mcbs s" "bcbs s' = bcbs s" "fresh s' = fresh s" "masked s' = masked s"
    by (subst s', simp)+
  note sch = schedule_step [OF ok run]
  show "tcbs_ok s'" by (rule sch)
  show "st s' (TID s') = TS_RUNNING" using sch(1) sch(4) [of "TID s'"] by (simp add: tcbs_ok_def)
  show "blocked s' t = blocked s t" using sch(2) sch(4) [of t] by (auto simp: blocked_def yielded_def split: if_splits)
qed

lemma schedule_pcs:
  fixes s :: sync_sys
  assumes ok: "tcbs_ok s" and run: "schedule here s = Some (buf, s')"
  shows "pcs s' = pcs s"
  using run by (auto simp: schedule_eq [OF ok] split: option.splits)

lemma set_status_step:
  assumes "tcbs_ok s" "t < MAX_THREADS"
  obtains s' where "set_status t v s = Some s'" "tcbs_ok s'" "TID s' = TID s"
    "\<And>u. u < MAX_THREADS \<Longrightarrow> st s' u = (if u = t then v else st s u)" "s' = s\<lparr>TCB_Table := TCB_Table s'\<rparr>"
  using assms by (auto simp: set_status_def tcbs_ok_def nth_list_update)


section \<open>The invariant\<close>

text \<open>A thread that waits for a mutex is blocked inside \<open>pthread_mutex_lock\<close> of that mutex.\<close>

definition waits :: "sync_sys \<Rightarrow> nat \<Rightarrow> pthread_t \<Rightarrow> bool" where
  "waits s m t \<longleftrightarrow> blocked s t \<and> (pcs s t = In_Lock L_yield m \<or> pcs s t = In_Lock L_busy m)"

definition queue_of :: "sync_sys \<Rightarrow> nat \<Rightarrow> nat list \<Rightarrow> bool" where
  "queue_of s m ps \<longleftrightarrow> (\<exists>b. mcbs s m = Some b \<and> lrep (nodes s) (wait_list b, wait_list_tail b) ps) \<and>
     distinct (threads_at (nodes s) ps) \<and> (\<forall>t\<in>set (threads_at (nodes s) ps). waits s m t)"

definition queues_ok :: "sync_sys \<Rightarrow> bool" where
  "queues_ok s \<longleftrightarrow> (\<forall>m. mcbs s m \<noteq> None \<longrightarrow> (\<exists>ps. queue_of s m ps))"

text \<open>A thread that a barrier has recorded to be woken is blocked inside that barrier.\<close>

definition barriers_ok :: "sync_sys \<Rightarrow> bool" where
  "barriers_ok s \<longleftrightarrow> (\<forall>b B. bcbs s b = Some B \<longrightarrow> flag B = 1 \<longrightarrow>
     blocked s (calling_thread B) \<and> (pcs s (calling_thread B) = In_Barrier B_yield b \<or> pcs s (calling_thread B) = In_Barrier B_loop b))"

definition current_ok :: "sync_sys \<Rightarrow> bool" where
  "current_ok s \<longleftrightarrow> st s (TID s) = TS_RUNNING \<or>
     st s (TID s) = TS_BLOCKED \<and> ((\<exists>m. pcs s (TID s) = In_Lock L_yield m) \<or> (\<exists>b. pcs s (TID s) = In_Barrier B_yield b))"

definition sync_ok :: "sync_sys \<Rightarrow> bool" where
  "sync_ok s \<longleftrightarrow> tcbs_ok s \<and> \<not> masked s \<and> nodes_ok s \<and> queues_ok s \<and> barriers_ok s \<and> current_ok s"

text \<open>A step that leaves lists, mutexes and barriers alone and lets every waiting thread wait on.\<close>

lemma queues_ok_mono:
  assumes "queues_ok s" "nodes s' = nodes s" "\<And>m. map_option (\<lambda>b. (wait_list b, wait_list_tail b)) (mcbs s' m) =
      map_option (\<lambda>b. (wait_list b, wait_list_tail b)) (mcbs s m)" "\<And>m t. waits s m t \<Longrightarrow> waits s' m t"
  shows "queues_ok s'"
  unfolding queues_ok_def
proof (intro allI impI)
  fix m
  assume "mcbs s' m \<noteq> None"
  then obtain b' where b': "mcbs s' m = Some b'" by auto
  with assms(3) [of m] obtain b where b: "mcbs s m = Some b" "wait_list b' = wait_list b" "wait_list_tail b' = wait_list_tail b"
    by (cases "mcbs s m") auto
  with assms(1) obtain ps where ps: "queue_of s m ps" by (auto simp: queues_ok_def)
  have "queue_of s' m ps"
    using ps b b' assms(2,4) unfolding queue_of_def by auto
  then show "\<exists>ps. queue_of s' m ps" ..
qed

lemma sync_ok_mono:
  assumes ok: "sync_ok s" and "tcbs_ok s'" "\<not> masked s'" "nodes s' = nodes s" "fresh s' = fresh s" "current_ok s'"
    and "\<And>m. map_option (\<lambda>b. (wait_list b, wait_list_tail b)) (mcbs s' m) = map_option (\<lambda>b. (wait_list b, wait_list_tail b)) (mcbs s m)"
    and "\<And>b B'. bcbs s' b = Some B' \<Longrightarrow> flag B' = 1 \<Longrightarrow> \<exists>B. bcbs s b = Some B \<and> flag B = 1 \<and> calling_thread B' = calling_thread B"
    and w: "\<And>m t. waits s m t \<Longrightarrow> waits s' m t"
    and b: "\<And>b t. blocked s t \<Longrightarrow> pcs s t = In_Barrier B_yield b \<or> pcs s t = In_Barrier B_loop b \<Longrightarrow>
      (\<exists>B'. bcbs s' b = Some B' \<and> flag B' = 1 \<and> calling_thread B' = t) \<Longrightarrow>
      blocked s' t \<and> (pcs s' t = In_Barrier B_yield b \<or> pcs s' t = In_Barrier B_loop b)"
  shows "sync_ok s'"
proof -
  have "queues_ok s'" by (rule queues_ok_mono [OF _ assms(4,7) w]) (use ok in \<open>simp add: sync_ok_def\<close>)
  moreover have "barriers_ok s'"
    unfolding barriers_ok_def
  proof (intro allI impI)
    fix b' B'
    assume B': "bcbs s' b' = Some B'" "flag B' = 1"
    from assms(8) [OF this] obtain B where B: "bcbs s b' = Some B" "flag B = 1" "calling_thread B' = calling_thread B" by blast
    with ok have "blocked s (calling_thread B)" "pcs s (calling_thread B) = In_Barrier B_yield b' \<or> pcs s (calling_thread B) = In_Barrier B_loop b'"
      by (auto simp: sync_ok_def barriers_ok_def)
    from b [OF this] B' B show "blocked s' (calling_thread B') \<and>
      (pcs s' (calling_thread B') = In_Barrier B_yield b' \<or> pcs s' (calling_thread B') = In_Barrier B_loop b')" by auto
  qed
  ultimately show ?thesis using ok assms(2-6) by (simp add: sync_ok_def nodes_ok_def)
qed

end
