(* ===== verification/Sync_Inv.thy ===== *)
theory Sync_Inv
  imports Sync_Machine
begin

text \<open>
  Every step of the machine keeps the invariant: the threads in the wait list of a mutex are exactly
  once in it and blocked inside \<open>pthread_mutex_lock\<close> of that mutex, also when the alarm interrupts
  the library anywhere.
\<close>

section \<open>Steps that change no list\<close>

lemma sync_okD:
  assumes "sync_ok s"
  shows "tcbs_ok s" "\<not> masked s" "nodes_ok s" "queues_ok s" "barriers_ok s" "current_ok s" "TID s < MAX_THREADS"
  using assms by (auto simp: sync_ok_def tcbs_ok_def)

lemma yield_step:
  assumes ok: "sync_ok s" and run: "schedule here s = Some (buf, s1)"
    and go: "blocked s (TID s) \<Longrightarrow> (\<exists>m. pcs s (TID s) = In_Lock L_yield m \<and> f \<in> {In_Lock L_yield m, In_Lock L_busy m}) \<or>
      (\<exists>b. pcs s (TID s) = In_Barrier B_yield b \<and> f \<in> {In_Barrier B_yield b, In_Barrier B_loop b})"
  shows "sync_ok (s1\<lparr>pcs := (pcs s1)(TID s := f)\<rparr>)"
proof -
  note D = sync_okD [OF ok]
  note fr = schedule_frame [OF D(1) run] and pc = schedule_pcs [OF D(1) run]
  let ?s = "s1\<lparr>pcs := (pcs s1)(TID s := f)\<rparr>"
  have bl: "blocked ?s t = blocked s t" for t using fr(6) [of t] by (simp add: blocked_def)
  show ?thesis
  proof (rule sync_ok_mono [OF ok])
    show "tcbs_ok ?s" using fr(7) by (simp add: tcbs_ok_def)
    show "\<not> masked ?s" "nodes ?s = nodes s" "fresh ?s = fresh s" using fr D(2) by simp_all
    show "current_ok ?s" using fr(8) by (simp add: current_ok_def)
    show "map_option (\<lambda>b. (wait_list b, wait_list_tail b)) (mcbs ?s m) = map_option (\<lambda>b. (wait_list b, wait_list_tail b)) (mcbs s m)" for m
      using fr(2) by simp
    show "\<exists>B. bcbs s b = Some B \<and> flag B = 1 \<and> calling_thread B' = calling_thread B" if "bcbs ?s b = Some B'" "flag B' = 1" for b B'
      using fr(3) that by simp
    show "waits ?s m t" if "waits s m t" for m t
      using that go unfolding waits_def bl by (auto simp: pc)
    show "blocked ?s t \<and> (pcs ?s t = In_Barrier B_yield b \<or> pcs ?s t = In_Barrier B_loop b)"
      if "blocked s t" "pcs s t = In_Barrier B_yield b \<or> pcs s t = In_Barrier B_loop b" for b t
      using that go unfolding bl by (auto simp: pc)
  qed
qed

lemma quiet_step:
  assumes ok: "sync_ok s" and r: "st s (TID s) = TS_RUNNING"
    and s1: "TCB_Table s1 = TCB_Table s" "TID s1 = TID s" "\<not> masked s1" "nodes s1 = nodes s" "fresh s1 = fresh s" "pcs s1 = pcs s"
    and m: "\<And>m. map_option (\<lambda>b. (wait_list b, wait_list_tail b)) (mcbs s1 m) = map_option (\<lambda>b. (wait_list b, wait_list_tail b)) (mcbs s m)"
    and b: "\<And>b B'. bcbs s1 b = Some B' \<Longrightarrow> flag B' = 1 \<Longrightarrow> \<exists>B. bcbs s b = Some B \<and> flag B = 1 \<and> calling_thread B' = calling_thread B"
  shows "sync_ok (s1\<lparr>pcs := (pcs s1)(TID s := f)\<rparr>)"
proof -
  note D = sync_okD [OF ok]
  let ?s = "s1\<lparr>pcs := (pcs s1)(TID s := f)\<rparr>"
  have bl: "blocked ?s t = blocked s t" for t using s1(1) by (simp add: blocked_def)
  have nb: "\<not> blocked s (TID s)" using r by (simp add: blocked_def)
  show ?thesis
  proof (rule sync_ok_mono [OF ok])
    show "tcbs_ok ?s" "current_ok ?s" using D(1) r s1 by (simp_all add: tcbs_ok_def current_ok_def)
    show "\<not> masked ?s" "nodes ?s = nodes s" "fresh ?s = fresh s" using s1 by simp_all
    show "map_option (\<lambda>b. (wait_list b, wait_list_tail b)) (mcbs ?s m) = map_option (\<lambda>b. (wait_list b, wait_list_tail b)) (mcbs s m)" for m
      using m by simp
    show "\<exists>B. bcbs s b = Some B \<and> flag B = 1 \<and> calling_thread B' = calling_thread B" if "bcbs ?s b = Some B'" "flag B' = 1" for b B'
      using b that by simp
    show "waits ?s m t" if "waits s m t" for m t
      using that nb unfolding waits_def bl by (auto simp: s1(6))
    show "blocked ?s t \<and> (pcs ?s t = In_Barrier B_yield b \<or> pcs ?s t = In_Barrier B_loop b)"
      if "blocked s t" "pcs s t = In_Barrier B_yield b \<or> pcs s t = In_Barrier B_loop b" for b t
      using that nb unfolding bl by (auto simp: s1(6))
  qed
qed


section \<open>Steps that change a wait list\<close>

lemma block_step:
  assumes "tcbs_ok s"
  obtains sa where "set_status (TID s) TS_BLOCKED (lock s) = Some sa" "tcbs_ok sa" "TID sa = TID s"
    "\<And>u. u < MAX_THREADS \<Longrightarrow> st sa u = (if u = TID s then TS_BLOCKED else st s u)" "sa = (lock s)\<lparr>TCB_Table := TCB_Table sa\<rparr>"
proof -
  have l: "tcbs_ok (lock s)" "TID s < MAX_THREADS" "TCB_Table (lock s) = TCB_Table s" "TID (lock s) = TID s"
    using assms by (simp_all add: tcbs_ok_def lock_def)
  show ?thesis by (rule set_status_step [OF l(1,2), of TS_BLOCKED], rule that) (simp_all only: l)
qed

lemma lrep_cong: "(\<And>p. p \<in> set ps \<Longrightarrow> H' p = H p) \<Longrightarrow> lrep H' q ps = lrep H q ps"
proof -
  have "lpath H' p ps = lpath H p ps" if "\<And>p. p \<in> set ps \<Longrightarrow> H' p = H p" for p
    using that by (induction ps arbitrary: p) (auto split: option.splits)
  then show "(\<And>p. p \<in> set ps \<Longrightarrow> H' p = H p) \<Longrightarrow> lrep H' q ps = lrep H q ps" by (simp add: lrep_def)
qed

lemma barriers_ok_mono:
  assumes "barriers_ok s" "bcbs s' = bcbs s"
    and "\<And>t b. blocked s t \<Longrightarrow> pcs s t = In_Barrier B_yield b \<or> pcs s t = In_Barrier B_loop b \<Longrightarrow> blocked s' t \<and> pcs s' t = pcs s t"
  shows "barriers_ok s'"
  using assms unfolding barriers_ok_def by metis

lemma queue_of_unique: "queue_of s m ps \<Longrightarrow> queue_of s m qs \<Longrightarrow> ps = qs"
  by (auto simp: queue_of_def lrep_def intro: lpath_unique)

lemma queues_disjoint:
  assumes "queue_of s m ps" "queue_of s m' ps'" "p \<in> set ps" "p \<in> set ps'"
  shows "m = m'"
proof -
  have "waits s m (ltid (the (nodes s p)))" "waits s m' (ltid (the (nodes s p)))"
    using assms by (auto simp: queue_of_def threads_at_def)
  then show ?thesis by (auto simp: waits_def)
qed

lemma queue_of_other:
  assumes "queue_of s m ps" "\<And>p. p \<in> set ps \<Longrightarrow> nodes s' p = nodes s p" "mcbs s' m = mcbs s m"
    "\<And>t. t \<in> set (threads_at (nodes s) ps) \<Longrightarrow> waits s m t \<Longrightarrow> waits s' m t"
  shows "queue_of s' m ps"
proof -
  have "threads_at (nodes s') ps = threads_at (nodes s) ps" using assms(2) by (simp add: threads_at_def)
  with assms lrep_cong [OF assms(2)] show ?thesis by (simp add: queue_of_def)
qed

text \<open>The wait list of one mutex changes; the waiting threads of the others go on waiting.\<close>

lemma queues_ok_change:
  assumes ok: "queues_ok s" and q: "queue_of s' m ps" and m: "\<And>m'. m' \<noteq> m \<Longrightarrow> mcbs s' m' = mcbs s m'"
    and n: "\<And>m' ps' x. m' \<noteq> m \<Longrightarrow> queue_of s m' ps' \<Longrightarrow> x \<in> set ps' \<Longrightarrow> nodes s' x = nodes s x"
    and w: "\<And>m' u. m' \<noteq> m \<Longrightarrow> waits s m' u \<Longrightarrow> waits s' m' u"
  shows "queues_ok s'"
  unfolding queues_ok_def
proof (intro allI impI)
  fix m'
  assume m': "mcbs s' m' \<noteq> None"
  show "\<exists>ps. queue_of s' m' ps"
  proof (cases "m' = m")
    case True
    with q show ?thesis by blast
  next
    case False
    then obtain ps' where q': "queue_of s m' ps'" using m' m ok by (auto simp: queues_ok_def)
    from n [OF False q'] m [OF False] w [OF False] have "queue_of s' m' ps'" by (rule queue_of_other [OF q'])
    then show ?thesis ..
  qed
qed

lemma queue_of_nodes:
  assumes "nodes_ok s" "queue_of s m ps" "p \<in> set ps"
  shows "nodes s p \<noteq> None" "p \<noteq> fresh s"
  using assms lpath_dom by (fastforce simp: queue_of_def lrep_def nodes_ok_def)+

text \<open>What the code does when a thread blocks in \<open>pthread_mutex_lock\<close>.\<close>

lemma lock_block_effect:
  assumes ok: "sync_ok s" and run: "pthread_mutex_lock L_block m here s = Some (n, s1)"
  obtains b ps q' where "n = Goto L_yield" "queue_of s m ps" "lrep (nodes s1) q' (ps @ [fresh s])"
    "nodes s1 (fresh s) = Some \<lparr>ltid = TID s, lnext = 0\<rparr>"
    "\<And>p. p \<noteq> fresh s \<Longrightarrow> map_option ltid (nodes s1 p) = map_option ltid (nodes s p)"
    "\<And>p. p \<notin> set ps \<Longrightarrow> p \<noteq> fresh s \<Longrightarrow> nodes s1 p = nodes s p" "nodes_ok s1"
    "mcbs s1 = (mcbs s)(m \<mapsto> b\<lparr>wait_list := fst q', wait_list_tail := snd q'\<rparr>)"
    "tcbs_ok s1" "TID s1 = TID s" "bcbs s1 = bcbs s" "pcs s1 = pcs s" "\<not> masked s1"
    "\<And>u. u < MAX_THREADS \<Longrightarrow> st s1 u = (if u = TID s then TS_BLOCKED else st s u)"
proof -
  note D = sync_okD [OF ok]
  obtain sa where sa: "set_status (TID s) TS_BLOCKED (lock s) = Some sa" "tcbs_ok sa" "TID sa = TID s"
    "\<And>u. u < MAX_THREADS \<Longrightarrow> st sa u = (if u = TID s then TS_BLOCKED else st s u)" "sa = (lock s)\<lparr>TCB_Table := TCB_Table sa\<rparr>"
    by (rule block_step [OF D(1)]) (rule that)
  have sel: "nodes sa = nodes s" "fresh sa = fresh s" "mcbs sa = mcbs s" "bcbs sa = bcbs s" "pcs sa = pcs s"
    by (subst sa(5), simp add: lock_def)+
  from run sa(1) obtain b where b: "mcbs s m = Some b" by (auto simp: sel bind_eq_Some_conv)
  then obtain ps where q: "queue_of s m ps" using D(4) by (auto simp: queues_ok_def)
  then have l: "lrep (nodes sa) (wait_list b, wait_list_tail b) ps" using b sel by (simp add: queue_of_def)
  have no: "nodes_ok sa" using D(3) sel by (simp add: nodes_ok_def)
  obtain q' sb where i: "insert_tail (wait_list b, wait_list_tail b) (TID s) sa = Some (q', sb)" "lrep (nodes sb) q' (ps @ [fresh s])"
    "nodes sb (fresh s) = Some \<lparr>ltid = TID s, lnext = 0\<rparr>" "\<And>p. p \<noteq> fresh s \<Longrightarrow> map_option ltid (nodes sb p) = map_option ltid (nodes s p)"
    "\<And>p. p \<notin> set ps \<Longrightarrow> p \<noteq> fresh s \<Longrightarrow> nodes sb p = nodes s p" "nodes_ok sb" "sb = sa\<lparr>fresh := fresh s + 1, nodes := nodes sb\<rparr>"
    using insert_tail_step [OF no l, of "TID s"] unfolding sel by metis
  have selb: "TCB_Table sb = TCB_Table sa" "TID sb = TID s" "mcbs sb = mcbs s" "bcbs sb = bcbs s" "pcs sb = pcs s"
    by (subst i(7), simp add: sel sa(3))+
  have s1: "s1 = unlock (sb\<lparr>mcbs := (mcbs sb)(m \<mapsto> b\<lparr>wait_list := fst q', wait_list_tail := snd q'\<rparr>)\<rparr>)" "n = Goto L_yield"
    using run sa(1,3) b i(1) by (cases q', simp add: sel)+
  show ?thesis
    by (rule that [of ps q' b]) (use s1 q i sa(2-4) selb in \<open>simp_all add: unlock_def nodes_ok_def tcbs_ok_def\<close>)
qed

lemma lock_block_step:
  assumes ok: "sync_ok s" and r: "st s (TID s) = TS_RUNNING" and run: "pthread_mutex_lock L_block m here s = Some (n, s1)"
  defines "s' \<equiv> s1\<lparr>pcs := (pcs s1)(TID s := In_Lock L_yield m)\<rparr>"
  shows "n = Goto L_yield" "sync_ok s'" "\<And>ps. queue_of s m ps \<Longrightarrow> queue_of s' m (ps @ [fresh s])"
    "nodes s1 (fresh s) = Some \<lparr>ltid = TID s, lnext = 0\<rparr>"
proof -
  note D = sync_okD [OF ok]
  obtain b ps q' where E: "n = Goto L_yield" "queue_of s m ps" "lrep (nodes s1) q' (ps @ [fresh s])"
    "nodes s1 (fresh s) = Some \<lparr>ltid = TID s, lnext = 0\<rparr>"
    "\<And>p. p \<noteq> fresh s \<Longrightarrow> map_option ltid (nodes s1 p) = map_option ltid (nodes s p)"
    "\<And>p. p \<notin> set ps \<Longrightarrow> p \<noteq> fresh s \<Longrightarrow> nodes s1 p = nodes s p" "nodes_ok s1"
    "mcbs s1 = (mcbs s)(m \<mapsto> b\<lparr>wait_list := fst q', wait_list_tail := snd q'\<rparr>)"
    "tcbs_ok s1" "TID s1 = TID s" "bcbs s1 = bcbs s" "pcs s1 = pcs s" "\<not> masked s1"
    "\<And>u. u < MAX_THREADS \<Longrightarrow> st s1 u = (if u = TID s then TS_BLOCKED else st s u)"
    by (rule lock_block_effect [OF ok run]) (rule that)
  show "n = Goto L_yield" "nodes s1 (fresh s) = Some \<lparr>ltid = TID s, lnext = 0\<rparr>" by (rule E)+
  have sel: "TCB_Table s' = TCB_Table s1" "TID s' = TID s" "nodes s' = nodes s1" "fresh s' = fresh s1" "bcbs s' = bcbs s" "\<not> masked s'"
    "mcbs s' = mcbs s1" "pcs s' = (pcs s)(TID s := In_Lock L_yield m)"
    using E by (simp_all add: s'_def)
  have nb: "\<not> blocked s (TID s)" using r by (simp add: blocked_def)
  have b': "blocked s' t \<and> pcs s' t = pcs s t" if "blocked s t" for t using that nb E(14) by (auto simp: blocked_def sel)
  then have w: "waits s' m' t" if "waits s m' t" for m' t using that by (auto simp: waits_def)
  have wT: "waits s' m (TID s)" using D(7) E(14) by (simp add: waits_def blocked_def sel)
  have "threads_at (nodes s1) ps = threads_at (nodes s) ps"
    by (rule threads_at_cong) (use E(5) queue_of_nodes [OF D(3) E(2)] in auto)
  then have ta: "threads_at (nodes s') (ps @ [fresh s]) = threads_at (nodes s) ps @ [TID s]"
    using E(4) unfolding sel threads_at_def map_append by simp
  have "TID s \<notin> set (threads_at (nodes s) ps)" using E(2) nb by (auto simp: queue_of_def waits_def)
  then have q: "queue_of s' m (ps @ [fresh s])" using E(2,3,8) w wT unfolding queue_of_def ta by (auto simp: sel)
  then show "queue_of s' m (ps'' @ [fresh s])" if "queue_of s m ps''" for ps''
    using queue_of_unique [OF that E(2)] by simp
  have "nodes s' x = nodes s x" if "m' \<noteq> m" "queue_of s m' ps'" "x \<in> set ps'" for m' ps' x
    unfolding sel using E(6) queue_of_nodes(2) [OF D(3) that(2,3)] queues_disjoint [OF E(2) that(2)] that by blast
  then have "queues_ok s'" using w by (intro queues_ok_change [OF D(4) q]) (auto simp: sel E(8))
  moreover have "barriers_ok s'" by (rule barriers_ok_mono [OF D(5)]) (use b' in \<open>auto simp: sel\<close>)
  moreover have "tcbs_ok s'" "current_ok s'" "nodes_ok s'"
    using E(7,9,10) D(7) E(14) by (simp_all add: tcbs_ok_def current_ok_def nodes_ok_def sel)
  ultimately show "sync_ok s'" using sel by (simp add: sync_ok_def)
qed

text \<open>What the code does when \<open>pthread_mutex_unlock\<close> wakes a thread.\<close>

lemma unlock_wake_effect:
  assumes ok: "sync_ok s" and run: "pthread_mutex_unlock U_wake m here s = Some (n, s1)"
  obtains p ps b q' where "queue_of s m (p # ps)" "n = Goto U_yield" "lrep (nodes s1) q' ps" "nodes s1 = (nodes s)(p := None)" "nodes_ok s1"
    "mcbs s1 = (mcbs s)(m \<mapsto> b\<lparr>mstate := UNLOCKED, wait_list := fst q', wait_list_tail := snd q'\<rparr>)"
    "tcbs_ok s1" "TID s1 = TID s" "bcbs s1 = bcbs s" "pcs s1 = pcs s" "\<not> masked s1"
    "\<And>u. u < MAX_THREADS \<Longrightarrow> st s1 u = (if u = ltid (the (nodes s p)) then TS_READY else st s u)"
proof -
  note D = sync_okD [OF ok]
  from run obtain b where b: "mcbs s m = Some b" by (auto simp: Let_def lock_def bind_eq_Some_conv)
  then obtain qs where q0: "queue_of s m qs" using D(4) by (auto simp: queues_ok_def)
  have z: "nodes s (wait_list b) \<noteq> None" using run b by (cases "nodes s (wait_list b)") (auto simp: Let_def lock_def get_head_def)
  have "qs \<noteq> []" using z D(3) q0 b by (auto simp: queue_of_def lrep_def nodes_ok_def)
  then obtain p ps where q: "queue_of s m (p # ps)" using q0 by (cases qs) auto
  define t where "t = ltid (the (nodes s p))"
  have t: "t < MAX_THREADS" using q by (auto simp: queue_of_def threads_at_def t_def waits_def blocked_def)
  have l: "lrep (nodes (lock s)) (wait_list b, wait_list_tail b) (p # ps)" and no: "nodes_ok (lock s)"
    using q b D(3) by (simp_all add: queue_of_def lock_def nodes_ok_def)
  obtain q' sa where g: "get_head (wait_list b, wait_list_tail b) (lock s) = Some (t, q', sa)" "lrep (nodes sa) q' ps"
    "sa = (lock s)\<lparr>nodes := (nodes s)(p := None)\<rparr>" "nodes_ok sa"
    by (rule get_head_step [OF no l]) (simp add: t_def lock_def)
  define sb where "sb = sa\<lparr>mcbs := (mcbs sa)(m \<mapsto> b\<lparr>mstate := UNLOCKED, wait_list := fst q', wait_list_tail := snd q'\<rparr>)\<rparr>"
  have selb: "TCB_Table sb = TCB_Table s" "TID sb = TID s" "nodes sb = (nodes s)(p := None)" "fresh sb = fresh s" "bcbs sb = bcbs s"
    "mcbs sb = (mcbs s)(m \<mapsto> b\<lparr>mstate := UNLOCKED, wait_list := fst q', wait_list_tail := snd q'\<rparr>)" "pcs sb = pcs s"
    by (simp_all add: sb_def g(3) lock_def)
  have "tcbs_ok sb" using D(1) by (simp add: tcbs_ok_def selb)
  then obtain sc where sc: "set_status t TS_READY sb = Some sc" "tcbs_ok sc" "TID sc = TID sb"
    "\<And>u. u < MAX_THREADS \<Longrightarrow> st sc u = (if u = t then TS_READY else st sb u)" "sc = sb\<lparr>TCB_Table := TCB_Table sc\<rparr>"
    by (rule set_status_step [OF _ t]) (rule that)
  have s1: "s1 = unlock sc" "n = Goto U_yield"
    using run b g(1) sc(1) by (cases q', simp add: Let_def lock_def sb_def)+
  have selc: "nodes sc = nodes sb" "fresh sc = fresh sb" "mcbs sc = mcbs sb" "bcbs sc = bcbs sb" "pcs sc = pcs sb"
    by (subst sc(5), simp)+
  have no1: "nodes_ok s1" "lrep (nodes s1) q' ps" using g(2,4) by (simp_all add: s1 unlock_def nodes_ok_def selc selb g(3) lock_def)
  show ?thesis
    by (rule that [of p ps q' b]) (use s1 q no1 sc(2-4) in \<open>simp_all add: unlock_def selc selb tcbs_ok_def t_def\<close>)
qed

lemma unlock_wake_step:
  assumes ok: "sync_ok s" and r: "st s (TID s) = TS_RUNNING" and run: "pthread_mutex_unlock U_wake m here s = Some (n, s1)"
  obtains p ps where "queue_of s m (p # ps)" "n = Goto U_yield"
    "queue_of (s1\<lparr>pcs := (pcs s1)(TID s := In_Unlock U_yield m)\<rparr>) m ps" "threads_at (nodes s1) ps = threads_at (nodes s) ps"
    "st s1 (ltid (the (nodes s p))) = TS_READY" "map_option mstate (mcbs s1 m) = Some UNLOCKED"
    "sync_ok (s1\<lparr>pcs := (pcs s1)(TID s := In_Unlock U_yield m)\<rparr>)" "pcs s1 = pcs s" "TID s1 = TID s"
proof -
  note D = sync_okD [OF ok]
  obtain p ps b q' where E: "queue_of s m (p # ps)" "n = Goto U_yield" "lrep (nodes s1) q' ps" "nodes s1 = (nodes s)(p := None)" "nodes_ok s1"
    "mcbs s1 = (mcbs s)(m \<mapsto> b\<lparr>mstate := UNLOCKED, wait_list := fst q', wait_list_tail := snd q'\<rparr>)"
    "tcbs_ok s1" "TID s1 = TID s" "bcbs s1 = bcbs s" "pcs s1 = pcs s" "\<not> masked s1"
    "\<And>u. u < MAX_THREADS \<Longrightarrow> st s1 u = (if u = ltid (the (nodes s p)) then TS_READY else st s u)"
    by (rule unlock_wake_effect [OF ok run]) (rule that)
  define t where "t = ltid (the (nodes s p))"
  have tw: "waits s m t" using E(1) by (auto simp: queue_of_def threads_at_def t_def)
  then have t: "t < MAX_THREADS" "t \<noteq> TID s" using r by (auto simp: waits_def blocked_def)
  define s' where "s' = s1\<lparr>pcs := (pcs s1)(TID s := In_Unlock U_yield m)\<rparr>"
  have sel: "TCB_Table s' = TCB_Table s1" "TID s' = TID s" "nodes s' = (nodes s)(p := None)" "fresh s' = fresh s1" "bcbs s' = bcbs s" "\<not> masked s'"
    "mcbs s' = mcbs s1" "pcs s' = (pcs s)(TID s := In_Unlock U_yield m)"
    using E by (simp_all add: s'_def)
  have nb: "\<not> blocked s (TID s)" using r by (simp add: blocked_def)
  have b': "blocked s' u \<and> pcs s' u = pcs s u" if "blocked s u" "u \<noteq> t" for u
    using that nb E(12) by (auto simp: blocked_def sel t_def)
  then have w: "waits s' m' u" if "waits s m' u" "u \<noteq> t" for m' u using that by (auto simp: waits_def)
  have pn: "p \<notin> set ps" using E(1) by (auto simp: queue_of_def lrep_def)
  then have ta: "threads_at (nodes s') ps = threads_at (nodes s) ps" unfolding sel threads_at_def by auto
  have "t \<notin> set (threads_at (nodes s) ps)" "distinct (threads_at (nodes s) ps)" "\<forall>u\<in>set (threads_at (nodes s) ps). waits s m u"
    using E(1) by (auto simp: queue_of_def threads_at_def t_def)
  then have q: "queue_of s' m ps" using w E(3,4,6) unfolding queue_of_def ta by (auto simp: sel)
  have "nodes s' x = nodes s x" if "m' \<noteq> m" "queue_of s m' ps'" "x \<in> set ps'" for m' ps' x
    using queues_disjoint [OF E(1) that(2), of p] that by (auto simp: sel)
  moreover have "waits s' m' u" if "m' \<noteq> m" "waits s m' u" for m' u
    by (rule w [OF that(2)]) (use that tw in \<open>auto simp: waits_def\<close>)
  ultimately have "queues_ok s'" by (intro queues_ok_change [OF D(4) q]) (auto simp: sel E(6))
  moreover have "u \<noteq> t" if "pcs s u = In_Barrier B_yield b' \<or> pcs s u = In_Barrier B_loop b'" for u b' using that tw by (auto simp: waits_def)
  then have "barriers_ok s'" using b' by (intro barriers_ok_mono [OF D(5) sel(5)]) blast
  moreover have "tcbs_ok s'" "current_ok s'" "nodes_ok s'"
    using E(4,5,7,8) D(7) E(12) t r by (simp_all add: tcbs_ok_def current_ok_def nodes_ok_def sel t_def)
  ultimately have ok': "sync_ok s'" using sel by (simp add: sync_ok_def)
  have "st s1 t = TS_READY" "map_option mstate (mcbs s1 m) = Some UNLOCKED" using E(6,12) t(1) by (simp_all add: t_def)
  with q ok' ta E(1,2,4,8,10) show ?thesis by (intro that [of p ps]) (simp_all add: s'_def t_def)
qed


section \<open>Steps that block or wake a thread at a barrier\<close>

lemma barrier_block_step:
  assumes ok: "sync_ok s" and r: "st s (TID s) = TS_RUNNING" and run: "pthread_barrier_wait B_block b here s = Some (n, s1)"
  shows "n = Goto B_yield" "sync_ok (s1\<lparr>pcs := (pcs s1)(TID s := In_Barrier B_yield b)\<rparr>)"
proof -
  note D = sync_okD [OF ok]
  obtain sa where sa: "set_status (TID s) TS_BLOCKED (lock s) = Some sa" "tcbs_ok sa" "TID sa = TID s"
    "\<And>u. u < MAX_THREADS \<Longrightarrow> st sa u = (if u = TID s then TS_BLOCKED else st s u)" "sa = (lock s)\<lparr>TCB_Table := TCB_Table sa\<rparr>"
    by (rule block_step [OF D(1)]) (rule that)
  have sel: "nodes sa = nodes s" "fresh sa = fresh s" "mcbs sa = mcbs s" "bcbs sa = bcbs s" "pcs sa = pcs s"
    by (subst sa(5), simp add: lock_def)+
  from run sa(1) obtain B where B: "bcbs s b = Some B" by (auto simp: sel bind_eq_Some_conv)
  have s1: "s1 = unlock (sa\<lparr>bcbs := (bcbs s)(b \<mapsto> B\<lparr>calling_thread := TID s, flag := 1\<rparr>)\<rparr>)" "n = Goto B_yield"
    using run sa(1,3) B by (simp_all add: sel)
  show "n = Goto B_yield" by (rule s1)
  define s' where "s' = s1\<lparr>pcs := (pcs s1)(TID s := In_Barrier B_yield b)\<rparr>"
  have sel': "TCB_Table s' = TCB_Table sa" "TID s' = TID s" "nodes s' = nodes s" "fresh s' = fresh s" "mcbs s' = mcbs s" "\<not> masked s'"
    "bcbs s' = (bcbs s)(b \<mapsto> B\<lparr>calling_thread := TID s, flag := 1\<rparr>)" "pcs s' = (pcs s)(TID s := In_Barrier B_yield b)"
    by (simp_all add: s'_def s1 unlock_def sel sa(3))
  have nb: "\<not> blocked s (TID s)" using r by (simp add: blocked_def)
  have st': "st s' u = (if u = TID s then TS_BLOCKED else st s u)" if "u < MAX_THREADS" for u
    unfolding sel' using sa(4) [OF that] .
  have w: "blocked s' t \<and> pcs s' t = pcs s t" if "blocked s t" for t using that nb st' by (auto simp: blocked_def sel')
  have "queues_ok s'" by (rule queues_ok_mono [OF D(4) sel'(3)]) (use w in \<open>auto simp: sel' waits_def\<close>)
  moreover have "blocked s' (TID s)" "pcs s' (TID s) = In_Barrier B_yield b" using D(7) st' by (simp_all add: blocked_def sel')
  then have "barriers_ok s'" using D(5) w unfolding barriers_ok_def sel'(7) by (auto split: if_splits)
  moreover have "tcbs_ok s'" "current_ok s'" using sa(2) D(7) st' by (simp_all add: tcbs_ok_def current_ok_def sel' sa(3))
  moreover have "nodes_ok s'" using D(3) by (simp add: nodes_ok_def sel')
  ultimately show "sync_ok (s1\<lparr>pcs := (pcs s1)(TID s := In_Barrier B_yield b)\<rparr>)"
    unfolding s'_def [symmetric] using sel' by (simp add: sync_ok_def)
qed

lemma barrier_release_step:
  assumes ok: "sync_ok s" and r: "st s (TID s) = TS_RUNNING" and run: "pthread_barrier_wait B_release b here s = Some (n, s1)"
  shows "n = Goto B_yield2" "sync_ok (s1\<lparr>pcs := (pcs s1)(TID s := In_Barrier B_yield2 b)\<rparr>)"
proof -
  note D = sync_okD [OF ok]
  from run obtain B where B: "bcbs s b = Some B" by (auto simp: Let_def lock_def bind_eq_Some_conv)
  show "n = Goto B_yield2" using run by (auto simp: Let_def bind_eq_Some_conv)
  show "sync_ok (s1\<lparr>pcs := (pcs s1)(TID s := In_Barrier B_yield2 b)\<rparr>)"
  proof (cases "flag B = 1")
    case False
    then have "s1 = unlock (lock s)" using run B by (simp add: Let_def lock_def)
    then show ?thesis by (intro quiet_step [OF ok r]) (simp_all add: lock_def unlock_def)
  next
    case True
    define t where "t = calling_thread B"
    have t: "blocked s t" "pcs s t = In_Barrier B_yield b \<or> pcs s t = In_Barrier B_loop b"
      using D(5) B True by (auto simp: barriers_ok_def t_def)
    then have t': "t < MAX_THREADS" "t \<noteq> TID s" using r by (auto simp: blocked_def)
    define sa where "sa = (lock s)\<lparr>bcbs := (bcbs s)(b \<mapsto> B\<lparr>flag := 0\<rparr>)\<rparr>"
    have sela: "TCB_Table sa = TCB_Table s" "TID sa = TID s" "nodes sa = nodes s" "fresh sa = fresh s" "mcbs sa = mcbs s"
      "bcbs sa = (bcbs s)(b \<mapsto> B\<lparr>flag := 0\<rparr>)" "pcs sa = pcs s"
      by (simp_all add: sa_def lock_def)
    have "tcbs_ok sa" using D(1) by (simp add: tcbs_ok_def sela)
    then obtain sc where sc: "set_status t TS_READY sa = Some sc" "tcbs_ok sc" "TID sc = TID sa"
      "\<And>u. u < MAX_THREADS \<Longrightarrow> st sc u = (if u = t then TS_READY else st sa u)" "sc = sa\<lparr>TCB_Table := TCB_Table sc\<rparr>"
      by (rule set_status_step [OF _ t'(1)]) (rule that)
    have s1: "s1 = unlock sc" using run B True sc(1) by (simp add: Let_def lock_def t_def sa_def)
    have selc: "nodes sc = nodes sa" "fresh sc = fresh sa" "mcbs sc = mcbs sa" "bcbs sc = bcbs sa" "pcs sc = pcs sa"
      by (subst sc(5), simp)+
    define s' where "s' = s1\<lparr>pcs := (pcs s1)(TID s := In_Barrier B_yield2 b)\<rparr>"
    have sel': "TCB_Table s' = TCB_Table sc" "TID s' = TID s" "nodes s' = nodes s" "fresh s' = fresh s" "mcbs s' = mcbs s" "\<not> masked s'"
      "bcbs s' = (bcbs s)(b \<mapsto> B\<lparr>flag := 0\<rparr>)" "pcs s' = (pcs s)(TID s := In_Barrier B_yield2 b)"
      by (simp_all add: s'_def s1 unlock_def selc sela sc(3))
    have nb: "\<not> blocked s (TID s)" using r by (simp add: blocked_def)
    have st': "st s' u = (if u = t then TS_READY else st s u)" if "u < MAX_THREADS" for u
      unfolding sel' using sc(4) [OF that] by (simp add: sela)
    have w: "blocked s' u \<and> pcs s' u = pcs s u" if "blocked s u" "u \<noteq> t" for u using that nb st' by (auto simp: blocked_def sel')
    have "waits s' m u" if "waits s m u" for m u
    proof -
      have "u \<noteq> t" "blocked s u" using that t(2) by (auto simp: waits_def)
      with that w [of u] show ?thesis by (auto simp: waits_def)
    qed
    then have "queues_ok s'" by (intro queues_ok_mono [OF D(4) sel'(3)]) (simp_all add: sel')
    moreover have "barriers_ok s'"
      unfolding barriers_ok_def
    proof (intro allI impI)
      fix b' B'
      assume B': "bcbs s' b' = Some B'" "flag B' = 1"
      then have ne: "b' \<noteq> b" "bcbs s b' = Some B'" by (auto simp: sel' split: if_splits)
      with B'(2) D(5) have x: "blocked s (calling_thread B')" "pcs s (calling_thread B') = In_Barrier B_yield b' \<or> pcs s (calling_thread B') = In_Barrier B_loop b'"
        by (auto simp: barriers_ok_def)
      with t ne(1) have "calling_thread B' \<noteq> t" by auto
      with x w [OF x(1)] show "blocked s' (calling_thread B') \<and>
        (pcs s' (calling_thread B') = In_Barrier B_yield b' \<or> pcs s' (calling_thread B') = In_Barrier B_loop b')" by simp
    qed
    moreover have "tcbs_ok s'" "current_ok s'" using sc(2) D(7) st' t'(2) r by (simp_all add: tcbs_ok_def current_ok_def sel' sc(3) sela)
    moreover have "nodes_ok s'" using D(3) by (simp add: nodes_ok_def sel')
    ultimately show ?thesis unfolding s'_def [symmetric] using sel' by (simp add: sync_ok_def)
  qed
qed


section \<open>Every step\<close>

lemma running_unless:
  assumes "sync_ok s" "\<And>m. pcs s (TID s) \<noteq> In_Lock L_yield m" "\<And>b. pcs s (TID s) \<noteq> In_Barrier B_yield b"
  shows "st s (TID s) = TS_RUNNING"
  using assms by (auto simp: sync_ok_def current_ok_def)

lemma lock_segment_ok:
  assumes ok: "sync_ok s" and pc: "pcs s (TID s) = In_Lock p m" and run: "pthread_mutex_lock p m here s = Some (n, s1)"
  shows "sync_ok (s1\<lparr>pcs := (pcs s1)(TID s := resume (\<lambda>p. In_Lock p m) n)\<rparr>)"
proof (cases p)
  case L_yield
  then obtain buf where "schedule here s = Some (buf, s1)" "n = Goto L_busy" using run by (auto simp: bind_eq_Some_conv)
  then show ?thesis using yield_step [OF ok, of here buf s1 "In_Lock L_busy m"] pc L_yield by simp
next
  case L_block
  then have r: "st s (TID s) = TS_RUNNING" using running_unless [OF ok] pc by simp
  from lock_block_step(1,2) [OF ok r run [unfolded L_block]] show ?thesis by simp
next
  case L_test
  then have r: "st s (TID s) = TS_RUNNING" using running_unless [OF ok] pc by simp
  from run L_test have "s1 = s" by (auto simp: bind_eq_Some_conv)
  then show ?thesis using sync_okD(2) [OF ok] by (intro quiet_step [OF ok r]) simp_all
next
  case L_take
  then have r: "st s (TID s) = TS_RUNNING" using running_unless [OF ok] pc by simp
  from run L_take obtain b where "mcbs s m = Some b" "s1 = unlock ((lock s)\<lparr>mcbs := (mcbs s)(m \<mapsto> b\<lparr>mstate := LOCKED\<rparr>)\<rparr>)"
    by (auto simp: bind_eq_Some_conv Let_def lock_def)
  then show ?thesis by (intro quiet_step [OF ok r]) (simp_all add: lock_def unlock_def)
next
  case L_busy
  then have r: "st s (TID s) = TS_RUNNING" using running_unless [OF ok] pc by simp
  from run L_busy have "s1 = s" by simp
  then show ?thesis using sync_okD(2) [OF ok] by (intro quiet_step [OF ok r]) simp_all
qed

lemma unlock_segment_ok:
  assumes ok: "sync_ok s" and pc: "pcs s (TID s) = In_Unlock p m" and run: "pthread_mutex_unlock p m here s = Some (n, s1)"
  shows "sync_ok (s1\<lparr>pcs := (pcs s1)(TID s := resume (\<lambda>p. In_Unlock p m) n)\<rparr>)"
proof -
  have r: "st s (TID s) = TS_RUNNING" using running_unless [OF ok] pc by simp
  show ?thesis
  proof (cases p)
    case U_yield
    then obtain buf where "schedule here s = Some (buf, s1)" "n = Goto U_done" using run by (auto simp: bind_eq_Some_conv)
    then show ?thesis using yield_step [OF ok, of here buf s1 "In_Unlock U_done m"] r by (simp add: blocked_def)
  next
    case U_wake
    from unlock_wake_step [OF ok r run [unfolded U_wake]] show ?thesis by (metis resume.simps(1))
  next
    case U_test
    from run U_test have "s1 = s" by (auto simp: bind_eq_Some_conv)
    then show ?thesis using sync_okD(2) [OF ok] by (intro quiet_step [OF ok r]) simp_all
  next
    case U_free
    from run U_free obtain b where "mcbs s m = Some b" "s1 = unlock ((lock s)\<lparr>mcbs := (mcbs s)(m \<mapsto> b\<lparr>mstate := UNLOCKED\<rparr>)\<rparr>)"
      by (auto simp: bind_eq_Some_conv Let_def lock_def)
    then show ?thesis by (intro quiet_step [OF ok r]) (simp_all add: lock_def unlock_def)
  next
    case U_done
    from run U_done have "s1 = s" by simp
    then show ?thesis using sync_okD(2) [OF ok] by (intro quiet_step [OF ok r]) simp_all
  qed
qed

lemma barrier_segment_ok:
  assumes ok: "sync_ok s" and pc: "pcs s (TID s) = In_Barrier p b" and run: "pthread_barrier_wait p b here s = Some (n, s1)"
  shows "sync_ok (s1\<lparr>pcs := (pcs s1)(TID s := resume (\<lambda>p. In_Barrier p b) n)\<rparr>)"
proof (cases "p = B_yield")
  case True
  then obtain buf where "schedule here s = Some (buf, s1)" "n = Goto B_loop" using run by (auto simp: bind_eq_Some_conv)
  then show ?thesis using yield_step [OF ok, of here buf s1 "In_Barrier B_loop b"] pc True by simp
next
  case False
  then have r: "st s (TID s) = TS_RUNNING" using running_unless [OF ok] pc by simp
  have same: ?thesis if "s1 = s" using that sync_okD(2) [OF ok] by (intro quiet_step [OF ok r]) simp_all
  have sched: ?thesis if "schedule here s = Some (buf, s1)" for buf
    by (rule yield_step [OF ok that]) (use r in \<open>simp add: blocked_def\<close>)
  show ?thesis
  proof (cases p)
    case B_block
    from barrier_block_step [OF ok r run [unfolded B_block]] show ?thesis by simp
  next
    case B_release
    from barrier_release_step [OF ok r run [unfolded B_release]] show ?thesis by simp
  next
    case B_enter
    from run B_enter obtain B where "bcbs s b = Some B" "s1 = s\<lparr>bcbs := (bcbs s)(b \<mapsto> B\<lparr>left := left B - 1\<rparr>)\<rparr>"
      by (auto simp: bind_eq_Some_conv)
    then show ?thesis using sync_okD(2) [OF ok] by (intro quiet_step [OF ok r]) (auto split: if_splits)
  next
    case B_last
    from run B_last obtain B where "bcbs s b = Some B" "s1 = s \<or> s1 = s\<lparr>bcbs := (bcbs s)(b \<mapsto> B\<lparr>left := count B\<rparr>)\<rparr>"
      by (auto simp: bind_eq_Some_conv split: if_splits)
    then consider "s1 = s" | "bcbs s b = Some B" "s1 = s\<lparr>bcbs := (bcbs s)(b \<mapsto> B\<lparr>left := count B\<rparr>)\<rparr>" by blast
    then show ?thesis
    proof cases
      case 2
      then show ?thesis using sync_okD(2) [OF ok] by (intro quiet_step [OF ok r]) (auto split: if_splits)
    qed (rule same)
  next
    case B_flag
    then show ?thesis using run by (intro same) (auto simp: bind_eq_Some_conv)
  next
    case B_loop
    then show ?thesis using run by (intro same) (auto simp: bind_eq_Some_conv)
  next
    case B_spin
    then obtain buf where "schedule here s = Some (buf, s1)" using run by (auto simp: bind_eq_Some_conv)
    then show ?thesis by (rule sched)
  next
    case B_yield2
    then obtain buf where "schedule here s = Some (buf, s1)" using run by (auto simp: bind_eq_Some_conv)
    then show ?thesis by (rule sched)
  qed (use False in simp)
qed

lemma sync_step_ok:
  assumes ok: "sync_ok s" and step: "sync_step s e s'"
  shows "sync_ok s'"
  using step
proof cases
  case (run_segment here f s1)
  show ?thesis
  proof (cases "pcs s (TID s)")
    case (Done r)
    then show ?thesis using run_segment by (simp add: segment_def)
  next
    case (In_Lock p m)
    then show ?thesis using run_segment lock_segment_ok [OF ok In_Lock] by (auto simp: segment_def)
  next
    case (In_Unlock p m)
    then show ?thesis using run_segment unlock_segment_ok [OF ok In_Unlock] by (auto simp: segment_def)
  next
    case (In_Barrier p b)
    then show ?thesis using run_segment barrier_segment_ok [OF ok In_Barrier] by (auto simp: segment_def)
  qed
next
  case (make_call r f)
  then show ?thesis using sync_okD(2) [OF ok] by (simp, intro quiet_step [OF ok]) simp_all
next
  case (take_alarm here buf)
  from sync_okD(6) [OF ok] have "sync_ok (s'\<lparr>pcs := (pcs s')(TID s := pcs s (TID s))\<rparr>)"
    by (intro yield_step [OF ok take_alarm(4)]) (auto simp: current_ok_def blocked_def)
  moreover have "s'\<lparr>pcs := (pcs s')(TID s := pcs s (TID s))\<rparr> = s'"
    using schedule_pcs [OF sync_okD(1) [OF ok] take_alarm(4)] by (cases s') (simp add: fun_upd_idem)
  ultimately show ?thesis by simp
qed

lemma sync_trace_ok: "sync_trace s0 es s \<Longrightarrow> sync_ok s0 \<Longrightarrow> sync_ok s"
  by (induction rule: sync_trace.induct) (auto intro: sync_step_ok)

end
