(* ===== verification/Sync_Two.thy ===== *)
theory Sync_Two
  imports Sync_Inv
begin

text \<open>
  Two threads that use a mutex and a barrier: the steps from which the concrete runs of the
  following theories are put together.
\<close>

section \<open>The system of the examples\<close>

text \<open>The system of the examples: threads 0 and 1, a mutex at address 1 and a barrier for two threads
  at address 2.\<close>

definition demo_sys :: sync_sys where
  "demo_sys = \<lparr>TCB_Table = map (\<lambda>i. \<lparr>tid = i, stack = 0, regs = replicate 8 0,
       status = (if i = 0 then TS_RUNNING else if i = 1 then TS_READY else TS_EMPTY)\<rparr>) [0..<MAX_THREADS],
     TID = 0, is_first_call = False, alarm = True, memory = Map.empty, nodes = Map.empty,
     mcbs = [1 \<mapsto> \<lparr>mstate = UNLOCKED, wait_list = 0, wait_list_tail = 0\<rparr>],
     bcbs = [2 \<mapsto> \<lparr>init = 1, flag = 0, calling_thread = 2 ^ 64 - 1, count = 2, left = 2\<rparr>],
     fresh = 3, masked = False, pcs = \<lambda>_. Done 7\<rparr>"

text \<open>Thread \<open>t\<close> runs, thread \<open>u\<close> is ready, no other thread can run.\<close>

definition pair :: "'a threads_scheme \<Rightarrow> nat \<Rightarrow> nat \<Rightarrow> bool" where
  "pair s t u \<longleftrightarrow> tcbs_ok s \<and> TID s = t \<and> t \<noteq> u \<and> u < MAX_THREADS \<and> st s t = TS_RUNNING \<and> st s u = TS_READY \<and>
     (\<forall>i<MAX_THREADS. i \<noteq> t \<longrightarrow> i \<noteq> u \<longrightarrow> st s i \<notin> {TS_READY, TS_RUNNING})"

lemma demo_pair: "pair demo_sys 0 1"
  by (auto simp: pair_def demo_sys_def tcbs_ok_def MAX_THREADS_def)

lemma demo_sel:
  "nodes demo_sys = Map.empty" "mcbs demo_sys = [1 \<mapsto> \<lparr>mstate = UNLOCKED, wait_list = 0, wait_list_tail = 0\<rparr>]"
  "bcbs demo_sys = [2 \<mapsto> \<lparr>init = 1, flag = 0, calling_thread = 2 ^ 64 - 1, count = 2, left = 2\<rparr>]"
  "fresh demo_sys = 3" "\<not> masked demo_sys" "alarm demo_sys" "pcs demo_sys t = Done 7" "TID demo_sys = 0"
  by (simp_all add: demo_sys_def)

lemma demo_ok: "sync_ok demo_sys"
proof -
  have "queue_of demo_sys 1 []" by (simp add: queue_of_def demo_sel lrep_def threads_at_def)
  then have "queues_ok demo_sys" by (auto simp: queues_ok_def demo_sel split: if_splits)
  moreover have "barriers_ok demo_sys" by (auto simp: barriers_ok_def demo_sel split: if_splits)
  moreover have "tcbs_ok demo_sys" "current_ok demo_sys" using demo_pair by (auto simp: pair_def current_ok_def)
  ultimately show ?thesis by (simp add: sync_ok_def demo_sel nodes_ok_def)
qed

lemma pair_switch:
  assumes p: "pair s t u"
  obtains buf s' where "schedule here s = Some (buf, s')" "pair s' u t"
proof -
  have w: "tcbs_ok s" "TID s = t" "t \<noteq> u" "u < MAX_THREADS" "st s t = TS_RUNNING" "st s u = TS_READY" "t < MAX_THREADS"
    "\<And>i. i < MAX_THREADS \<Longrightarrow> i \<noteq> t \<Longrightarrow> i \<noteq> u \<Longrightarrow> st s i \<notin> {TS_READY, TS_RUNNING}"
    using p by (auto simp: pair_def tcbs_ok_def)
  have yu: "yielded s u = TS_READY" and yt: "yielded s t = TS_READY" using w by (simp_all add: yielded_def)
  then have "schedule here s \<noteq> None" using schedule_defined [OF w(1)] w(4) by blast
  then obtain buf s' where r: "schedule here s = Some (buf, s')" by auto
  note sch = schedule_step [OF w(1) r]
  have T': "TID s' < MAX_THREADS" using sch(1) by (simp add: tcbs_ok_def)
  have "TID s' = t \<or> TID s' = u" using sch(2) w(8) [OF T'] w(2,5) by (auto simp: yielded_def split: if_splits)
  moreover have "TID s' \<noteq> t"
  proof
    assume "TID s' = t"
    with sch(3) [OF w(4) yu] have "dist t t \<le> dist t u" by (simp add: w(2))
    then show False using w(3,4,7) by (simp add: dist_if split: if_splits)
  qed
  ultimately have "TID s' = u" by blast
  moreover have "st s' i \<notin> {TS_READY, TS_RUNNING}" if "i < MAX_THREADS" "i \<noteq> t" "i \<noteq> u" for i
    using sch(4) [OF that(1)] w(2) w(8) [OF that] that \<open>TID s' = u\<close> by (simp add: yielded_def)
  ultimately have "pair s' u t" using sch(1) sch(4) [OF w(4)] sch(4) [OF w(7)] w(2,3,7) yt by (auto simp: pair_def)
  with r show ?thesis by (rule that)
qed

lemma pair_alarm:
  assumes p: "pair s t u" and s: "alarm s" "\<not> masked s"
  obtains s' where "sync_step s Alarm s'" "pair s' u t" "pcs s' = pcs s" "mcbs s' = mcbs s" "alarm s'" "\<not> masked s'"
proof -
  have ok: "tcbs_ok s" using p by (simp add: pair_def)
  obtain buf s' where r: "schedule [] s = Some (buf, s')" "pair s' u t" by (rule pair_switch [OF p])
  with sync_step.take_alarm [OF s r(1)] schedule_frame [OF ok r(1)] schedule_pcs [OF ok r(1)] schedule_step(7) [OF ok r(1)] s that
  show ?thesis by blast
qed

lemma pair_upd [simp]:
  "pair (s\<lparr>pcs := f\<rparr>) t u = pair s t u" "pair (s'\<lparr>mcbs := g\<rparr>) t u = pair s' t u" "pair (lock s') t u = pair s' t u"
  "pair (unlock s') t u = pair s' t u"
  by (simp_all add: pair_def tcbs_ok_def lock_def unlock_def)

lemma pair_call:
  assumes "pair s t u" "pcs s t = Done r" "calls f"
  shows "sync_step s (Call f) (s\<lparr>pcs := (pcs s)(t := f)\<rparr>)"
  using sync_step.make_call [of s r f] assms by (simp add: pair_def)

lemma pair_lock_test:
  assumes "pair s t u" "pcs s t = In_Lock L_test m" "mcbs s m = Some b" "mstate b = UNLOCKED"
  shows "sync_step s (Segment (In_Lock L_test m)) (s\<lparr>pcs := (pcs s)(t := In_Lock L_take m)\<rparr>)"
  using sync_step.run_segment [of s "[]" "In_Lock L_take m" s] assms by (simp add: pair_def segment_def)

lemma pair_lock_take:
  assumes "pair s t u" "pcs s t = In_Lock L_take m" "mcbs s m = Some b" "alarm s"
  obtains s' where "sync_step s (Segment (In_Lock L_take m)) s'" "pair s' t u" "pcs s' = (pcs s)(t := Done 0)"
    "mcbs s' = (mcbs s)(m \<mapsto> b\<lparr>mstate := LOCKED\<rparr>)" "alarm s'" "\<not> masked s'"
proof -
  let ?s = "unlock ((lock s)\<lparr>mcbs := (mcbs s)(m \<mapsto> b\<lparr>mstate := LOCKED\<rparr>)\<rparr>)"
  have "pthread_mutex_lock L_take m [] s = Some (Return 0, ?s)" using assms(3) by (simp add: lock_def)
  then have "sync_step s (Segment (In_Lock L_take m)) (?s\<lparr>pcs := (pcs ?s)(t := Done 0)\<rparr>)"
    using sync_step.run_segment [of s "[]" "Done 0" ?s] assms(1,2) by (simp add: pair_def segment_def)
  then show ?thesis by (rule that) (use assms in \<open>simp_all add: lock_def unlock_def pair_def tcbs_ok_def\<close>)
qed

lemma only_ready_runs:
  assumes ok: "tcbs_ok s" and b: "st s (TID s) = TS_BLOCKED" and u: "u < MAX_THREADS" "st s u = TS_READY"
    and o: "\<And>i. i < MAX_THREADS \<Longrightarrow> i \<noteq> u \<Longrightarrow> st s i \<noteq> TS_READY"
  obtains buf s' where "schedule here s = Some (buf, s')" "TID s' = u" "st s' (TID s) = TS_BLOCKED"
proof -
  have y: "yielded s i = st s i" for i using b by (simp add: yielded_def)
  then obtain buf s' where r: "schedule here s = Some (buf, s')" using schedule_defined [OF ok, of here] u by fastforce
  note sch = schedule_step [OF ok r]
  have T: "TID s' < MAX_THREADS" "TID s < MAX_THREADS" using sch(1) ok by (simp_all add: tcbs_ok_def)
  then have "TID s' = u" using sch(2) o [OF T(1)] y by metis
  moreover have "st s' (TID s) = TS_BLOCKED" using sch(4) [OF T(2)] b y u(2) calculation by auto
  ultimately show ?thesis using r that by blast
qed

lemma segment_step:
  "pcs s (TID s) = f \<Longrightarrow> segment f here s = Some (g, s1) \<Longrightarrow> sync_step s (Segment f) (s1\<lparr>pcs := (pcs s1)(TID s := g)\<rparr>)"
  using sync_step.run_segment [of s here g s1] by simp

section \<open>Two threads at a barrier\<close>

text \<open>Thread \<open>t\<close> runs at \<open>f\<close>, thread \<open>u\<close> is at \<open>g\<close> with status \<open>v\<close>, no other thread can run, and the
  barrier \<open>b\<close> is \<open>B\<close>.\<close>

definition view :: "nat \<Rightarrow> sync_sys \<Rightarrow> nat \<times> frame \<Rightarrow> nat \<times> frame \<times> thread_status \<Rightarrow> BarrierControlBlock \<Rightarrow> bool" where
  "view b s tf ugv B \<longleftrightarrow> (case (tf, ugv) of ((t, f), (u, g, v)) \<Rightarrow>
     tcbs_ok s \<and> TID s = t \<and> t \<noteq> u \<and> u < MAX_THREADS \<and> st s t = TS_RUNNING \<and> st s u = v \<and>
     (\<forall>i<MAX_THREADS. i \<noteq> t \<longrightarrow> i \<noteq> u \<longrightarrow> st s i \<notin> {TS_READY, TS_RUNNING}) \<and> pcs s t = f \<and> pcs s u = g \<and> bcbs s b = Some B \<and> \<not> masked s \<and> alarm s \<and>
     (\<forall>i. i \<noteq> t \<longrightarrow> i \<noteq> u \<longrightarrow> (\<exists>r. pcs s i = Done r)))"

text \<open>Some run of the two threads from \<open>s0\<close> leads there.\<close>

definition seen :: "sync_sys \<Rightarrow> nat \<Rightarrow> event list \<Rightarrow> nat \<times> frame \<Rightarrow> nat \<times> frame \<times> thread_status \<Rightarrow> BarrierControlBlock \<Rightarrow> bool" where
  "seen s0 b es tf ugv B \<longleftrightarrow> (\<exists>s. sync_trace s0 es s \<and> view b s tf ugv B)"

lemma seen_step:
  assumes "seen s0 b es tf ugv B" "\<And>s. view b s tf ugv B \<Longrightarrow> \<exists>s'. sync_step s e s' \<and> view b s' tf' ugv' B'"
  shows "seen s0 b (es @ [e]) tf' ugv' B'"
  using assms unfolding seen_def by (meson sync_trace.step)

lemma view_pair: "view b s (t, f) (u, g, TS_READY) B \<longleftrightarrow> pair s t u \<and> pcs s t = f \<and> pcs s u = g \<and> bcbs s b = Some B \<and>
    \<not> masked s \<and> alarm s \<and> (\<forall>i. i \<noteq> t \<longrightarrow> i \<noteq> u \<longrightarrow> (\<exists>r. pcs s i = Done r))"
  by (auto simp: view_def pair_def)

lemma seen_call: "seen s0 b es (t, Done r) (u, g, v) B \<Longrightarrow> seen s0 b (es @ [Call (In_Barrier B_enter b)]) (t, In_Barrier B_enter b) (u, g, v) B"
proof (erule seen_step)
  fix s
  assume v: "view b s (t, Done r) (u, g, v) B"
  then have "sync_step s (Call (In_Barrier B_enter b)) (s\<lparr>pcs := (pcs s)(t := In_Barrier B_enter b)\<rparr>)"
    using sync_step.make_call [of s r "In_Barrier B_enter b"] by (auto simp: view_def calls_def)
  with v show "\<exists>s'. sync_step s (Call (In_Barrier B_enter b)) s' \<and> view b s' (t, In_Barrier B_enter b) (u, g, v) B"
    by (intro exI [of _ "s\<lparr>pcs := (pcs s)(t := In_Barrier B_enter b)\<rparr>"]) (auto simp: view_def tcbs_ok_def)
qed

text \<open>A segment that neither switches threads nor changes a status.\<close>

lemma seen_plain:
  assumes seen: "seen s0 b es (t, In_Barrier p b) ugv B"
    and r: "\<And>s :: sync_sys. bcbs s b = Some B \<Longrightarrow> TID s = t \<Longrightarrow> \<not> masked s \<Longrightarrow>
      pthread_barrier_wait p b [] s = Some (n, s\<lparr>bcbs := (bcbs s)(b \<mapsto> B')\<rparr>)"
  shows "seen s0 b (es @ [Segment (In_Barrier p b)]) (t, resume (\<lambda>p. In_Barrier p b) n) ugv B'"
proof (rule seen_step [OF seen])
  fix s
  assume v: "view b s (t, In_Barrier p b) ugv B"
  then have w: "TID s = t" "pcs s (TID s) = In_Barrier p b" "bcbs s b = Some B" "\<not> masked s" by (auto simp: view_def split: prod.splits)
  let ?s = "s\<lparr>bcbs := (bcbs s)(b \<mapsto> B')\<rparr>" and ?g = "resume (\<lambda>p. In_Barrier p b) n"
  have "segment (In_Barrier p b) [] s = Some (?g, ?s)" using r [OF w(3,1,4)] by (simp add: segment_def)
  from segment_step [OF w(2) this] show "\<exists>s'. sync_step s (Segment (In_Barrier p b)) s' \<and> view b s' (t, ?g) ugv B'"
    using v w(1) by (intro exI [of _ "?s\<lparr>pcs := (pcs ?s)(t := ?g)\<rparr>"]) (auto simp: view_def tcbs_ok_def split: prod.splits)
qed

lemma bcb_kept [simp]: "bcbs s b = Some B \<Longrightarrow> s\<lparr>bcbs := (bcbs s)(b \<mapsto> B)\<rparr> = s"
  by (simp add: fun_upd_idem)

lemma seen_enter: "seen s0 b es (t, In_Barrier B_enter b) ugv B \<Longrightarrow>
    seen s0 b (es @ [Segment (In_Barrier B_enter b)]) (t, In_Barrier B_flag b) ugv (B\<lparr>left := left B - 1\<rparr>)"
  using seen_plain [of s0 b es t B_enter ugv B "Goto B_flag" "B\<lparr>left := left B - 1\<rparr>"] by simp

lemma seen_flag: "seen s0 b es (t, In_Barrier B_flag b) ugv B \<Longrightarrow>
    seen s0 b (es @ [Segment (In_Barrier B_flag b)]) (t, In_Barrier (if flag B \<noteq> 1 then B_block else B_loop) b) ugv B"
  using seen_plain [of s0 b es t B_flag ugv B "Goto (if flag B \<noteq> 1 then B_block else B_loop)" B] by simp

lemma seen_loop: "seen s0 b es (t, In_Barrier B_loop b) ugv B \<Longrightarrow>
    seen s0 b (es @ [Segment (In_Barrier B_loop b)]) (t, In_Barrier (if left B \<noteq> 0 then B_spin else B_release) b) ugv B"
  using seen_plain [of s0 b es t B_loop ugv B "Goto (if left B \<noteq> 0 then B_spin else B_release)" B] by simp

lemma seen_serial: "seen s0 b es (t, In_Barrier B_last b) ugv B \<Longrightarrow> calling_thread B = t \<Longrightarrow>
    seen s0 b (es @ [Segment (In_Barrier B_last b)]) (t, Done PTHREAD_BARRIER_SERIAL_THREAD) ugv (B\<lparr>left := count B\<rparr>)"
  using seen_plain [of s0 b es t B_last ugv B "Return PTHREAD_BARRIER_SERIAL_THREAD" "B\<lparr>left := count B\<rparr>"] by simp

lemma seen_other: "seen s0 b es (t, In_Barrier B_last b) ugv B \<Longrightarrow> calling_thread B \<noteq> t \<Longrightarrow>
    seen s0 b (es @ [Segment (In_Barrier B_last b)]) (t, Done 0) ugv B"
  using seen_plain [of s0 b es t B_last ugv B "Return 0" B] by simp

text \<open>A segment that switches to the other thread, which is ready.\<close>

lemma seen_switch:
  assumes seen: "seen s0 b es (t, In_Barrier p b) (u, g, TS_READY) B" and p: "p = B_spin \<and> q = B_loop \<or> p = B_yield2 \<and> q = B_last"
  shows "seen s0 b (es @ [Segment (In_Barrier p b)]) (u, g) (t, In_Barrier q b, TS_READY) B"
proof (rule seen_step [OF seen])
  fix s
  assume v: "view b s (t, In_Barrier p b) (u, g, TS_READY) B"
  then have w: "pair s t u" "TID s = t" "tcbs_ok s" "pcs s (TID s) = In_Barrier p b" "pcs s u = g" "bcbs s b = Some B" "t \<noteq> u" "\<not> masked s" "alarm s"
    and d: "\<And>i. i \<noteq> t \<Longrightarrow> i \<noteq> u \<Longrightarrow> \<exists>r. pcs s i = Done r"
    by (auto simp: view_pair pair_def)
  obtain buf s1 where r: "schedule [] s = Some (buf, s1)" "pair s1 u t" by (rule pair_switch [OF w(1)])
  have "segment (In_Barrier p b) [] s = Some (In_Barrier q b, s1)" using r(1) p by (auto simp: segment_def)
  from segment_step [OF w(4) this] show "\<exists>s'. sync_step s (Segment (In_Barrier p b)) s' \<and> view b s' (u, g) (t, In_Barrier q b, TS_READY) B"
    using r(2) w schedule_frame(3,5) [OF w(3) r(1)] schedule_step(7) [OF w(3) r(1)] schedule_pcs [OF w(3) r(1)]
    by (intro exI [of _ "s1\<lparr>pcs := (pcs s1)(t := In_Barrier q b)\<rparr>"]) (simp add: view_pair d)
qed

text \<open>The running thread blocks itself and the other one goes on.\<close>

lemma seen_block:
  assumes seen: "seen s0 b es (t, In_Barrier B_block b) (u, g, TS_READY) B"
  shows "seen s0 b ((es @ [Segment (In_Barrier B_block b)]) @ [Segment (In_Barrier B_yield b)]) (u, g) (t, In_Barrier B_loop b, TS_BLOCKED)
    (B\<lparr>calling_thread := t, flag := 1\<rparr>)"
proof -
  from seen obtain s where s: "sync_trace s0 es s" "view b s (t, In_Barrier B_block b) (u, g, TS_READY) B" by (auto simp: seen_def)
  then have w: "TID s = t" "tcbs_ok s" "pcs s (TID s) = In_Barrier B_block b" "pcs s u = g" "bcbs s b = Some B" "t \<noteq> u" "st s u = TS_READY"
    "u < MAX_THREADS" "t < MAX_THREADS" "\<And>i. i < MAX_THREADS \<Longrightarrow> i \<noteq> t \<Longrightarrow> i \<noteq> u \<Longrightarrow> st s i \<notin> {TS_READY, TS_RUNNING}" "alarm s"
    and d: "\<And>i. i \<noteq> t \<Longrightarrow> i \<noteq> u \<Longrightarrow> \<exists>r. pcs s i = Done r"
    by (auto simp: view_def tcbs_ok_def)
  obtain sa where sa: "set_status (TID s) TS_BLOCKED (lock s) = Some sa" "tcbs_ok sa" "TID sa = TID s"
    "\<And>i. i < MAX_THREADS \<Longrightarrow> st sa i = (if i = TID s then TS_BLOCKED else st s i)" "sa = (lock s)\<lparr>TCB_Table := TCB_Table sa\<rparr>"
    by (rule block_step [OF w(2)]) (rule that)
  have sel: "bcbs sa = bcbs s" "pcs sa = pcs s" "alarm sa = alarm s" by (subst sa(5), simp add: lock_def)+
  let ?B = "B\<lparr>calling_thread := t, flag := 1\<rparr>"
  let ?sb = "unlock (sa\<lparr>bcbs := (bcbs sa)(b \<mapsto> ?B)\<rparr>)"
  define s1 where "s1 = ?sb\<lparr>pcs := (pcs ?sb)(TID s := In_Barrier B_yield b)\<rparr>"
  have "segment (In_Barrier B_block b) [] s = Some (In_Barrier B_yield b, ?sb)" using sa(1,3) w(1,5) by (simp add: segment_def sel)
  from segment_step [OF w(3) this] have 1: "sync_step s (Segment (In_Barrier B_block b)) s1" by (simp add: s1_def)
  have s1: "tcbs_ok s1" "TID s1 = t" "pcs s1 = (pcs s)(t := In_Barrier B_yield b)" "bcbs s1 b = Some ?B"
    "\<And>i. i < MAX_THREADS \<Longrightarrow> st s1 i = (if i = t then TS_BLOCKED else st s i)" "\<not> masked s1" "alarm s1"
    using sa w(1,11) by (simp_all add: s1_def tcbs_ok_def unlock_def sel)
  obtain buf sc where r: "schedule [] s1 = Some (buf, sc)" "TID sc = u" "st sc (TID s1) = TS_BLOCKED"
    by (rule only_ready_runs [OF s1(1), of u]) (use s1(2,5) w in auto)
  note fr = schedule_frame [OF s1(1) r(1)] schedule_pcs [OF s1(1) r(1)] and sch = schedule_step [OF s1(1) r(1)]
  have o: "st sc i \<notin> {TS_READY, TS_RUNNING}" if "i < MAX_THREADS" "i \<noteq> t" "i \<noteq> u" for i
    using sch(4) [OF that(1)] that w(10) [OF that] s1(2) s1(5) [OF that(1)] r(2) by (auto simp: yielded_def)
  have "segment (In_Barrier B_yield b) [] s1 = Some (In_Barrier B_loop b, sc)" using r(1) by (simp add: segment_def)
  from segment_step [OF _ this] s1(2,3)
  have 2: "sync_step s1 (Segment (In_Barrier B_yield b)) (sc\<lparr>pcs := (pcs sc)(t := In_Barrier B_loop b)\<rparr>)" by simp
  have "view b (sc\<lparr>pcs := (pcs sc)(t := In_Barrier B_loop b)\<rparr>) (u, g) (t, In_Barrier B_loop b, TS_BLOCKED) ?B"
    using r(2,3) fr s1 w o sch(1,7) by (simp add: view_def tcbs_ok_def d)
  then show ?thesis using sync_trace.step [OF sync_trace.step [OF s(1) 1] 2] by (auto simp: seen_def)
qed

text \<open>The running thread leaves the loop and wakes the other one, or finds that no thread is to be woken.\<close>

lemma seen_release_none: "seen s0 b es (t, In_Barrier B_release b) ugv B \<Longrightarrow> flag B \<noteq> 1 \<Longrightarrow>
    seen s0 b (es @ [Segment (In_Barrier B_release b)]) (t, In_Barrier B_yield2 b) ugv B"
  using seen_plain [of s0 b es t B_release ugv B "Goto B_yield2" B] by (simp add: Let_def lock_def unlock_def)

lemma seen_release:
  assumes seen: "seen s0 b es (t, In_Barrier B_release b) (u, g, v) B" and B: "flag B = 1" "calling_thread B = u"
  shows "seen s0 b (es @ [Segment (In_Barrier B_release b)]) (t, In_Barrier B_yield2 b) (u, g, TS_READY) (B\<lparr>flag := 0\<rparr>)"
proof (rule seen_step [OF seen])
  fix s
  assume v: "view b s (t, In_Barrier B_release b) (u, g, v) B"
  then have w: "TID s = t" "tcbs_ok s" "pcs s (TID s) = In_Barrier B_release b" "bcbs s b = Some B" "u < MAX_THREADS" "t < MAX_THREADS"
    by (auto simp: view_def tcbs_ok_def)
  let ?sa = "(lock s)\<lparr>bcbs := (bcbs s)(b \<mapsto> B\<lparr>flag := 0\<rparr>)\<rparr>"
  have "tcbs_ok ?sa" using w(2) by (simp add: tcbs_ok_def lock_def)
  then obtain sb where sb: "set_status u TS_READY ?sa = Some sb" "tcbs_ok sb" "TID sb = TID ?sa"
    "\<And>i. i < MAX_THREADS \<Longrightarrow> st sb i = (if i = u then TS_READY else st ?sa i)" "sb = ?sa\<lparr>TCB_Table := TCB_Table sb\<rparr>"
    by (rule set_status_step [OF _ w(5)]) (rule that)
  have sel: "bcbs sb b = Some (B\<lparr>flag := 0\<rparr>)" "pcs sb = pcs s" "alarm sb = alarm s" by (subst sb(5), simp add: lock_def)+
  have "segment (In_Barrier B_release b) [] s = Some (In_Barrier B_yield2 b, unlock sb)"
    using sb(1) w(4) B by (simp add: segment_def Let_def lock_def)
  from segment_step [OF w(3) this] show "\<exists>s'. sync_step s (Segment (In_Barrier B_release b)) s' \<and>
      view b s' (t, In_Barrier B_yield2 b) (u, g, TS_READY) (B\<lparr>flag := 0\<rparr>)"
    using v sb(2-4) w sel by (intro exI [of _ "(unlock sb)\<lparr>pcs := (pcs (unlock sb))(t := In_Barrier B_yield2 b)\<rparr>"])
      (auto simp: view_def tcbs_ok_def unlock_def lock_def)
qed

lemma seen_alarm: "seen s0 b es (t, f) (u, g, TS_READY) B \<Longrightarrow> seen s0 b (es @ [Alarm]) (u, g) (t, f, TS_READY) B"
proof (erule seen_step)
  fix s
  assume v: "view b s (t, f) (u, g, TS_READY) B"
  then have w: "pair s t u" "tcbs_ok s" "alarm s" "\<not> masked s" by (auto simp: view_pair pair_def)
  obtain buf s1 where r: "schedule [] s = Some (buf, s1)" "pair s1 u t" by (rule pair_switch [OF w(1)])
  have "view b s1 (u, g) (t, f, TS_READY) B"
    using v r(2) schedule_frame(3,5) [OF w(2) r(1)] schedule_step(7) [OF w(2) r(1)] schedule_pcs [OF w(2) r(1)] by (simp add: view_pair)
  with sync_step.take_alarm [OF w(3,4) r(1)] show "\<exists>s'. sync_step s Alarm s' \<and> view b s' (u, g) (t, f, TS_READY) B" by blast
qed

lemma seen_refl: "view b s tf ugv B \<Longrightarrow> seen s b [] tf ugv B"
  using sync_trace.start by (auto simp: seen_def)

lemma seen_start: "seen demo_sys 2 [] (0, Done 7) (1, Done 7, TS_READY) \<lparr>init = 1, flag = 0, calling_thread = 2 ^ 64 - 1, count = 2, left = 2\<rparr>"
  unfolding seen_def view_pair using demo_pair by (intro exI [of _ demo_sys]) (simp add: demo_sel sync_trace.start)

end
