(* ===== verification/Sync_Barrier.thy ===== *)
theory Sync_Barrier
  imports Sync_Two
begin

text \<open>
  What the steps of the machine do to a barrier and to the threads in it, and two invariants of
  runs: how the counter of a barrier follows the threads that enter, and what becomes of a
  barrier for one thread.
\<close>

section \<open>Steps and barriers\<close>

definition entered :: "nat \<Rightarrow> event list \<Rightarrow> nat" where
  "entered b es = length (filter (\<lambda>e. e = Segment (In_Barrier B_enter b)) es)"

definition past :: "barrier_pc \<Rightarrow> bool" where
  "past p \<longleftrightarrow> p \<in> {B_release, B_yield2, B_last}"

lemma barrier_frame:
  assumes ok: "tcbs_ok s" and B: "bcbs s b = Some B" and run: "pthread_barrier_wait p b here s = Some (n, s1)"
  shows "\<exists>B1. bcbs s1 b = Some B1 \<and> count B1 = count B \<and> (p = B_enter \<longrightarrow> left B1 = left B - 1) \<and>
    (p \<noteq> B_enter \<longrightarrow> p \<noteq> B_last \<longrightarrow> left B1 = left B) \<and> (\<forall>q. n = Goto q \<longrightarrow> past q \<longrightarrow> past p \<or> left B = 0)"
proof -
  have ss: "bcbs s' = bcbs s0" if "set_status t v s0 = Some s'" for t v and s0 s' :: "'b sync_scheme"
    using that by (auto simp: set_status_def bind_eq_Some_conv)
  show ?thesis
  proof (cases p)
    case B_block
    then obtain sa where "set_status (TID s) TS_BLOCKED (lock s) = Some sa" using run by (auto simp: bind_eq_Some_conv)
    with ss [OF this] B_block run B show ?thesis by (auto simp: lock_def unlock_def past_def)
  next
    case B_release
    then show ?thesis
      using run B by (auto simp: bind_eq_Some_conv Let_def lock_def unlock_def past_def dest!: ss split: if_splits)
  qed (use run B schedule_frame(3) [OF ok] in \<open>auto simp: bind_eq_Some_conv past_def split: if_splits\<close>)
qed

lemma set_status_frame:
  fixes s s' :: sync_sys
  assumes "set_status t v s = Some s'"
  shows "bcbs s' = bcbs s \<and> pcs s' = pcs s \<and> mcbs s' = mcbs s"
  using assms by (auto simp: set_status_def bind_eq_Some_conv)

lemma list_frame:
  fixes s s' :: sync_sys
  shows "insert_tail q t s = Some (q', s') \<Longrightarrow> bcbs s' = bcbs s \<and> pcs s' = pcs s"
    "get_head q s = Some (t, q', s') \<Longrightarrow> bcbs s' = bcbs s \<and> pcs s' = pcs s"
  by (auto simp: insert_tail_def get_head_def Let_def bind_eq_Some_conv split: prod.splits if_splits)

lemma lock_frame:
  fixes s s1 :: sync_sys
  assumes ok: "tcbs_ok s" and run: "pthread_mutex_lock p m here s = Some (n, s1)"
  shows "bcbs s1 = bcbs s \<and> pcs s1 = pcs s"
  using run schedule_frame(3) [OF ok] schedule_pcs [OF ok]
  by (cases p) (auto simp: bind_eq_Some_conv Let_def lock_def unlock_def dest!: set_status_frame list_frame)

lemma unlock_frame:
  fixes s s1 :: sync_sys
  assumes ok: "tcbs_ok s" and run: "pthread_mutex_unlock p m here s = Some (n, s1)"
  shows "bcbs s1 = bcbs s \<and> pcs s1 = pcs s"
  using run schedule_frame(3) [OF ok] schedule_pcs [OF ok]
  by (cases p) (auto simp: bind_eq_Some_conv Let_def lock_def unlock_def dest!: set_status_frame list_frame)

lemma barrier_other_frame:
  fixes s s1 :: sync_sys
  assumes ok: "tcbs_ok s" and run: "pthread_barrier_wait p b here s = Some (n, s1)"
  shows "pcs s1 = pcs s \<and> (\<forall>b'. b' \<noteq> b \<longrightarrow> bcbs s1 b' = bcbs s b')"
  using run schedule_frame(3) [OF ok] schedule_pcs [OF ok]
  by (cases p) (auto simp: bind_eq_Some_conv Let_def lock_def unlock_def dest!: set_status_frame split: if_splits)

text \<open>A thread that is blocked in a barrier stays so through the segments of the other calls.\<close>

lemma set_status_blocked:
  "set_status u v s = Some s' \<Longrightarrow> blocked s t \<Longrightarrow> v = TS_BLOCKED \<or> u \<noteq> t \<Longrightarrow> blocked s' t"
  by (auto simp: set_status_def blocked_def bind_eq_Some_conv array_set_def nth_list_update split: if_splits)

lemma list_blocked:
  "insert_tail q u s = Some (q', s') \<Longrightarrow> blocked s' t = blocked s t"
  "get_head q s = Some (u, q', s') \<Longrightarrow> blocked s' t = blocked s t"
  by (auto simp: insert_tail_def get_head_def Let_def bind_eq_Some_conv blocked_def split: prod.splits if_splits)

lemma blocked_upd [simp]:
  "blocked (lock s) t = blocked s t" "blocked (unlock s) t = blocked s t" "blocked (s\<lparr>mcbs := M\<rparr>) t = blocked s t"
  "blocked (s\<lparr>bcbs := B\<rparr>) t = blocked s t" "blocked (s\<lparr>masked := k\<rparr>) t = blocked s t"
  by (simp_all add: blocked_def lock_def unlock_def)

lemma blocked_pcs [simp]: "blocked (s\<lparr>pcs := P\<rparr>) t = blocked s t"
  by (simp add: blocked_def)

lemma lock_blocked:
  fixes s s1 :: sync_sys
  assumes ok: "tcbs_ok s" and run: "pthread_mutex_lock p m here s = Some (n, s1)" and "blocked s t"
  shows "blocked s1 t"
  using run assms(3) schedule_frame(6) [OF ok]
  by (cases p) (auto simp: bind_eq_Some_conv Let_def list_blocked dest!: set_status_blocked [where t = t])

lemma unlock_blocked:
  fixes s s1 :: sync_sys
  assumes ok: "sync_ok s" and run: "pthread_mutex_unlock p m here s = Some (n, s1)" and b: "blocked s t" "pcs s t = In_Barrier q b"
  shows "blocked s1 t"
proof (cases "p = U_wake")
  case True
  obtain w ps b' q' where E: "queue_of s m (w # ps)" 
    "\<And>u. u < MAX_THREADS \<Longrightarrow> st s1 u = (if u = ltid (the (nodes s w)) then TS_READY else st s u)"
    by (rule unlock_wake_effect [OF ok run [unfolded True]]) (rule that)
  have "waits s m (ltid (the (nodes s w)))" using E(1) by (auto simp: queue_of_def threads_at_def)
  then have "t \<noteq> ltid (the (nodes s w))" using b(2) by (auto simp: waits_def)
  with E(2) [of t] b(1) show ?thesis by (simp add: blocked_def)
next
  case False
  with run b(1) schedule_frame(6) [OF sync_okD(1) [OF ok]] show ?thesis
    by (cases p) (auto simp: bind_eq_Some_conv Let_def)
qed

lemma barrier_blocked:
  fixes s s1 :: sync_sys
  assumes ok: "sync_ok s" and run: "pthread_barrier_wait p b' here s = Some (n, s1)" and b: "blocked s t" "pcs s t = In_Barrier q b" "b' \<noteq> b"
  shows "blocked s1 t"
proof -
  have "calling_thread B \<noteq> t" if "bcbs s b' = Some B" "flag B = 1" for B
  proof -
    have "pcs s (calling_thread B) = In_Barrier B_yield b' \<or> pcs s (calling_thread B) = In_Barrier B_loop b'"
      using sync_okD(5) [OF ok] that by (simp add: barriers_ok_def)
    with b(2,3) show ?thesis by auto
  qed
  then show ?thesis
    using run b(1) schedule_frame(6) [OF sync_okD(1) [OF ok]]
    by (cases p) (auto simp: bind_eq_Some_conv Let_def lock_def dest!: set_status_blocked [where t = t] split: if_splits)
qed

text \<open>For one barrier \<open>b\<close> a step is a segment of \<open>pthread_barrier_wait\<close> on \<open>b\<close>, or it leaves \<open>b\<close> and
  the threads in it alone, except that a thread may call.\<close>

lemma barrier_step_cases:
  assumes ok: "sync_ok s" and step: "sync_step s e s'"
  obtains (own) p here n s1 where "e = Segment (In_Barrier p b)" "pcs s (TID s) = In_Barrier p b"
      "pthread_barrier_wait p b here s = Some (n, s1)" "s' = s1\<lparr>pcs := (pcs s)(TID s := resume (\<lambda>p. In_Barrier p b) n)\<rparr>"
  | (other) "bcbs s' b = bcbs s b" "\<And>p. e \<noteq> Segment (In_Barrier p b)"
    "\<And>t p. pcs s' t = In_Barrier p b \<Longrightarrow> pcs s t = In_Barrier p b \<or> p = B_enter"
    "\<And>t p. pcs s t = In_Barrier p b \<Longrightarrow> pcs s' t = In_Barrier p b"
    "\<And>t p. pcs s t = In_Barrier p b \<Longrightarrow> blocked s t \<Longrightarrow> blocked s' t"
  using step
proof cases
  case (run_segment here f s1)
  note tc = sync_okD(1) [OF ok]
  have quiet: thesis if "bcbs s1 b = bcbs s b" "pcs s1 = pcs s" "\<And>p. pcs s (TID s) \<noteq> In_Barrier p b" "\<And>p. f \<noteq> In_Barrier p b"
      "\<And>t p. pcs s t = In_Barrier p b \<Longrightarrow> blocked s t \<Longrightarrow> blocked s1 t"
    by (rule other) (use that run_segment(1,2) in \<open>auto split: if_splits\<close>)
  show thesis
  proof (cases "pcs s (TID s)")
    case (Done r)
    then show thesis using run_segment(3) by (simp add: segment_def)
  next
    case (In_Lock p m)
    with run_segment(3) obtain n where n: "pthread_mutex_lock p m here s = Some (n, s1)" "f = resume (\<lambda>p. In_Lock p m) n"
      by (auto simp: segment_def)
    with lock_frame [OF tc n(1)] lock_blocked [OF tc n(1)] In_Lock show thesis by (intro quiet) (cases n; simp)+
  next
    case (In_Unlock p m)
    with run_segment(3) obtain n where n: "pthread_mutex_unlock p m here s = Some (n, s1)" "f = resume (\<lambda>p. In_Unlock p m) n"
      by (auto simp: segment_def)
    with unlock_frame [OF tc n(1)] unlock_blocked [OF ok n(1)] In_Unlock show thesis by (intro quiet) (cases n; simp)+
  next
    case (In_Barrier p b')
    with run_segment(3) obtain n where n: "pthread_barrier_wait p b' here s = Some (n, s1)" "f = resume (\<lambda>p. In_Barrier p b') n"
      by (auto simp: segment_def)
    show thesis
    proof (cases "b' = b")
      case True
      then show thesis using own barrier_other_frame [OF tc n(1)] n In_Barrier run_segment(1,2) by simp
    next
      case False
      with barrier_other_frame [OF tc n(1)] barrier_blocked [OF ok n(1)] n(2) In_Barrier show thesis by (intro quiet) (cases n; simp)+
    qed
  qed
next
  case (make_call r f)
  then show thesis by (intro other) (auto simp: calls_def split: if_splits frame.splits)
next
  case (take_alarm here buf)
  note tc = sync_okD(1) [OF ok]
  from schedule_frame(3,6) [OF tc take_alarm(4)] schedule_pcs [OF tc take_alarm(4)] take_alarm(1) show thesis
    by (intro other) auto
qed


section \<open>The counter of a barrier\<close>

text \<open>What is known of barrier \<open>b\<close> after the events \<open>es\<close>, from a state in which \<open>c\<close> threads are still
  to enter: until they have entered, the counter tells how many are missing and no thread has
  left its loop.\<close>

definition barrier_inv :: "nat \<Rightarrow> u32 \<Rightarrow> event list \<Rightarrow> sync_sys \<Rightarrow> bool" where
  "barrier_inv b c es s \<longleftrightarrow> (\<exists>B. bcbs s b = Some B \<and>
     (unat c \<le> entered b es \<or>
      left B = c - of_nat (entered b es) \<and> (\<forall>t p. pcs s t = In_Barrier p b \<longrightarrow> \<not> past p) \<and> Segment (In_Barrier B_last b) \<notin> set es))"

lemma wrap_le:
  assumes "c - of_nat n = (0 :: u32)"
  shows "unat c \<le> n"
proof -
  have "unat c = n mod 2 ^ 32" using assms by (simp add: unat_of_nat)
  then show ?thesis by simp
qed

lemma entered_snoc:
  "entered b (es @ [e]) = entered b es + (if e = Segment (In_Barrier B_enter b) then 1 else 0)"
  by (simp add: entered_def)

lemma barrier_inv_segment:
  assumes ok: "tcbs_ok s" and inv: "barrier_inv b c es s" and pc: "pcs s (TID s) = In_Barrier p b"
    and run: "pthread_barrier_wait p b here s = Some (n, s1)"
  shows "barrier_inv b c (es @ [Segment (In_Barrier p b)]) (s1\<lparr>pcs := (pcs s)(TID s := resume (\<lambda>p. In_Barrier p b) n)\<rparr>)"
proof -
  let ?s = "s1\<lparr>pcs := (pcs s)(TID s := resume (\<lambda>p. In_Barrier p b) n)\<rparr>"
  from inv obtain B where B: "bcbs s b = Some B"
      "unat c \<le> entered b es \<or> left B = c - of_nat (entered b es) \<and> (\<forall>t p. pcs s t = In_Barrier p b \<longrightarrow> \<not> past p) \<and>
        Segment (In_Barrier B_last b) \<notin> set es" by (auto simp: barrier_inv_def)
  from barrier_frame [OF ok B(1) run] obtain B1 where B1: "bcbs s1 b = Some B1"
      "p = B_enter \<Longrightarrow> left B1 = left B - 1" "p \<noteq> B_enter \<Longrightarrow> p \<noteq> B_last \<Longrightarrow> left B1 = left B"
      "\<And>q. n = Goto q \<Longrightarrow> past q \<Longrightarrow> past p \<or> left B = 0" by auto
  show ?thesis
  proof (cases "unat c \<le> entered b es")
    case True
    then show ?thesis using B1(1) by (auto simp: barrier_inv_def entered_snoc)
  next
    case False
    then have l: "left B = c - of_nat (entered b es)" and np: "\<And>t p. pcs s t = In_Barrier p b \<Longrightarrow> \<not> past p"
      and nl: "Segment (In_Barrier B_last b) \<notin> set es" using B(2) by blast+
    have p: "\<not> past p" using np pc by blast
    then have pl: "p \<noteq> B_last" by (auto simp: past_def)
    have "left B \<noteq> 0" using wrap_le [of c "entered b es"] False l by auto
    then have "\<not> past q" if "pcs ?s t = In_Barrier q b" for t q
      using that B1(4) np p by (cases n) (auto split: if_splits)
    moreover have "left B1 = c - of_nat (entered b (es @ [Segment (In_Barrier p b)]))"
      using B1(2,3) l pl by (cases "p = B_enter") (simp_all add: entered_snoc)
    ultimately show ?thesis using B1(1) nl pl unfolding barrier_inv_def by auto
  qed
qed

lemma barrier_inv_step:
  assumes ok: "sync_ok s" and inv: "barrier_inv b c es s" and step: "sync_step s e s'"
  shows "barrier_inv b c (es @ [e]) s'"
proof (rule barrier_step_cases [OF ok step, of b])
  fix p here n s1
  assume o: "e = Segment (In_Barrier p b)" "pcs s (TID s) = In_Barrier p b"
    "pthread_barrier_wait p b here s = Some (n, s1)" "s' = s1\<lparr>pcs := (pcs s)(TID s := resume (\<lambda>p. In_Barrier p b) n)\<rparr>"
  show ?thesis unfolding o(1,4) by (rule barrier_inv_segment [OF sync_okD(1) [OF ok] inv o(2,3)])
next
  assume o: "bcbs s' b = bcbs s b" "\<And>p. e \<noteq> Segment (In_Barrier p b)"
    "\<And>t p. pcs s' t = In_Barrier p b \<Longrightarrow> pcs s t = In_Barrier p b \<or> p = B_enter"
  have np: "\<forall>t p. pcs s' t = In_Barrier p b \<longrightarrow> \<not> past p" if "\<forall>t p. pcs s t = In_Barrier p b \<longrightarrow> \<not> past p"
    using that o(3) by (auto simp: past_def)
  have e: "entered b (es @ [e]) = entered b es" using o(2) [of B_enter] by (simp add: entered_snoc)
  show ?thesis using inv np o(1) o(2) [of B_last] unfolding barrier_inv_def e by auto
qed

lemma barrier_inv_trace:
  assumes "sync_ok s0" "barrier_inv b c [] s0"
  shows "sync_trace s0 es s \<Longrightarrow> barrier_inv b c es s"
proof (induction rule: sync_trace.induct)
  case start
  show ?case by (rule assms)
next
  case (step es s e s')
  from barrier_inv_step [OF sync_trace_ok [OF step.hyps(1) assms(1)] step.IH step.hyps(2)] show ?case .
qed

text \<open>As long as fewer threads have entered than the counter asks for, the barrier is closed.\<close>

lemma barrier_closed:
  assumes "sync_ok s0" "bcbs s0 b = Some B" "\<And>t p. pcs s0 t = In_Barrier p b \<Longrightarrow> \<not> past p"
    and "sync_trace s0 es s" "entered b es < unat (left B)"
  shows "Segment (In_Barrier B_last b) \<notin> set es \<and> (\<forall>t p. pcs s t = In_Barrier p b \<longrightarrow> \<not> past p)"
proof -
  have "barrier_inv b (left B) [] s0" using assms(2,3) by (auto simp: barrier_inv_def entered_def)
  from barrier_inv_trace [OF assms(1) this assms(4)] assms(5) show ?thesis by (auto simp: barrier_inv_def)
qed


section \<open>A barrier for one thread\<close>

text \<open>Thread \<open>w\<close> is the only one in the barrier, and it will block itself or has done so.\<close>

definition inside :: "sync_sys \<Rightarrow> nat \<Rightarrow> pthread_t \<Rightarrow> bool" where
  "inside s b t \<longleftrightarrow> (\<exists>p. p \<noteq> B_enter \<and> pcs s t = In_Barrier p b)"

definition blocks_itself :: "sync_sys \<Rightarrow> nat \<Rightarrow> BarrierControlBlock \<Rightarrow> pthread_t \<Rightarrow> bool" where
  "blocks_itself s b B w \<longleftrightarrow>
     (pcs s w = In_Barrier B_flag b \<or> pcs s w = In_Barrier B_block b) \<and> flag B \<noteq> 1 \<or>
     (pcs s w = In_Barrier B_yield b \<or> pcs s w = In_Barrier B_loop b) \<and> blocked s w"

text \<open>The state of a barrier for one thread after \<open>n\<close> threads have entered: the counter runs below
  zero with the second, and the first never reaches the test of the counter by itself.\<close>

definition lone_inv :: "nat \<Rightarrow> nat \<Rightarrow> sync_sys \<Rightarrow> bool" where
  "lone_inv b n s \<longleftrightarrow> (\<exists>B. bcbs s b = Some B \<and> left B = 1 - of_nat n \<and> (\<forall>t p. pcs s t = In_Barrier p b \<longrightarrow> \<not> past p) \<and>
     (n = 0 \<longrightarrow> flag B \<noteq> 1 \<and> (\<forall>t. \<not> inside s b t)) \<and>
     (n = 1 \<longrightarrow> (\<exists>w. blocks_itself s b B w \<and> (\<forall>t. inside s b t \<longrightarrow> t = w))))"

lemma lone_inv_other:
  assumes inv: "lone_inv b n s" and o: "bcbs s' b = bcbs s b"
    "\<And>t p. pcs s' t = In_Barrier p b \<Longrightarrow> pcs s t = In_Barrier p b \<or> p = B_enter"
    "\<And>t p. pcs s t = In_Barrier p b \<Longrightarrow> pcs s' t = In_Barrier p b"
    "\<And>t p. pcs s t = In_Barrier p b \<Longrightarrow> blocked s t \<Longrightarrow> blocked s' t"
  shows "lone_inv b n s'"
proof -
  from inv obtain B where B: "bcbs s b = Some B" "left B = 1 - of_nat n" "\<And>t p. pcs s t = In_Barrier p b \<Longrightarrow> \<not> past p"
      "n = 0 \<Longrightarrow> flag B \<noteq> 1 \<and> (\<forall>t. \<not> inside s b t)"
      "n = 1 \<Longrightarrow> \<exists>w. blocks_itself s b B w \<and> (\<forall>t. inside s b t \<longrightarrow> t = w)"
    unfolding lone_inv_def by blast
  have "inside s b t" if "inside s' b t" for t using that o(2) by (auto simp: inside_def)
  moreover have "blocks_itself s' b B w" if "blocks_itself s b B w" for w
    using that o(3,4) by (auto simp: blocks_itself_def)
  moreover have "\<not> past p" if "pcs s' t = In_Barrier p b" for t p using o(2) [OF that] B(3) by (auto simp: past_def)
  ultimately show ?thesis using B o(1) unfolding lone_inv_def by (metis (no_types))
qed

lemma lone_inv_enter:
  assumes inv: "lone_inv b n s" and pc: "pcs s (TID s) = In_Barrier B_enter b"
    and run: "pthread_barrier_wait B_enter b here s = Some (nx, s1)"
  shows "lone_inv b (Suc n) (s1\<lparr>pcs := (pcs s)(TID s := resume (\<lambda>p. In_Barrier p b) nx)\<rparr>)"
proof -
  from inv obtain B where B: "bcbs s b = Some B" "left B = 1 - of_nat n" "\<And>t p. pcs s t = In_Barrier p b \<Longrightarrow> \<not> past p"
      "n = 0 \<Longrightarrow> flag B \<noteq> 1 \<and> (\<forall>t. \<not> inside s b t)"
    unfolding lone_inv_def by blast
  let ?B = "B\<lparr>left := left B - 1\<rparr>" and ?s = "s1\<lparr>pcs := (pcs s)(TID s := In_Barrier B_flag b)\<rparr>"
  have s1: "nx = Goto B_flag" "bcbs ?s b = Some ?B" "left ?B = 1 - of_nat (Suc n)" using run B(1,2) by auto
  have "blocks_itself ?s b ?B (TID s) \<and> (\<forall>t. inside ?s b t \<longrightarrow> t = TID s)" if "n = 0"
    using B(4) [OF that] by (simp add: blocks_itself_def inside_def)
  moreover have "\<not> past p" if "pcs ?s t = In_Barrier p b" for t p
    using that B(3) by (auto simp: past_def split: if_splits)
  ultimately have "lone_inv b (Suc n) ?s" using s1(2,3) unfolding lone_inv_def by auto
  then show ?thesis by (simp add: s1(1))
qed

text \<open>The segment after the first one leads to a point before the exit of the loop, and a thread
  that is alone blocks itself.\<close>

lemma lone_segment:
  assumes ok: "sync_ok s" and pc: "pcs s (TID s) = In_Barrier p b" and p: "p \<noteq> B_enter" "\<not> past p"
    and run: "pthread_barrier_wait p b here s = Some (nx, s1)" and B: "bcbs s b = Some B"
    and w: "alone \<Longrightarrow> blocks_itself s b B (TID s)" and l: "\<not> alone \<Longrightarrow> left B \<noteq> 0"
  obtains q B1 where "nx = Goto q" "\<not> past q" "bcbs s1 b = Some B1" "left B1 = left B"
    "alone \<Longrightarrow> blocks_itself (s1\<lparr>pcs := (pcs s)(TID s := In_Barrier q b)\<rparr>) b B1 (TID s)"
proof (cases p)
  case B_flag
  with run B w pc show ?thesis
    by (intro that [of "if flag B \<noteq> 1 then B_block else B_loop" B]) (auto simp: past_def blocks_itself_def)
next
  case B_block
  obtain sa where sa: "set_status (TID s) TS_BLOCKED (lock s) = Some sa" "TID sa = TID s"
    "\<And>u. u < MAX_THREADS \<Longrightarrow> st sa u = (if u = TID s then TS_BLOCKED else st s u)" "sa = (lock s)\<lparr>TCB_Table := TCB_Table sa\<rparr>"
    by (rule block_step [OF sync_okD(1) [OF ok]]) (rule that)
  have sel: "bcbs sa = bcbs s" by (subst sa(4), simp add: lock_def)
  let ?B = "B\<lparr>calling_thread := TID s, flag := 1\<rparr>"
  have s1: "s1 = unlock (sa\<lparr>bcbs := (bcbs s)(b \<mapsto> ?B)\<rparr>)" "nx = Goto B_yield"
    using run sa(1,2) B B_block by (simp_all add: sel)
  have "blocked sa (TID s)" using sa(3) sync_okD(7) [OF ok] by (simp add: blocked_def)
  with s1 show ?thesis by (intro that [of B_yield ?B]) (auto simp: past_def blocks_itself_def unlock_def)
next
  case B_yield
  with run obtain buf where "schedule here s = Some (buf, s1)" "nx = Goto B_loop" by (auto simp: bind_eq_Some_conv)
  with schedule_frame(3,6) [OF sync_okD(1) [OF ok] this(1)] B w pc B_yield show ?thesis
    by (intro that [of B_loop B]) (auto simp: past_def blocks_itself_def)
next
  case B_loop
  have "\<not> blocked s (TID s)" using running_unless [OF ok] pc B_loop by (simp add: blocked_def)
  then have "\<not> alone" using w pc B_loop by (auto simp: blocks_itself_def)
  with run B l B_loop show ?thesis by (intro that [of B_spin B]) (auto simp: past_def)
next
  case B_spin
  then have "\<not> alone" using w pc by (auto simp: blocks_itself_def)
  moreover from run B_spin obtain buf where "schedule here s = Some (buf, s1)" "nx = Goto B_loop" by (auto simp: bind_eq_Some_conv)
  ultimately show ?thesis
    using schedule_frame(3) [OF sync_okD(1) [OF ok]] B by (intro that [of B_loop B]) (auto simp: past_def)
qed (use p in \<open>auto simp: past_def\<close>)

lemma lone_inv_own:
  assumes ok: "sync_ok s" and inv: "lone_inv b n s" and n: "n \<le> 2 ^ 32" and pc: "pcs s (TID s) = In_Barrier p b" "p \<noteq> B_enter"
    and run: "pthread_barrier_wait p b here s = Some (nx, s1)"
  shows "lone_inv b n (s1\<lparr>pcs := (pcs s)(TID s := resume (\<lambda>p. In_Barrier p b) nx)\<rparr>)"
proof -
  from inv obtain B where B: "bcbs s b = Some B" "left B = 1 - of_nat n" "\<And>t p. pcs s t = In_Barrier p b \<Longrightarrow> \<not> past p"
      "n = 0 \<Longrightarrow> flag B \<noteq> 1 \<and> (\<forall>t. \<not> inside s b t)"
      "n = 1 \<Longrightarrow> \<exists>w. blocks_itself s b B w \<and> (\<forall>t. inside s b t \<longrightarrow> t = w)"
    unfolding lone_inv_def by blast
  have T: "inside s b (TID s)" using pc by (auto simp: inside_def)
  then have n0: "n \<noteq> 0" using B(4) by blast
  have w: "blocks_itself s b B (TID s) \<and> (\<forall>t. inside s b t \<longrightarrow> t = TID s)" if "n = 1" using B(5) [OF that] T by metis
  have l: "left B \<noteq> 0" if "n \<noteq> 1"
  proof
    assume "left B = 0"
    then have "unat (of_nat n :: u32) = unat (1 :: u32)" using B(2) by simp
    then have "n mod 2 ^ 32 = 1" by (simp add: unat_of_nat)
    with n n0 that show False by (auto simp: mod_if split: if_splits)
  qed
  obtain q B1 where q: "nx = Goto q" "\<not> past q" "bcbs s1 b = Some B1" "left B1 = left B"
    "n = 1 \<Longrightarrow> blocks_itself (s1\<lparr>pcs := (pcs s)(TID s := In_Barrier q b)\<rparr>) b B1 (TID s)"
    using lone_segment [OF ok pc B(3) [OF pc(1)] run B(1), of "n = 1"] w l by metis
  let ?s = "s1\<lparr>pcs := (pcs s)(TID s := In_Barrier q b)\<rparr>"
  have "t = TID s" if "n = 1" "inside ?s b t" for t using that w by (auto simp: inside_def split: if_splits)
  moreover have "\<not> past p'" if "pcs ?s t = In_Barrier p' b" for t p' using that B(3) q(2) by (auto split: if_splits)
  ultimately have "lone_inv b n ?s" using q(3-5) B(2) n0 unfolding lone_inv_def by auto
  then show ?thesis by (simp add: q(1))
qed

lemma lone_inv_trace:
  assumes ok: "sync_ok s0" and inv: "lone_inv b 0 s0" and tr: "sync_trace s0 es s" and n: "entered b es \<le> 2 ^ 32"
  shows "lone_inv b (entered b es) s \<and> Segment (In_Barrier B_last b) \<notin> set es"
  using tr n
proof (induction rule: sync_trace.induct)
  case start
  show ?case using inv by (simp add: entered_def)
next
  case (step es s e s')
  note ok' = sync_trace_ok [OF step.hyps(1) ok]
  have n: "entered b es \<le> 2 ^ 32" using step.prems by (simp add: entered_snoc)
  then have IH: "lone_inv b (entered b es) s" "Segment (In_Barrier B_last b) \<notin> set es" using step.IH by blast+
  show ?case
  proof (rule barrier_step_cases [OF ok' step.hyps(2), of b])
    fix p here nx s1
    assume o: "e = Segment (In_Barrier p b)" "pcs s (TID s) = In_Barrier p b"
      "pthread_barrier_wait p b here s = Some (nx, s1)" "s' = s1\<lparr>pcs := (pcs s)(TID s := resume (\<lambda>p. In_Barrier p b) nx)\<rparr>"
    have "p \<noteq> B_last" using IH(1) o(2) by (auto simp: lone_inv_def past_def)
    moreover have "lone_inv b (entered b (es @ [e])) s'"
    proof (cases "p = B_enter")
      case True
      then show ?thesis using lone_inv_enter [OF IH(1)] o by (simp add: entered_snoc)
    next
      case False
      then show ?thesis using lone_inv_own [OF ok' IH(1) n o(2) False o(3)] o by (simp add: entered_snoc)
    qed
    ultimately show ?thesis using IH(2) o(1) by simp
  next
    assume o: "bcbs s' b = bcbs s b" "\<And>p. e \<noteq> Segment (In_Barrier p b)"
      "\<And>t p. pcs s' t = In_Barrier p b \<Longrightarrow> pcs s t = In_Barrier p b \<or> p = B_enter"
      "\<And>t p. pcs s t = In_Barrier p b \<Longrightarrow> pcs s' t = In_Barrier p b"
      "\<And>t p. pcs s t = In_Barrier p b \<Longrightarrow> blocked s t \<Longrightarrow> blocked s' t"
    have "entered b (es @ [e]) = entered b es" using o(2) [of B_enter] by (simp add: entered_snoc)
    moreover have "e \<noteq> Segment (In_Barrier B_last b)" by (rule o(2))
    ultimately show ?thesis using lone_inv_other [OF IH(1) o(1,3-5)] IH(2) by auto
  qed
qed

end
