(* ===== verification/Sync_Props.thy ===== *)
theory Sync_Props
  imports Sync_Barrier
begin

text \<open>
  The properties of mutexes and barriers: what holds in every interleaving, and what does not.
\<close>

section \<open>Mutexes\<close>

text \<open>C31. The wait list is a queue: for every sequence of insertions with \<open>insert_tail\<close> and removals
  with \<open>get_head\<close>, in any order and from any list, the threads that come out are those that come
  out of a list extended at its end and shortened at its front, the linked list represents the
  rest, and \<open>is_empty\<close> tells whether it is empty; only a removal from the empty list is
  undefined.\<close>

theorem wait_list_fifo:
  assumes "queue_rep s q xs"
  shows "case list_queue ops xs of
      None \<Rightarrow> wl.queue_run ops (q, s) = None
    | Some (out, ys) \<Rightarrow> \<exists>q' s'. wl.queue_run ops (q, s) = Some (out, q', s') \<and> queue_rep s' q' ys \<and>
        (is_empty (fst q') \<longleftrightarrow> ys = [])"
  using assms by (rule wl.queue_run_list)

theorem wait_list_fifo_witness:
  "\<exists>q' s'. wl.queue_run [Put 3, Put 1, Get, Put 2, Get, Get, Put 5, Put 4, Get] ((0, 0), demo_sys) = Some ([3, 1, 2, 5], q', s') \<and>
     queue_rep s' q' [4] \<and> \<not> is_empty (fst q')"
proof -
  have "queue_rep demo_sys (0, 0) []" using demo_ok by (auto simp: queue_rep_def sync_ok_def lrep_def threads_at_def)
  from wait_list_fifo [OF this, of "[Put 3, Put 1, Get, Put 2, Get, Get, Put 5, Put 4, Get]"] show ?thesis by simp
qed

text \<open>In every interleaving, with alarms between any two segments, the library stays consistent:
  the threads in the wait list of a mutex are distinct, blocked, and inside \<open>pthread_mutex_lock\<close>
  of that mutex, the thread a barrier will wake is blocked in that barrier, and the alarm is
  never left masked.\<close>

theorem sync_invariant:
  assumes "sync_ok s0" "sync_trace s0 es s"
  shows "sync_ok s"
  using sync_trace_ok [OF assms(2,1)] .

theorem sync_invariant_witness: "\<exists>s. sync_trace demo_sys [Alarm] s \<and> TID s = 1 \<and> sync_ok s"
proof -
  obtain s where "sync_step demo_sys Alarm s" "pair s 1 0"
    using pair_alarm [OF demo_pair] by (auto simp: demo_sel)
  then have t: "sync_trace demo_sys [Alarm] s" "TID s = 1"
    using sync_trace.step [OF sync_trace.start] by (force, simp add: pair_def)
  with sync_invariant [OF demo_ok t(1)] show ?thesis by blast
qed

text \<open>C33. The mutex does not exclude: \<open>pthread_mutex_lock\<close> tests the state before it masks the
  alarm and does not test it again, so when the alarm comes in between, two threads both
  return 0 from it, without any unlock.\<close>

theorem mutual_exclusion_fails:
  "\<exists>s. sync_trace demo_sys [Call (In_Lock L_test 1), Segment (In_Lock L_test 1), Alarm, Call (In_Lock L_test 1),
      Segment (In_Lock L_test 1), Segment (In_Lock L_take 1), Alarm, Segment (In_Lock L_take 1)] s \<and>
    pcs s 0 = Done 0 \<and> pcs s 1 = Done 0 \<and> map_option mstate (mcbs s 1) = Some LOCKED"
proof -
  let ?L = "In_Lock L_test 1" and ?b = "\<lparr>mstate = UNLOCKED, wait_list = 0, wait_list_tail = 0\<rparr>"
  define s1 where "s1 = demo_sys\<lparr>pcs := (pcs demo_sys)(0 := ?L)\<rparr>"
  have 1: "sync_step demo_sys (Call ?L) s1" "pair s1 0 1"
    using pair_call [OF demo_pair] demo_pair by (simp_all add: demo_sel s1_def calls_def)
  define s2 where "s2 = s1\<lparr>pcs := (pcs s1)(0 := In_Lock L_take 1)\<rparr>"
  have 2: "sync_step s1 (Segment ?L) s2" "pair s2 0 1" "alarm s2" "\<not> masked s2"
    using pair_lock_test [OF 1(2), of 1 ?b] 1(2) by (simp_all add: s2_def s1_def demo_sel)
  obtain s3 where 3: "sync_step s2 Alarm s3" "pair s3 1 0" "pcs s3 = pcs s2" "mcbs s3 = mcbs s2" "alarm s3" "\<not> masked s3"
    by (rule pair_alarm [OF 2(2-4)])
  have p3: "pcs s3 0 = In_Lock L_take 1" "pcs s3 1 = Done 7" "mcbs s3 1 = Some ?b" by (simp_all add: 3 s2_def s1_def demo_sel)
  define s4 where "s4 = s3\<lparr>pcs := (pcs s3)(1 := ?L)\<rparr>"
  have 4: "sync_step s3 (Call ?L) s4" "pair s4 1 0" "pcs s4 1 = ?L" "mcbs s4 1 = Some ?b"
    using pair_call [OF 3(2) p3(2), of ?L] 3(2) p3(3) by (simp_all add: s4_def calls_def)
  define s5 where "s5 = s4\<lparr>pcs := (pcs s4)(1 := In_Lock L_take 1)\<rparr>"
  have 5: "sync_step s4 (Segment ?L) s5" "pair s5 1 0" "pcs s5 1 = In_Lock L_take 1" "mcbs s5 1 = Some ?b" "alarm s5"
    using pair_lock_test [OF 4(2,3,4)] 4(2,4) 3(5) by (simp_all add: s5_def s4_def)
  obtain s6 where 6: "sync_step s5 (Segment (In_Lock L_take 1)) s6" "pair s6 1 0" "pcs s6 = (pcs s5)(1 := Done 0)"
      "mcbs s6 = (mcbs s5)(1 \<mapsto> ?b\<lparr>mstate := LOCKED\<rparr>)" "alarm s6" "\<not> masked s6"
    by (rule pair_lock_take [OF 5(2-5)])
  obtain s7 where 7: "sync_step s6 Alarm s7" "pair s7 0 1" "pcs s7 = pcs s6" "mcbs s7 = mcbs s6" "alarm s7"
    by (rule pair_alarm [OF 6(2,5,6)])
  have p7: "pcs s7 0 = In_Lock L_take 1" "mcbs s7 1 = Some (?b\<lparr>mstate := LOCKED\<rparr>)"
    using p3(1) by (simp_all add: 7 6 s5_def s4_def)
  obtain s8 where 8: "sync_step s7 (Segment (In_Lock L_take 1)) s8" "pcs s8 = (pcs s7)(0 := Done 0)"
      "mcbs s8 = (mcbs s7)(1 \<mapsto> ?b\<lparr>mstate := LOCKED\<rparr>\<lparr>mstate := LOCKED\<rparr>)"
    by (rule pair_lock_take [OF 7(2) p7 7(5)])
  note tr = sync_trace.step [OF sync_trace.step [OF sync_trace.step [OF sync_trace.step [OF sync_trace.step [OF sync_trace.step
    [OF sync_trace.step [OF sync_trace.step [OF sync_trace.start 1(1)] 2(1)] 3(1)] 4(1)] 5(1)] 6(1)] 7(1)] 8(1)]
  have "pcs s8 0 = Done 0" "pcs s8 1 = Done 0" "map_option mstate (mcbs s8 1) = Some LOCKED" by (simp_all add: 8 7 6)
  with tr show ?thesis by (intro exI [of _ s8]) simp
qed

text \<open>With a waiting thread, the segment of \<open>pthread_mutex_unlock\<close> that wakes it runs without error.\<close>

lemma unlock_hand_off_defined:
  assumes ok: "sync_ok s" and q: "queue_of s m (p # ps)"
  shows "\<exists>r. pthread_mutex_unlock U_wake m here s = Some r"
proof -
  let ?t = "ltid (the (nodes s p))"
  note D = sync_okD [OF ok]
  have t: "?t < MAX_THREADS" using q by (auto simp: queue_of_def threads_at_def waits_def blocked_def)
  obtain b where b: "mcbs s m = Some b" "lrep (nodes s) (wait_list b, wait_list_tail b) (p # ps)" using q by (auto simp: queue_of_def)
  have l: "lrep (nodes (lock s)) (wait_list b, wait_list_tail b) (p # ps)" "nodes_ok (lock s)" "nodes (lock s) p = nodes s p"
    using b D(3) by (simp_all add: lock_def nodes_ok_def)
  obtain hd tl sa where g: "get_head (wait_list b, wait_list_tail b) (lock s) = Some (?t, (hd, tl), sa)"
      "sa = (lock s)\<lparr>nodes := (nodes (lock s))(p := None)\<rparr>"
    using get_head_step [OF l(2,1)] unfolding l(3) by (metis prod.collapse)
  let ?sb = "sa\<lparr>mcbs := (mcbs sa)(m \<mapsto> b\<lparr>mstate := UNLOCKED, wait_list := hd, wait_list_tail := tl\<rparr>)\<rparr>"
  have "tcbs_ok ?sb" using D(1) by (simp add: tcbs_ok_def g(2) lock_def)
  then obtain sc where "set_status ?t TS_READY ?sb = Some sc" by (rule set_status_step [OF _ t])
  then show ?thesis using b(1) g(1) by (simp add: Let_def lock_def)
qed

text \<open>C32. \<open>pthread_mutex_unlock\<close> with waiting threads wakes the one that has waited longest, but
  hands nothing over: the mutex is unlocked, and the woken thread returns \<open>EBUSY\<close> from its
  \<open>pthread_mutex_lock\<close>.\<close>

theorem unlock_hand_off:
  assumes ok: "sync_ok s" and pc: "pcs s (TID s) = In_Unlock U_wake m" and q: "queue_of s m (p # ps)"
  shows "\<exists>s'. sync_step s (Segment (In_Unlock U_wake m)) s' \<and> queue_of s' m ps \<and> threads_at (nodes s') ps = threads_at (nodes s) ps \<and>
    map_option mstate (mcbs s' m) = Some UNLOCKED \<and> st s' (ltid (the (nodes s p))) = TS_READY \<and>
    (pcs s' (ltid (the (nodes s p))) = In_Lock L_yield m \<or> pcs s' (ltid (the (nodes s p))) = In_Lock L_busy m) \<and>
    pthread_mutex_lock L_busy m here s' = Some (Return EBUSY, s')"
proof -
  let ?t = "ltid (the (nodes s p))"
  have r: "st s (TID s) = TS_RUNNING" using running_unless [OF ok] pc by simp
  have tw: "waits s m ?t" using q by (auto simp: queue_of_def threads_at_def)
  then have t: "?t \<noteq> TID s" using r by (auto simp: waits_def blocked_def)
  obtain n s1 where run: "pthread_mutex_unlock U_wake m [] s = Some (n, s1)"
    using unlock_hand_off_defined [OF ok q, of "[]"] by auto
  let ?s' = "s1\<lparr>pcs := (pcs s1)(TID s := In_Unlock U_yield m)\<rparr>"
  obtain p' ps' where w: "queue_of s m (p' # ps')" "n = Goto U_yield" "queue_of ?s' m ps'" "threads_at (nodes s1) ps' = threads_at (nodes s) ps'"
    "st s1 (ltid (the (nodes s p'))) = TS_READY" "map_option mstate (mcbs s1 m) = Some UNLOCKED" "pcs s1 = pcs s"
    by (rule unlock_wake_step [OF ok r run])
  have e: "p' = p" "ps' = ps" using queue_of_unique [OF q w(1)] by simp_all
  have "sync_step s (Segment (In_Unlock U_wake m)) ?s'"
    using sync_step.run_segment [of s "[]" "In_Unlock U_yield m" s1] pc run w(2) by (simp add: segment_def)
  moreover have "pcs ?s' ?t = In_Lock L_yield m \<or> pcs ?s' ?t = In_Lock L_busy m"
    using tw t w(7) by (auto simp: waits_def)
  ultimately show ?thesis using w e by (intro exI [of _ ?s']) simp
qed

text \<open>Thread 0 is about to wake thread 1, which waits for the mutex.\<close>

definition demo_wait :: sync_sys where
  "demo_wait = demo_sys\<lparr>TCB_Table := (TCB_Table demo_sys)[1 := (TCB_Table demo_sys ! 1)\<lparr>status := TS_BLOCKED\<rparr>],
     nodes := [5 \<mapsto> \<lparr>ltid = 1, lnext = 0\<rparr>], mcbs := [1 \<mapsto> \<lparr>mstate = LOCKED, wait_list = 5, wait_list_tail = 5\<rparr>],
     fresh := 6, pcs := (\<lambda>_. Done 7)(0 := In_Unlock U_wake 1, 1 := In_Lock L_busy 1)\<rparr>"

lemma demo_wait_ok: "sync_ok demo_wait" "queue_of demo_wait 1 [5]"
proof -
  have p: "tcbs_ok demo_sys" "st demo_sys 0 = TS_RUNNING" "1 < MAX_THREADS" using demo_pair by (auto simp: pair_def)
  then have st: "st demo_wait 1 = TS_BLOCKED" "st demo_wait 0 = TS_RUNNING" "tcbs_ok demo_wait"
    by (simp_all add: demo_wait_def tcbs_ok_def)
  have "waits demo_wait 1 1" using st(1) p(3) by (simp add: waits_def blocked_def) (simp add: demo_wait_def)
  then show q: "queue_of demo_wait 1 [5]" by (simp add: queue_of_def demo_wait_def lrep_def threads_at_def)
  have "queues_ok demo_wait" using q by (auto simp: queues_ok_def demo_wait_def split: if_splits)
  moreover have "barriers_ok demo_wait" by (auto simp: barriers_ok_def demo_wait_def demo_sel split: if_splits)
  moreover have "current_ok demo_wait" using st(2) by (simp add: current_ok_def demo_wait_def demo_sel)
  ultimately show "sync_ok demo_wait" using st(3) by (simp add: sync_ok_def nodes_ok_def) (simp add: demo_wait_def demo_sel)
qed

theorem unlock_hand_off_witness:
  "\<exists>s'. sync_step demo_wait (Segment (In_Unlock U_wake 1)) s' \<and> st s' 1 = TS_READY \<and>
     map_option mstate (mcbs s' 1) = Some UNLOCKED \<and> pthread_mutex_lock L_busy 1 [] s' = Some (Return 16, s')"
proof -
  have pc: "pcs demo_wait (TID demo_wait) = In_Unlock U_wake 1" "ltid (the (nodes demo_wait 5)) = 1"
    by (simp_all add: demo_wait_def demo_sel)
  from unlock_hand_off [OF demo_wait_ok(1) pc(1) demo_wait_ok(2), of "[]"] show ?thesis
    unfolding pc(2) EBUSY_def by blast
qed


section \<open>Barriers\<close>

text \<open>C6. No thread leaves the barrier early, in any interleaving: from a barrier in its initial state,
  if some thread has returned from \<open>pthread_barrier_wait\<close> or has left its waiting loop, at
  least as many threads have entered as the barrier was made for.\<close>

theorem barrier_safe:
  assumes ok: "sync_ok s0" and B: "bcbs s0 b = Some B" "left B = count B" "\<And>t p. pcs s0 t \<noteq> In_Barrier p b"
    and tr: "sync_trace s0 es s"
    and out: "Segment (In_Barrier B_last b) \<in> set es \<or> (\<exists>t p. pcs s t = In_Barrier p b \<and> p \<in> {B_release, B_yield2, B_last})"
  shows "unat (count B) \<le> entered b es"
proof -
  have "barrier_inv b (count B) [] s0" using B by (auto simp: barrier_inv_def entered_def)
  from barrier_inv_trace [OF ok this tr] out show ?thesis by (auto simp: barrier_inv_def past_def)
qed

text \<open>Two threads use the barrier: the first blocks itself, the second finds the count at zero.\<close>

definition at :: "barrier_pc \<Rightarrow> event" where
  "at p = Segment (In_Barrier p 2)"

abbreviation bcb :: "int \<Rightarrow> pthread_t \<Rightarrow> u32 \<Rightarrow> BarrierControlBlock" where
  "bcb f c l \<equiv> \<lparr>init = 1, flag = f, calling_thread = c, count = 2, left = l\<rparr>"

lemma demo_first_blocks:
  "seen demo_sys 2 [Call (In_Barrier B_enter 2), at B_enter, at B_flag, at B_block, at B_yield]
     (1, Done 7) (0, In_Barrier B_loop 2, TS_BLOCKED) (bcb 1 0 1)"
proof -
  have "seen demo_sys 2 [Call (In_Barrier B_enter 2), at B_enter, at B_flag] (0, In_Barrier B_block 2) (1, Done 7, TS_READY) (bcb 0 (2 ^ 64 - 1) 1)"
    using seen_flag [OF seen_enter [OF seen_call [OF seen_start]]] by (simp add: at_def)
  from seen_block [OF this] show ?thesis by (simp add: at_def)
qed

lemma demo_second_enters:
  "seen demo_sys 2 [Call (In_Barrier B_enter 2), at B_enter, at B_flag, at B_block, at B_yield,
     Call (In_Barrier B_enter 2), at B_enter, at B_flag, at B_loop]
     (1, In_Barrier B_release 2) (0, In_Barrier B_loop 2, TS_BLOCKED) (bcb 1 0 0)"
proof -
  have "seen demo_sys 2 [Call (In_Barrier B_enter 2), at B_enter, at B_flag, at B_block, at B_yield, Call (In_Barrier B_enter 2), at B_enter, at B_flag]
     (1, In_Barrier B_loop 2) (0, In_Barrier B_loop 2, TS_BLOCKED) (bcb 1 0 0)"
    using seen_flag [OF seen_enter [OF seen_call [OF demo_first_blocks]]] by (simp add: at_def)
  from seen_loop [OF this] show ?thesis by (simp add: at_def)
qed

theorem barrier_safe_witness:
  "\<exists>es s. sync_trace demo_sys es s \<and> pcs s 1 = In_Barrier B_release 2 \<and> 2 \<le> entered 2 es"
proof -
  obtain es s where s: "sync_trace demo_sys es s" "pcs s 1 = In_Barrier B_release 2"
    using demo_second_enters by (auto simp: seen_def view_def)
  have "unat (count (bcb 0 (2 ^ 64 - 1) 2)) \<le> entered 2 es"
    by (rule barrier_safe [OF demo_ok _ _ _ s(1)]) (use s(2) in \<open>auto simp: demo_sel\<close>)
  with s show ?thesis by auto
qed

text \<open>C34. A barrier for one thread never opens, in any interleaving and whatever other threads do:
  from its initial state no thread leaves the waiting loop or returns from
  \<open>pthread_barrier_wait\<close> before the 32-bit counter has wrapped around, that is, before more than
  \<open>2 ^ 32\<close> threads have entered. The first thread blocks itself although the counter has reached
  zero, and every further one takes the counter below zero.\<close>

theorem barrier_of_one_blocks:
  assumes ok: "sync_ok s0" and B: "bcbs s0 b = Some B" "count B = 1" "left B = count B" "flag B \<noteq> 1"
    and out: "\<And>t p. pcs s0 t \<noteq> In_Barrier p b" and tr: "sync_trace s0 es s" and n: "entered b es \<le> 2 ^ 32"
  shows "Segment (In_Barrier B_last b) \<notin> set es \<and> (\<forall>t p. pcs s t = In_Barrier p b \<longrightarrow> p \<notin> {B_release, B_yield2, B_last})"
proof -
  have "lone_inv b 0 s0" using B out by (simp add: lone_inv_def inside_def)
  from lone_inv_trace [OF ok this tr n] show ?thesis by (auto simp: lone_inv_def past_def)
qed

text \<open>Threads 0 and 1 with a barrier for one thread: the first blocks, the second spins.\<close>

definition lone_sys :: sync_sys where
  "lone_sys = demo_sys\<lparr>bcbs := [2 \<mapsto> \<lparr>init = 1, flag = 0, calling_thread = 2 ^ 64 - 1, count = 1, left = 1\<rparr>]\<rparr>"

lemma lone_sys_ok: "sync_ok lone_sys"
  by (rule sync_ok_mono [OF demo_ok])
    (use sync_okD [OF demo_ok] in \<open>auto simp: lone_sys_def waits_def blocked_def current_ok_def tcbs_ok_def split: if_splits\<close>)

theorem barrier_of_one_blocks_witness:
  "\<exists>s. sync_trace lone_sys [Call (In_Barrier B_enter 2), at B_enter, at B_flag, at B_block, at B_yield,
       Call (In_Barrier B_enter 2), at B_enter, at B_flag, at B_loop] s \<and>
     st s 0 = TS_BLOCKED \<and> pcs s 1 = In_Barrier B_spin 2 \<and> (\<forall>t. pcs s t \<noteq> In_Barrier B_last 2)"
proof -
  have "view 2 lone_sys (0, Done 7) (1, Done 7, TS_READY) \<lparr>init = 1, flag = 0, calling_thread = 2 ^ 64 - 1, count = 1, left = 1\<rparr>"
    unfolding view_pair using demo_pair by (simp add: lone_sys_def demo_sel pair_def tcbs_ok_def)
  from seen_block [OF seen_flag [OF seen_enter [OF seen_call [OF seen_refl [OF this]]], simplified]]
  have "seen lone_sys 2 [Call (In_Barrier B_enter 2), at B_enter, at B_flag, at B_block, at B_yield]
     (1, Done 7) (0, In_Barrier B_loop 2, TS_BLOCKED) \<lparr>init = 1, flag = 1, calling_thread = 0, count = 1, left = 0\<rparr>"
    by (simp add: at_def)
  from seen_loop [OF seen_flag [OF seen_enter [OF seen_call [OF this]], simplified]]
  obtain es s where s: "sync_trace lone_sys es s" "st s 0 = TS_BLOCKED" "pcs s 1 = In_Barrier B_spin 2"
      "es = [Call (In_Barrier B_enter 2), at B_enter, at B_flag, at B_block, at B_yield,
       Call (In_Barrier B_enter 2), at B_enter, at B_flag, at B_loop]"
    by (auto simp: seen_def view_def at_def)
  have "Segment (In_Barrier B_last 2) \<notin> set es \<and> (\<forall>t p. pcs s t = In_Barrier p 2 \<longrightarrow> p \<notin> {B_release, B_yield2, B_last})"
    by (rule barrier_of_one_blocks [OF lone_sys_ok _ _ _ _ _ s(1), of 2 "\<lparr>init = 1, flag = 0, calling_thread = 2 ^ 64 - 1, count = 1, left = 1\<rparr>"])
      (simp_all add: lone_sys_def demo_sel entered_def s(4) at_def)
  with s show ?thesis by blast
qed

text \<open>The second thread has left the barrier; the first has still to look whether it is the
  calling thread.\<close>

definition first_round :: "event list" where
  "first_round = [Call (In_Barrier B_enter 2), at B_enter, at B_flag, at B_block, at B_yield,
     Call (In_Barrier B_enter 2), at B_enter, at B_flag, at B_loop, at B_release, at B_yield2,
     at B_loop, at B_release, at B_yield2, at B_last]"

lemma demo_round: "seen demo_sys 2 first_round (1, Done 0) (0, In_Barrier B_last 2, TS_READY) (bcb 0 0 0)"
proof -
  have "seen demo_sys 2 [Call (In_Barrier B_enter 2), at B_enter, at B_flag, at B_block, at B_yield,
      Call (In_Barrier B_enter 2), at B_enter, at B_flag, at B_loop, at B_release, at B_yield2]
     (0, In_Barrier B_loop 2) (1, In_Barrier B_last 2, TS_READY) (bcb 0 0 0)"
    using seen_switch [OF seen_release [OF demo_second_enters], of B_last] by (simp add: at_def)
  from seen_loop [OF this] have "seen demo_sys 2 [Call (In_Barrier B_enter 2), at B_enter, at B_flag, at B_block, at B_yield,
      Call (In_Barrier B_enter 2), at B_enter, at B_flag, at B_loop, at B_release, at B_yield2, at B_loop]
     (0, In_Barrier B_release 2) (1, In_Barrier B_last 2, TS_READY) (bcb 0 0 0)" by (simp add: at_def)
  from seen_other [OF seen_switch [OF seen_release_none [OF this], of B_last]] show ?thesis by (simp add: at_def first_round_def)
qed

text \<open>C35. A barrier cannot be used again at once. Two threads pass a barrier for two; the one that
  returns first, with 0, enters it anew, without any alarm, before the other has run again.
  Then the other returns 0 as well, so that no thread of the first round has returned
  \<open>PTHREAD_BARRIER_SERIAL_THREAD\<close>, the thread of the second round is blocked, and the barrier stays
  closed in every continuation: no thread leaves the waiting loop or returns from
  \<open>pthread_barrier_wait\<close> until \<open>2 ^ 32 - 1\<close> further threads have entered.\<close>

theorem barrier_reuse_fails:
  "\<exists>s1 s2. sync_trace demo_sys first_round s1 \<and> pcs s1 1 = Done 0 \<and>
     sync_trace s1 [Call (In_Barrier B_enter 2), at B_enter, at B_flag, at B_block, at B_yield, at B_last] s2 \<and>
     pcs s2 0 = Done 0 \<and> st s2 1 = TS_BLOCKED \<and> pcs s2 1 = In_Barrier B_loop 2 \<and>
     (\<nexists>es s. sync_trace s2 es s \<and> entered 2 es < 2 ^ 32 - 1 \<and>
        (Segment (In_Barrier B_last 2) \<in> set es \<or> (\<exists>t p. pcs s t = In_Barrier p 2 \<and> p \<in> {B_release, B_yield2, B_last})))"
proof -
  obtain s1 where s1: "sync_trace demo_sys first_round s1" "view 2 s1 (1, Done 0) (0, In_Barrier B_last 2, TS_READY) (bcb 0 0 0)"
    using demo_round by (auto simp: seen_def)
  have "seen s1 2 [Call (In_Barrier B_enter 2), at B_enter, at B_flag] (1, In_Barrier B_block 2)
     (0, In_Barrier B_last 2, TS_READY) (bcb 0 0 (- 1))"
    using seen_flag [OF seen_enter [OF seen_call [OF seen_refl [OF s1(2)]]]] by (simp add: at_def)
  from seen_other [OF seen_block [OF this]]
  obtain s2 where s2: "sync_trace s1 [Call (In_Barrier B_enter 2), at B_enter, at B_flag, at B_block, at B_yield, at B_last] s2"
     "view 2 s2 (0, Done 0) (1, In_Barrier B_loop 2, TS_BLOCKED) (bcb 1 1 (- 1))" by (auto simp: seen_def at_def)
  then have v: "pcs s2 0 = Done 0" "st s2 1 = TS_BLOCKED" "pcs s2 1 = In_Barrier B_loop 2" "bcbs s2 2 = Some (bcb 1 1 (- 1))"
    "\<And>t. t \<noteq> 0 \<Longrightarrow> t \<noteq> 1 \<Longrightarrow> \<exists>r. pcs s2 t = Done r" by (auto simp: view_def)
  have ok: "sync_ok s2" using sync_trace_ok [OF s2(1)] sync_trace_ok [OF s1(1) demo_ok] by blast
  have np: "\<not> past p" if "pcs s2 t = In_Barrier p 2" for t p
    using that v(1,3) v(5) [of t] by (cases "t = 0"; cases "t = 1") (auto simp: past_def)
  have l: "unat (left (bcb 1 1 (- 1))) = 2 ^ 32 - 1" by (simp add: unsigned_minus_1_eq_mask mask_eq_exp_minus_1)
  have "Segment (In_Barrier B_last 2) \<notin> set es \<and> (\<forall>t p. pcs s t = In_Barrier p 2 \<longrightarrow> \<not> past p)"
    if "sync_trace s2 es s" "entered 2 es < 2 ^ 32 - 1" for es s
    by (rule barrier_closed [OF ok v(4) _ that(1)]) (use np that(2) l in auto)
  then have "\<nexists>es s. sync_trace s2 es s \<and> entered 2 es < 2 ^ 32 - 1 \<and>
      (Segment (In_Barrier B_last 2) \<in> set es \<or> (\<exists>t p. pcs s t = In_Barrier p 2 \<and> p \<in> {B_release, B_yield2, B_last}))"
    unfolding past_def by blast
  moreover have "pcs s1 1 = Done 0" using s1(2) by (simp add: view_def)
  ultimately show ?thesis using s1(1) s2(1) v(1-3) by blast
qed

text \<open>\<open>pthread_barrier_init\<close> refuses a count of zero, and a barrier that it has made can never be
  destroyed: \<open>pthread_barrier_destroy\<close> returns -1 for every initialised barrier.\<close>

theorem barrier_init_destroy:
  "case pthread_barrier_init n s of (r, b, s') \<Rightarrow>
     if n = 0 then r = EINVAL \<and> b = None \<and> s' = s
     else r = 0 \<and> (\<exists>p B. b = Some p \<and> bcbs s' p = Some B \<and> left B = n \<and> count B = n \<and> pthread_barrier_destroy p s' = Some (-1, s'))"
  by (simp add: pthread_barrier_init_def pthread_barrier_destroy_def Let_def)

end
