(* ===== verification/Sync_Wake.thy ===== *)
theory Sync_Wake
  imports Sync_Props
begin

text \<open>
  The wait list of a mutex in every interleaving: it is the queue that the events of the run
  describe, and a waiting thread is woken after as many wake-ups as its place in that queue.
\<close>

section \<open>Which segments change a wait list\<close>

definition list_ptrs :: "'a sync_scheme \<Rightarrow> nat \<Rightarrow> (nat \<times> nat) option" where
  "list_ptrs s m = map_option (\<lambda>b. (wait_list b, wait_list_tail b)) (mcbs s m)"

definition lists_kept :: "'a sync_scheme \<Rightarrow> 'a sync_scheme \<Rightarrow> bool" where
  "lists_kept s s' \<longleftrightarrow> nodes s' = nodes s \<and> (\<forall>m. list_ptrs s' m = list_ptrs s m)"

lemma lists_kept_upd [simp]:
  "lists_kept s s" "lists_kept s (lock s') = lists_kept s s'" "lists_kept s (unlock s') = lists_kept s s'"
  "lists_kept (lock s) s' = lists_kept s s'" "lists_kept s (s'\<lparr>bcbs := B\<rparr>) = lists_kept s s'"
  "lists_kept (s\<lparr>bcbs := B\<rparr>) s' = lists_kept s s'"
  by (auto simp: lists_kept_def list_ptrs_def lock_def unlock_def)

lemma lists_kept_pcs [simp]: "lists_kept s (s'\<lparr>pcs := f\<rparr>) = lists_kept s s'"
  by (auto simp: lists_kept_def list_ptrs_def)

lemma lists_kept_mstate:
  "mcbs s m = Some b \<Longrightarrow> lists_kept s (unlock ((lock s)\<lparr>mcbs := (mcbs s)(m \<mapsto> b\<lparr>mstate := v\<rparr>)\<rparr>))"
  by (auto simp: lists_kept_def list_ptrs_def lock_def unlock_def)

lemma lists_kept_status: "set_status t v s = Some s' \<Longrightarrow> lists_kept s s'"
  by (auto simp: lists_kept_def list_ptrs_def set_status_def bind_eq_Some_conv)

lemma lists_kept_schedule: "tcbs_ok s \<Longrightarrow> schedule here s = Some (buf, s') \<Longrightarrow> lists_kept s s'" for s :: "'a sync_scheme"
  using schedule_frame(1,2) by (fastforce simp: lists_kept_def list_ptrs_def)

lemma lock_lists:
  fixes s s1 :: "'a sync_scheme"
  assumes "tcbs_ok s" "pthread_mutex_lock p m here s = Some (n, s1)" "p \<noteq> L_block"
  shows "lists_kept s s1"
  using assms(2,3) lists_kept_schedule [OF assms(1)] lists_kept_mstate [of s m]
  by (cases p) (auto simp: bind_eq_Some_conv Let_def lock_def)

lemma unlock_lists:
  fixes s s1 :: "'a sync_scheme"
  assumes "tcbs_ok s" "pthread_mutex_unlock p m here s = Some (n, s1)" "p \<noteq> U_wake"
  shows "lists_kept s s1"
  using assms(2,3) lists_kept_schedule [OF assms(1)] lists_kept_mstate [of s m]
  by (cases p) (auto simp: bind_eq_Some_conv Let_def lock_def)

lemma barrier_lists:
  fixes s s1 :: "'a sync_scheme"
  assumes "tcbs_ok s" "pthread_barrier_wait p b here s = Some (n, s1)"
  shows "lists_kept s s1"
  using assms(2) lists_kept_schedule [OF assms(1)]
  by (cases p) (auto simp: bind_eq_Some_conv Let_def dest: lists_kept_status split: if_splits)

section \<open>The threads in line\<close>

definition line :: "sync_sys \<Rightarrow> nat \<Rightarrow> pthread_t list \<Rightarrow> bool" where
  "line s m ts \<longleftrightarrow> (\<exists>ps. queue_of s m ps \<and> threads_at (nodes s) ps = ts)"

text \<open>What an event of thread \<open>t\<close> does to the threads that wait for \<open>m\<close>.\<close>

definition line_after :: "event \<Rightarrow> pthread_t \<Rightarrow> nat \<Rightarrow> pthread_t list \<Rightarrow> pthread_t list" where
  "line_after e t m ts = (if e = Segment (In_Lock L_block m) then ts @ [t]
     else if e = Segment (In_Unlock U_wake m) then tl ts else ts)"

lemma line_waits: "line s m ts \<Longrightarrow> t \<in> set ts \<Longrightarrow> waits s m t"
  by (auto simp: line_def queue_of_def)

lemma queue_stays:
  assumes ok: "queues_ok s'" and q: "queue_of s m ps" and ptr: "list_ptrs s' m = list_ptrs s m"
    and n: "\<And>p. p \<in> set ps \<Longrightarrow> nodes s' p = nodes s p"
  shows "queue_of s' m ps" "threads_at (nodes s') ps = threads_at (nodes s) ps"
proof -
  obtain b where b: "mcbs s m = Some b" "lrep (nodes s) (wait_list b, wait_list_tail b) ps" using q by (auto simp: queue_of_def)
  then obtain b' where b': "mcbs s' m = Some b'" "wait_list b' = wait_list b" "wait_list_tail b' = wait_list_tail b"
    using ptr by (cases "mcbs s' m") (auto simp: list_ptrs_def)
  then obtain qs where qs: "queue_of s' m qs" using ok by (auto simp: queues_ok_def)
  have "lrep (nodes s') (wait_list b', wait_list_tail b') ps" using b b' lrep_cong [OF n] by simp
  with qs b'(1) have "qs = ps" by (auto simp: queue_of_def lrep_def intro: lpath_unique)
  with qs show "queue_of s' m ps" by simp
  show "threads_at (nodes s') ps = threads_at (nodes s) ps" using n by (simp add: threads_at_def)
qed

lemma line_stays:
  assumes "sync_ok s'" "line s m ts" "lists_kept s s'"
  shows "line s' m ts"
  using assms queue_stays [OF sync_okD(4) [OF assms(1)], of s m] by (auto simp: line_def lists_kept_def)

lemma line_block:
  assumes ok: "sync_ok s" and pc: "pcs s (TID s) = In_Lock L_block k" and run: "pthread_mutex_lock L_block k here s = Some (n, s1)"
    and l: "line s m ts"
  shows "line (s1\<lparr>pcs := (pcs s1)(TID s := resume (\<lambda>p. In_Lock p k) n)\<rparr>) m (if m = k then ts @ [TID s] else ts)"
proof -
  let ?s = "s1\<lparr>pcs := (pcs s1)(TID s := resume (\<lambda>p. In_Lock p k) n)\<rparr>"
  have r: "st s (TID s) = TS_RUNNING" using running_unless [OF ok] pc by simp
  note b = lock_block_step [OF ok r run]
  then have s: "?s = s1\<lparr>pcs := (pcs s1)(TID s := In_Lock L_yield k)\<rparr>" by simp
  obtain B qs q' where E: "queue_of s k qs" "\<And>p. p \<noteq> fresh s \<Longrightarrow> map_option ltid (nodes s1 p) = map_option ltid (nodes s p)"
    "\<And>p. p \<notin> set qs \<Longrightarrow> p \<noteq> fresh s \<Longrightarrow> nodes s1 p = nodes s p"
    "mcbs s1 = (mcbs s)(k \<mapsto> B\<lparr>wait_list := fst q', wait_list_tail := snd q'\<rparr>)"
    by (rule lock_block_effect [OF ok run]) (rule that)
  from l obtain ps where ps: "queue_of s m ps" "threads_at (nodes s) ps = ts" by (auto simp: line_def)
  note nd = queue_of_nodes [OF sync_okD(3) [OF ok] ps(1)]
  show ?thesis
  proof (cases "m = k")
    case True
    have "threads_at (nodes s1) ps = ts" unfolding ps(2) [symmetric] by (rule threads_at_cong) (use E(2) nd in auto)
    then have "threads_at (nodes s1) (ps @ [fresh s]) = ts @ [TID s]" using b(4) by (simp add: threads_at_def)
    moreover have "queue_of ?s m (ps @ [fresh s])" using b(3) [of ps] ps(1) True unfolding s by simp
    ultimately show ?thesis using True by (auto simp: line_def)
  next
    case False
    then have "nodes ?s p = nodes s p" if "p \<in> set ps" for p
      using E(3) [of p] nd(2) [OF that] queues_disjoint [OF E(1) ps(1)] that by auto
    moreover have "list_ptrs ?s m = list_ptrs s m" using False by (simp add: list_ptrs_def E(4))
    moreover have "queues_ok ?s" using sync_okD(4) [OF b(2)] unfolding s by simp
    ultimately show ?thesis using False queue_stays [of ?s s m ps] ps by (auto simp: line_def)
  qed
qed

lemma line_wake:
  assumes ok: "sync_ok s" and pc: "pcs s (TID s) = In_Unlock U_wake k" and run: "pthread_mutex_unlock U_wake k here s = Some (n, s1)"
    and l: "line s m ts"
  defines "s' \<equiv> s1\<lparr>pcs := (pcs s1)(TID s := resume (\<lambda>p. In_Unlock p k) n)\<rparr>"
  shows "line s' m (if m = k then tl ts else ts)" "m = k \<Longrightarrow> ts \<noteq> [] \<and> st s' (hd ts) = TS_READY"
proof -
  have r: "st s (TID s) = TS_RUNNING" using running_unless [OF ok] pc by simp
  obtain p ps where w: "queue_of s k (p # ps)" "n = Goto U_yield" "queue_of (s1\<lparr>pcs := (pcs s1)(TID s := In_Unlock U_yield k)\<rparr>) k ps"
    "threads_at (nodes s1) ps = threads_at (nodes s) ps" "st s1 (ltid (the (nodes s p))) = TS_READY"
    "sync_ok (s1\<lparr>pcs := (pcs s1)(TID s := In_Unlock U_yield k)\<rparr>)"
    by (rule unlock_wake_step [OF ok r run]) (rule that)
  have s': "s' = s1\<lparr>pcs := (pcs s1)(TID s := In_Unlock U_yield k)\<rparr>" by (simp add: s'_def w(2))
  obtain p' ps' b q' where E: "queue_of s k (p' # ps')" "nodes s1 = (nodes s)(p' := None)"
    "mcbs s1 = (mcbs s)(k \<mapsto> b\<lparr>mstate := UNLOCKED, wait_list := fst q', wait_list_tail := snd q'\<rparr>)"
    by (rule unlock_wake_effect [OF ok run]) (rule that)
  from l obtain qs where qs: "queue_of s m qs" "threads_at (nodes s) qs = ts" by (auto simp: line_def)
  have eq: "qs = p # ps" if "m = k" using queue_of_unique [OF _ w(1)] qs(1) that by simp
  then show "m = k \<Longrightarrow> ts \<noteq> [] \<and> st s' (hd ts) = TS_READY" using qs(2) w(5) by (auto simp: threads_at_def s')
  show "line s' m (if m = k then tl ts else ts)"
  proof (cases "m = k")
    case True
    then have "tl ts = threads_at (nodes s) ps" using qs(2) eq by (auto simp: threads_at_def)
    with True w(3,4) show ?thesis by (auto simp: line_def s')
  next
    case False
    then have "nodes s' p = nodes s p" if "p \<in> set qs" for p
      using queues_disjoint [OF E(1) qs(1), of p'] that by (auto simp: s' E(2))
    moreover have "list_ptrs s' m = list_ptrs s m" using False by (simp add: list_ptrs_def E(3) s')
    moreover have "queues_ok s'" using sync_okD(4) [OF w(6)] unfolding s' .
    ultimately show ?thesis using False queue_stays [of s' s m qs] qs by (auto simp: line_def)
  qed
qed

text \<open>One segment of the current thread, and one step of the machine, is one step of the queue.\<close>

lemma line_segment:
  assumes ok: "sync_ok s" and l: "line s m ts" and run: "segment (pcs s (TID s)) here s = Some (f, s1)"
    and s': "s' = s1\<lparr>pcs := (pcs s1)(TID s := f)\<rparr>" and ok': "sync_ok s'" and e: "e = Segment (pcs s (TID s))"
  shows "line s' m (line_after e (TID s) m ts) \<and> (e = Segment (In_Unlock U_wake m) \<longrightarrow> ts \<noteq> [] \<and> st s' (hd ts) = TS_READY)"
proof -
  note tc = sync_okD(1) [OF ok]
  have kept: ?thesis if "lists_kept s s1" "\<And>k. pcs s (TID s) \<noteq> In_Lock L_block k" "\<And>k. pcs s (TID s) \<noteq> In_Unlock U_wake k"
    using line_stays [OF ok' l] that by (simp add: s' e line_after_def)
  show ?thesis
  proof (cases "pcs s (TID s)")
    case (Done r)
    then show ?thesis using run by (simp add: segment_def)
  next
    case (In_Lock p k)
    with run obtain n where n: "pthread_mutex_lock p k here s = Some (n, s1)" "f = resume (\<lambda>p. In_Lock p k) n" by (auto simp: segment_def)
    show ?thesis
    proof (cases "p = L_block")
      case True
      show ?thesis using line_block [OF ok In_Lock [unfolded True] n(1) [unfolded True] l] n(2) s' e In_Lock True
        by (simp add: line_after_def split: if_splits)
    qed (use lock_lists [OF tc n(1)] In_Lock in \<open>intro kept; simp\<close>)
  next
    case (In_Unlock p k)
    with run obtain n where n: "pthread_mutex_unlock p k here s = Some (n, s1)" "f = resume (\<lambda>p. In_Unlock p k) n" by (auto simp: segment_def)
    show ?thesis
    proof (cases "p = U_wake")
      case True
      show ?thesis using line_wake [OF ok In_Unlock [unfolded True] n(1) [unfolded True] l] n(2) s' e In_Unlock True
        by (simp add: line_after_def split: if_splits)
    qed (use unlock_lists [OF tc n(1)] In_Unlock in \<open>intro kept; simp\<close>)
  next
    case (In_Barrier p b)
    with run obtain n where "pthread_barrier_wait p b here s = Some (n, s1)" by (auto simp: segment_def)
    from barrier_lists [OF tc this] In_Barrier show ?thesis by (intro kept) simp_all
  qed
qed

lemma line_step:
  assumes ok: "sync_ok s" and step: "sync_step s e s'" and l: "line s m ts"
  shows "line s' m (line_after e (TID s) m ts)" "e = Segment (In_Unlock U_wake m) \<Longrightarrow> ts \<noteq> [] \<and> st s' (hd ts) = TS_READY"
proof -
  note ok' = sync_step_ok [OF ok step]
  have "line s' m (line_after e (TID s) m ts) \<and> (e = Segment (In_Unlock U_wake m) \<longrightarrow> ts \<noteq> [] \<and> st s' (hd ts) = TS_READY)"
    using step
  proof cases
    case (run_segment here f s1)
    show ?thesis by (rule line_segment [OF ok l run_segment(3,2) ok' run_segment(1)])
  next
    case (make_call r f)
    have "lists_kept s s'" by (simp add: make_call(2))
    from line_stays [OF ok' l this] make_call(1) show ?thesis by (simp add: line_after_def)
  next
    case (take_alarm here buf)
    from line_stays [OF ok' l lists_kept_schedule [OF sync_okD(1) [OF ok] take_alarm(4)]] take_alarm(1)
    show ?thesis by (simp add: line_after_def)
  qed
  then show "line s' m (line_after e (TID s) m ts)" "e = Segment (In_Unlock U_wake m) \<Longrightarrow> ts \<noteq> [] \<and> st s' (hd ts) = TS_READY"
    by blast+
qed

definition wakes :: "nat \<Rightarrow> event list \<Rightarrow> nat" where
  "wakes m es = length (filter (\<lambda>e. e = Segment (In_Unlock U_wake m)) es)"

lemma wakes_snoc: "wakes m (es @ [e]) = wakes m es + (if e = Segment (In_Unlock U_wake m) then 1 else 0)"
  by (simp add: wakes_def)

text \<open>After \<open>n\<close> wake-ups the first \<open>n\<close> threads have left the line; newcomers are behind the others.\<close>

lemma line_trace:
  assumes ok: "sync_ok s0" and l: "line s0 m ts"
  shows "sync_trace s0 es s \<Longrightarrow> wakes m es \<le> length ts \<Longrightarrow> \<exists>us. line s m (drop (wakes m es) ts @ us)"
proof (induction rule: sync_trace.induct)
  case start
  then show ?case using l by (intro exI [of _ "[]"]) (simp add: wakes_def)
next
  case (step es s e s')
  have ok': "sync_ok s" by (rule sync_trace_ok [OF step.hyps(1) ok])
  from step.IH step.prems obtain us where us: "line s m (drop (wakes m es) ts @ us)" by (auto simp: wakes_snoc split: if_splits)
  note n = line_step [OF ok' step.hyps(2) us]
  show ?case
  proof (cases "e = Segment (In_Unlock U_wake m)")
    case True
    then have "wakes m es < length ts" using step.prems by (simp add: wakes_snoc)
    then show ?thesis using n(1) True by (auto simp: wakes_snoc line_after_def tl_drop drop_Suc)
  next
    case False
    then show ?thesis using n(1) by (auto simp: wakes_snoc line_after_def split: if_splits)
  qed
qed

text \<open>C11. Waiting threads are woken in the order in which they came, in every interleaving: the thread
  with \<open>k\<close> others before it in the wait list of a mutex stays blocked in its
  \<open>pthread_mutex_lock\<close> while \<open>k\<close> threads are woken, whatever threads join the list behind it, and the
  next wake-up makes it ready.\<close>

theorem fifo_wakeup:
  assumes "sync_ok s0" "line s0 m ts" "k < length ts" "sync_trace s0 es s"
  shows "(wakes m es \<le> k \<longrightarrow> waits s m (ts ! k)) \<and>
    (\<forall>s'. wakes m es = k \<longrightarrow> sync_step s (Segment (In_Unlock U_wake m)) s' \<longrightarrow> st s' (ts ! k) = TS_READY)"
proof -
  have ok: "sync_ok s" by (rule sync_trace_ok [OF assms(4,1)])
  have l: "\<exists>us. line s m (drop (wakes m es) ts @ us)" if "wakes m es \<le> k"
    by (rule line_trace [OF assms(1,2,4)]) (use that assms(3) in simp)
  have "waits s m (ts ! k)" if w: "wakes m es \<le> k"
  proof -
    have "drop (wakes m es) ts ! (k - wakes m es) = ts ! k" "k - wakes m es < length (drop (wakes m es) ts)" using w assms(3) by simp_all
    then have "ts ! k \<in> set (drop (wakes m es) ts)" by (metis nth_mem)
    with l [OF w] show ?thesis using line_waits by fastforce
  qed
  moreover have "st s' (ts ! k) = TS_READY" if w: "wakes m es = k" and st: "sync_step s (Segment (In_Unlock U_wake m)) s'" for s'
  proof -
    obtain us where us: "line s m (drop k ts @ us)" using l w by auto
    moreover have "hd (drop k ts @ us) = ts ! k" using assms(3) by (simp add: hd_drop_conv_nth)
    ultimately show ?thesis using line_step(2) [OF ok st us] by simp
  qed
  ultimately show ?thesis by blast
qed

theorem fifo_wakeup_witness:
  "\<exists>s'. sync_step demo_wait (Segment (In_Unlock U_wake 1)) s' \<and> st demo_wait 1 = TS_BLOCKED \<and> st s' 1 = TS_READY"
proof -
  have l: "line demo_wait 1 [1]" using demo_wait_ok(2) by (auto simp: line_def demo_wait_def threads_at_def intro!: exI [of _ "[5]"])
  note f = fifo_wakeup [OF demo_wait_ok(1) l _ sync_trace.start, of 0]
  obtain n s1 where "pthread_mutex_unlock U_wake 1 [] demo_wait = Some (n, s1)"
    using unlock_hand_off_defined [OF demo_wait_ok, of "[]"] by auto
  moreover have "pcs demo_wait (TID demo_wait) = In_Unlock U_wake 1" by (simp add: demo_wait_def demo_sel)
  ultimately obtain s' where "sync_step demo_wait (Segment (In_Unlock U_wake 1)) s'"
    using sync_step.run_segment [of demo_wait "[]" "resume (\<lambda>p. In_Unlock p 1) n" s1] by (auto simp: segment_def)
  moreover have "wakes 1 [] = 0" by (simp add: wakes_def)
  ultimately show ?thesis using f by (auto simp: waits_def blocked_def)
qed

end
