(* ===== verification/Sync_Life.thy ===== *)
theory Sync_Life
  imports Sync_Inv Thread_Props
begin

text \<open>
  The whole library of Project 3: threads are created and end, mutexes and barriers are made and
  destroyed, and threads synchronise, in any order. The invariant of the threads
  (\<^verbatim>\<open>Thread_Props\<close>) and that of mutexes and barriers (\<^verbatim>\<open>Sync_Inv\<close>) hold together from the start
  of the program on.
\<close>

section \<open>The machine\<close>

text \<open>The program before its first call: nothing is allocated, every thread is outside the library.\<close>

definition sync_boot :: sync_sys where
  "sync_boot = \<lparr>TCB_Table = TCB_Table threads_boot, TID = TID threads_boot, is_first_call = is_first_call threads_boot,
     alarm = alarm threads_boot, memory = memory threads_boot, nodes = Map.empty, mcbs = Map.empty, bcbs = Map.empty,
     fresh = 1, masked = False, pcs = \<lambda>_. Done 0\<rparr>"

text \<open>A call that is not interrupted is one step of the thread that makes it. The thread that
  \<open>pthread_create\<close> makes starts outside the library.\<close>

inductive life_step :: "machine \<Rightarrow> sync_sys \<Rightarrow> sync_sys \<Rightarrow> bool" for mc where
  synchronise: "sync_step s e s' \<Longrightarrow> life_step mc s s'"
| create: "pcs s (TID s) = Done r \<Longrightarrow> pthread_create mc cpu f arg s = Some (Some t, Jump buf s') \<Longrightarrow>
     life_step mc s (s'\<lparr>pcs := (pcs s')(TID s := Done 0, t := Done 0)\<rparr>)"
| exit: "pcs s (TID s) = Done r \<Longrightarrow> pthread_exit s = Some (Jump buf s') \<Longrightarrow> life_step mc s s'"
| mutex_init: "pcs s (TID s) = Done r \<Longrightarrow> pthread_mutex_init s = (v, m, s') \<Longrightarrow> life_step mc s s'"
| mutex_destroy: "pcs s (TID s) = Done r \<Longrightarrow> pthread_mutex_destroy m s = Some (v, s') \<Longrightarrow> life_step mc s s'"
| barrier_init: "pcs s (TID s) = Done r \<Longrightarrow> pthread_barrier_init n s = (v, b, s') \<Longrightarrow> life_step mc s s'"
| barrier_destroy: "pcs s (TID s) = Done r \<Longrightarrow> pthread_barrier_destroy b s = Some (v, s') \<Longrightarrow> life_step mc s s'"

inductive life_run :: "machine \<Rightarrow> sync_sys \<Rightarrow> bool" for mc where
  life_boot: "life_run mc sync_boot"
| life_next: "life_run mc s \<Longrightarrow> life_step mc s s' \<Longrightarrow> life_run mc s'"


section \<open>The invariant\<close>

text \<open>Nothing lives at the addresses that \<open>malloc\<close> has not yet given out.\<close>

definition blocks_ok :: "'a sync_scheme \<Rightarrow> bool" where
  "blocks_ok s \<longleftrightarrow> (\<forall>a. fresh s \<le> a \<longrightarrow> mcbs s a = None \<and> bcbs s a = None)"

text \<open>Every slot holds its own id, and no thread but the current one is marked as running. The
  current thread may already be marked as blocked.\<close>

definition slots_ok :: "'a threads_scheme \<Rightarrow> bool" where
  "slots_ok s \<longleftrightarrow> (\<forall>i<MAX_THREADS. tid (TCB_Table s ! i) = i \<and> (st s i = TS_RUNNING \<longrightarrow> i = TID s))"

definition life_ok :: "sync_sys \<Rightarrow> bool" where
  "life_ok s \<longleftrightarrow> tcbs_ok s \<and> \<not> masked s \<and> nodes_ok s \<and> queues_ok s \<and> barriers_ok s \<and> blocks_ok s \<and>
     (if is_first_call s then threads_ok s \<and> (\<forall>t. \<exists>r. pcs s t = Done r) else current_ok s \<and> slots_ok s)"

lemma life_ok_started: "\<not> is_first_call s \<Longrightarrow> life_ok s \<longleftrightarrow> sync_ok s \<and> blocks_ok s \<and> slots_ok s"
  by (auto simp: life_ok_def sync_ok_def)

lemma life_okD:
  assumes "life_ok s"
  shows "tcbs_ok s" "\<not> masked s" "nodes_ok s" "queues_ok s" "barriers_ok s" "blocks_ok s"
  using assms by (simp_all add: life_ok_def)

text \<open>A thread outside the library is running, so that the invariant of the threads holds too.\<close>

lemma life_threads_ok:
  assumes "life_ok s" "pcs s (TID s) = Done r"
  shows "threads_ok s"
  using assms by (auto simp: life_ok_def threads_ok_def one_running_def slots_ok_def current_ok_def split: if_splits)


section \<open>What synchronisation leaves alone\<close>

text \<open>Synchronising threads allocates and frees no mutex and no barrier, keeps the ids, and marks
  no other thread than the current one as running.\<close>

definition calm :: "'a sync_scheme \<Rightarrow> 'a sync_scheme \<Rightarrow> bool" where
  "calm s s' \<longleftrightarrow> is_first_call s' = is_first_call s \<and> dom (mcbs s') = dom (mcbs s) \<and> dom (bcbs s') = dom (bcbs s) \<and>
     fresh s \<le> fresh s' \<and> (\<forall>i<MAX_THREADS. tid (TCB_Table s' ! i) = tid (TCB_Table s ! i)) \<and>
     (\<forall>i<MAX_THREADS. i \<noteq> TID s' \<longrightarrow> st s' i = TS_RUNNING \<longrightarrow> i \<noteq> TID s \<and> st s i = TS_RUNNING)"

lemma calm_refl [simp]: "calm s s"
  by (simp add: calm_def)

lemma calm_trans: "calm s1 s2 \<Longrightarrow> calm s2 s3 \<Longrightarrow> calm s1 s3"
  unfolding calm_def by (metis (no_types, lifting) order_trans)

lemma calm_inv:
  assumes "calm s s'" "slots_ok s" "blocks_ok s"
  shows "slots_ok s'" "blocks_ok s'"
proof -
  show "slots_ok s'" using assms(1,2) unfolding calm_def slots_ok_def by metis
  have "mcbs s' a = None \<and> bcbs s' a = None" if "fresh s' \<le> a" for a
    using assms(1,3) that unfolding calm_def blocks_ok_def by (metis domIff order_trans)
  then show "blocks_ok s'" by (simp add: blocks_ok_def)
qed

lemma calm_schedule:
  fixes s :: "'a sync_scheme"
  assumes ok: "tcbs_ok s" and run: "schedule here s = Some (buf, s')"
  shows "calm s s'"
proof -
  note fr = schedule_frame [OF ok run] and sch = schedule_step [OF ok run]
  have "i \<noteq> TID s \<and> st s i = TS_RUNNING" if "i < MAX_THREADS" "i \<noteq> TID s'" "st s' i = TS_RUNNING" for i
    using sch(4) [OF that(1)] that by (auto simp: yielded_def split: if_splits)
  then show ?thesis using fr sch by (simp add: calm_def)
qed

lemma calm_set_status:
  fixes s :: "'a sync_scheme"
  assumes "set_status t v s = Some s'" "v \<noteq> TS_RUNNING" "tcbs_ok s"
  shows "calm s s'" "tcbs_ok s'"
  using assms by (auto simp: calm_def tcbs_ok_def set_status_def bind_eq_Some_conv array_get_def nth_list_update split: if_splits)

lemma calm_lists:
  fixes s s' :: "'a sync_scheme"
  shows "insert_tail q t s = Some (q', s') \<Longrightarrow> calm s s' \<and> mcbs s' = mcbs s"
    "get_head q s = Some (t, q', s') \<Longrightarrow> calm s s' \<and> mcbs s' = mcbs s \<and> TCB_Table s' = TCB_Table s \<and> TID s' = TID s"
  by (auto simp: calm_def insert_tail_def get_head_def Let_def bind_eq_Some_conv split: prod.splits if_splits)

lemma calm_upd [simp]:
  "calm s (lock s') = calm s s'" "calm s (unlock s') = calm s s'" "calm (lock s) s' = calm s s'"
  "mcbs s' = M \<Longrightarrow> M m \<noteq> None \<Longrightarrow> calm s (s'\<lparr>mcbs := M(m \<mapsto> b)\<rparr>) = calm s s'"
  "bcbs s' = N \<Longrightarrow> N c \<noteq> None \<Longrightarrow> calm s (s'\<lparr>bcbs := N(c \<mapsto> B)\<rparr>) = calm s s'"
  by (auto simp: calm_def lock_def unlock_def insert_absorb domIff)

lemma calm_pcs [simp]: "calm s (s'\<lparr>pcs := f\<rparr>) = calm s s'"
  by (simp add: calm_def)

lemma masking_sel [simp]:
  "TCB_Table (lock s) = TCB_Table s" "TID (lock s) = TID s" "mcbs (lock s) = mcbs s" "bcbs (lock s) = bcbs s"
  "tcbs_ok (lock s) = tcbs_ok s"
  by (simp_all add: lock_def tcbs_ok_def)

lemma set_status_sel:
  "set_status t v s = Some s' \<Longrightarrow> mcbs s' = mcbs s \<and> bcbs s' = bcbs s \<and> TID s' = TID s"
  by (auto simp: set_status_def bind_eq_Some_conv)

lemma lock_calm:
  fixes s s1 :: "'a sync_scheme"
  assumes ok: "tcbs_ok s" and run: "pthread_mutex_lock p m here s = Some (n, s1)"
  shows "calm s s1"
proof (cases p)
  case L_block
  with run obtain sa MCB l t sb where r: "set_status (TID s) TS_BLOCKED (lock s) = Some sa" "mcbs sa m = Some MCB"
      "insert_tail (wait_list MCB, wait_list_tail MCB) (TID sa) sa = Some ((l, t), sb)"
      "s1 = unlock (sb\<lparr>mcbs := (mcbs sb)(m \<mapsto> MCB\<lparr>wait_list := l, wait_list_tail := t\<rparr>)\<rparr>)"
    by (auto simp: bind_eq_Some_conv)
  have "calm s sa" using calm_set_status(1) [OF r(1)] ok by simp
  moreover have "calm sa sb" "mcbs sb m \<noteq> None" using calm_lists(1) [OF r(3)] r(2) by auto
  ultimately show ?thesis unfolding r(4) by (simp add: calm_trans)
qed (use run calm_schedule [OF ok] in \<open>auto simp: bind_eq_Some_conv Let_def\<close>)

lemma unlock_calm:
  fixes s s1 :: "'a sync_scheme"
  assumes ok: "tcbs_ok s" and run: "pthread_mutex_unlock p m here s = Some (n, s1)"
  shows "calm s s1"
proof (cases p)
  case U_wake
  with run obtain MCB u l t sa sb where r: "mcbs (lock s) m = Some MCB"
      "get_head (wait_list MCB, wait_list_tail MCB) (lock s) = Some (u, (l, t), sa)"
      "set_status u TS_READY (sa\<lparr>mcbs := (mcbs sa)(m \<mapsto> MCB\<lparr>mstate := UNLOCKED, wait_list := l, wait_list_tail := t\<rparr>)\<rparr>) = Some sb"
      "s1 = unlock sb"
    by (auto simp: bind_eq_Some_conv Let_def)
  let ?sa = "sa\<lparr>mcbs := (mcbs sa)(m \<mapsto> MCB\<lparr>mstate := UNLOCKED, wait_list := l, wait_list_tail := t\<rparr>)\<rparr>"
  have g: "calm s sa" "mcbs sa m \<noteq> None" "tcbs_ok ?sa" using calm_lists(2) [OF r(2)] r(1) ok by (auto simp: tcbs_ok_def)
  then have "calm s ?sa" by simp
  moreover have "calm ?sa sb" by (rule calm_set_status(1) [OF r(3) _ g(3)]) simp
  ultimately show ?thesis unfolding r(4) by (simp add: calm_trans)
qed (use run calm_schedule [OF ok] in \<open>auto simp: bind_eq_Some_conv Let_def\<close>)

lemma barrier_calm:
  fixes s s1 :: "'a sync_scheme"
  assumes ok: "tcbs_ok s" and run: "pthread_barrier_wait p b here s = Some (n, s1)"
  shows "calm s s1"
proof (cases p)
  case B_block
  with run obtain sa BCB where r: "set_status (TID s) TS_BLOCKED (lock s) = Some sa" "bcbs sa b = Some BCB"
      "s1 = unlock (sa\<lparr>bcbs := (bcbs sa)(b \<mapsto> BCB\<lparr>calling_thread := TID sa, flag := 1\<rparr>)\<rparr>)"
    by (auto simp: bind_eq_Some_conv)
  have "calm s sa" using calm_set_status(1) [OF r(1)] ok by simp
  then show ?thesis unfolding r(3) using r(2) by simp
next
  case B_release
  show ?thesis
  proof (cases "\<exists>B. bcbs s b = Some B \<and> flag B = 1")
    case True
    then obtain B where B: "bcbs (lock s) b = Some B" "flag B = 1" by auto
    let ?sa = "(lock s)\<lparr>bcbs := (bcbs (lock s))(b \<mapsto> B\<lparr>flag := 0\<rparr>)\<rparr>"
    from B run B_release obtain sb where r: "set_status (calling_thread B) TS_READY ?sa = Some sb" "s1 = unlock sb"
      by (auto simp: bind_eq_Some_conv Let_def)
    have sa: "calm s ?sa" using B(1) by simp
    have ta: "tcbs_ok ?sa" using ok by (simp add: tcbs_ok_def)
    have "calm ?sa sb" by (rule calm_set_status(1) [OF r(1) _ ta]) simp
    with sa show ?thesis unfolding r(2) by (simp add: calm_trans)
  qed (use run B_release in \<open>auto simp: bind_eq_Some_conv Let_def\<close>)
qed (use run calm_schedule [OF ok] in \<open>auto simp: bind_eq_Some_conv split: if_splits\<close>)

lemma segment_calm:
  assumes ok: "tcbs_ok s" and run: "segment f here s = Some (g, s1)"
  shows "calm s s1"
  using run lock_calm [OF ok] unlock_calm [OF ok] barrier_calm [OF ok]
  by (auto simp: segment_def split: frame.splits)

lemma sync_step_calm:
  assumes ok: "tcbs_ok s" and step: "sync_step s e s'"
  shows "calm s s'"
  using step by cases (use segment_calm [OF ok] calm_schedule [OF ok] in auto)

section \<open>Creating and ending threads\<close>

lemma threads_ok_started: "threads_ok s \<Longrightarrow> \<not> is_first_call s \<Longrightarrow> tcbs_ok s \<and> slots_ok s \<and> st s (TID s) = TS_RUNNING"
  by (auto simp: threads_ok_def one_running_def slots_ok_def tcbs_ok_def)

lemma life_ok_switch:
  assumes ok: "life_ok s" and t: "threads_ok s'" "\<not> is_first_call s'"
    and same: "nodes s' = nodes s" "mcbs s' = mcbs s" "bcbs s' = bcbs s" "fresh s' = fresh s" "masked s' = masked s"
    and w: "\<And>t. blocked s t \<Longrightarrow> blocked s' t \<and> pcs s' t = pcs s t"
  shows "life_ok s'"
proof -
  note D = life_okD [OF ok]
  have "queues_ok s'" by (rule queues_ok_mono [OF D(4) same(1)]) (use w in \<open>auto simp: same waits_def\<close>)
  moreover have "barriers_ok s'" by (rule barriers_ok_mono [OF D(5) same(3)]) (rule w)
  moreover have "nodes_ok s'" "blocks_ok s'" using D(3,6) by (simp_all add: nodes_ok_def blocks_ok_def same)
  ultimately show ?thesis using t threads_ok_started [OF t] D(2) same(5) by (simp add: life_ok_def current_ok_def)
qed

lemma create_init_sel:
  fixes s :: sync_sys
  shows "nodes (create_init here s) = nodes s" "mcbs (create_init here s) = mcbs s" "bcbs (create_init here s) = bcbs s"
    "fresh (create_init here s) = fresh s" "masked (create_init here s) = masked s" "pcs (create_init here s) = pcs s"
  by (simp_all add: create_init_def scheduler_init_def Let_def)

lemma create_frame:
  fixes s s' :: sync_sys
  assumes ok: "threads_ok s" and run: "pthread_create mc cpu f arg s = Some (Some t, Jump buf s')"
  shows "nodes s' = nodes s" "mcbs s' = mcbs s" "bcbs s' = bcbs s" "fresh s' = fresh s" "masked s' = masked s" "pcs s' = pcs s"
    "blocked s i = blocked s' i" "t < MAX_THREADS" "t \<noteq> TID s" "\<not> blocked s t" "\<not> is_first_call s'"
proof -
  note c = create_step [OF ok run] and i0 = create_init_ok [OF ok, where here = "cpu Main_setjmp"]
  note fr = schedule_frame [OF c(7,6)]
  show "nodes s' = nodes s" "mcbs s' = mcbs s" "bcbs s' = bcbs s" "fresh s' = fresh s" "masked s' = masked s" "pcs s' = pcs s"
    using fr schedule_pcs [OF c(7,6)] by (simp_all add: create_init_sel)
  show "t < MAX_THREADS" "t \<noteq> TID s" by (rule c)+
  show "\<not> is_first_call s'" by (rule create_free_slots(1) [OF ok run])
  have first: "st s j = TS_EXITED" if "is_first_call s" "j < MAX_THREADS" for j
    using ok that by (simp add: threads_ok_def)
  show nt: "\<not> blocked s t" using c(5) i0(6) [OF c(3)] first by (auto simp: blocked_def split: if_splits)
  show "blocked s i = blocked s' i"
  proof (cases "i < MAX_THREADS")
    case True
    then have "blocked s i = blocked ((create_init (cpu Main_setjmp) s)\<lparr>TCB_Table := (TCB_Table (create_init (cpu Main_setjmp) s))
        [t := new_tcb mc (cpu New_setjmp) f arg t], memory := (memory (create_init (cpu Main_setjmp) s))
        (stack (new_tcb mc (cpu New_setjmp) f arg t) + THREAD_STACK_SIZE - 8 \<mapsto> return_save_addr mc)\<rparr>) i"
      using c(9) [OF True] i0(6) [OF True] first [OF _ True] nt by (auto simp: blocked_def)
    with fr(6) [of i] show ?thesis by simp
  qed (simp add: blocked_def)
qed

lemma exit_frame:
  fixes s s' :: sync_sys
  assumes ok: "threads_ok s" and run: "pthread_exit s = Some (Jump buf s')"
  shows "nodes s' = nodes s" "mcbs s' = mcbs s" "bcbs s' = bcbs s" "fresh s' = fresh s" "masked s' = masked s" "pcs s' = pcs s"
    "blocked s i = blocked s' i" "\<not> is_first_call s'" "threads_ok s'"
proof -
  have nf: "\<not> is_first_call s" using exit_first [OF ok] run by auto
  note e = exit_step [OF ok nf]
  from run e(1) obtain
    r: "schedule [] (s\<lparr>TCB_Table := (TCB_Table s)[TID s := (TCB_Table s ! TID s)\<lparr>status := TS_EXITED\<rparr>]\<rparr>) = Some (buf, s')"
    by (auto split: if_splits)
  note fr = schedule_frame [OF e(2) r]
  show "nodes s' = nodes s" "mcbs s' = mcbs s" "bcbs s' = bcbs s" "fresh s' = fresh s" "masked s' = masked s" "pcs s' = pcs s"
    using fr schedule_pcs [OF e(2) r] by simp_all
  show "\<not> is_first_call s'" "threads_ok s'" using schedule_step(6) [OF e(2) r] nf e(5) [OF r] by simp_all
  show "blocked s i = blocked s' i"
    using fr(6) [of i] e(4) [of i] threads_ok_started [OF ok nf] by (auto simp: blocked_def split: if_splits)
qed


section \<open>Making and destroying mutexes and barriers\<close>

lemma life_ok_heap:
  assumes ok: "life_ok s" and s': "s' = s\<lparr>fresh := n, mcbs := M, bcbs := N\<rparr>" "fresh s \<le> n"
    and m: "\<And>m b. M m = Some b \<Longrightarrow> m < n \<and> (mcbs s m = Some b \<or> wait_list b = 0)"
    and b: "\<And>b B. N b = Some B \<Longrightarrow> b < n \<and> (bcbs s b = Some B \<or> flag B \<noteq> 1)"
  shows "life_ok s'"
proof -
  note D = life_okD [OF ok]
  have w: "waits s' m t = waits s m t" "blocked s' t = blocked s t" for m t by (simp_all add: s' waits_def blocked_def)
  have "\<exists>ps. queue_of s' k ps" if k: "mcbs s' k \<noteq> None" for k
  proof -
    obtain v where v: "M k = Some v" using k by (auto simp: s')
    show ?thesis
    proof (cases "mcbs s k = Some v")
      case True
      then obtain ps where "queue_of s k ps" using D(4) by (auto simp: queues_ok_def)
      with True v w show ?thesis by (intro exI [of _ ps]) (simp add: queue_of_def s')
    next
      case False
      then have "queue_of s' k []" using m [OF v] v by (simp add: queue_of_def lrep_def threads_at_def s')
      then show ?thesis ..
    qed
  qed
  then have "queues_ok s'" by (simp add: queues_ok_def)
  moreover have "barriers_ok s'" using D(5) b unfolding barriers_ok_def w(2) by (auto simp: s')
  moreover have "M a = None \<and> N a = None" if "n \<le> a" for a using m [of a] b [of a] that by (cases "M a"; cases "N a"; force)
  then have "blocks_ok s'" by (simp add: blocks_ok_def s')
  moreover have "nodes_ok s'" using D(3) s'(2) by (simp add: nodes_ok_def s'(1))
  moreover have "tcbs_ok s' = tcbs_ok s" "threads_ok s' = threads_ok s" "current_ok s' = current_ok s" "slots_ok s' = slots_ok s"
    "is_first_call s' = is_first_call s" "pcs s' = pcs s" "masked s' = masked s"
    by (simp_all add: s'(1) tcbs_ok_def threads_ok_def current_ok_def slots_ok_def one_running_def)
  ultimately show ?thesis using ok by (simp add: life_ok_def)
qed

lemma blocks_below: "blocks_ok s \<Longrightarrow> mcbs s a = Some b \<Longrightarrow> a < fresh s" "blocks_ok s \<Longrightarrow> bcbs s a = Some B \<Longrightarrow> a < fresh s"
  unfolding blocks_ok_def by (metis not_le option.distinct(1))+

lemma mutex_calls_ok:
  assumes ok: "life_ok s"
  shows "pthread_mutex_init s = (v, m, s') \<Longrightarrow> life_ok s'" "pthread_mutex_destroy m s = Some (v, s') \<Longrightarrow> life_ok s'"
proof -
  note bl = blocks_below [OF life_okD(6) [OF ok]]
  assume "pthread_mutex_init s = (v, m, s')"
  then have s': "s' = s\<lparr>fresh := fresh s + 1, mcbs := (mcbs s)(fresh s \<mapsto> \<lparr>mstate = UNLOCKED, wait_list = 0, wait_list_tail = 0\<rparr>), bcbs := bcbs s\<rparr>"
    by (auto simp: pthread_mutex_init_def Let_def)
  show "life_ok s'" by (rule life_ok_heap [OF ok s']) (use bl in \<open>auto simp: less_Suc_eq split: if_splits\<close>)
next
  note bl = blocks_below [OF life_okD(6) [OF ok]]
  assume "pthread_mutex_destroy m s = Some (v, s')"
  then have "s' = s \<or> s' = s\<lparr>fresh := fresh s, mcbs := (mcbs s)(m := None), bcbs := bcbs s\<rparr>"
    by (auto simp: pthread_mutex_destroy_def bind_eq_Some_conv split: if_splits)
  then show "life_ok s'"
  proof
    assume s': "s' = s\<lparr>fresh := fresh s, mcbs := (mcbs s)(m := None), bcbs := bcbs s\<rparr>"
    show ?thesis by (rule life_ok_heap [OF ok s']) (use bl in \<open>auto split: if_splits\<close>)
  qed (use ok in simp)
qed

lemma barrier_calls_ok:
  assumes ok: "life_ok s"
  shows "pthread_barrier_init n s = (v, b, s') \<Longrightarrow> life_ok s'" "pthread_barrier_destroy b' s = Some (v, s') \<Longrightarrow> life_ok s'"
proof -
  note bl = blocks_below [OF life_okD(6) [OF ok]]
  assume "pthread_barrier_init n s = (v, b, s')"
  then have "s' = s \<or> s' = s\<lparr>fresh := fresh s + 1, mcbs := mcbs s,
      bcbs := (bcbs s)(fresh s \<mapsto> \<lparr>init = 1, flag = 0, calling_thread = 2 ^ 64 - 1, count = n, left = n\<rparr>)\<rparr>"
    by (auto simp: pthread_barrier_init_def Let_def split: if_splits)
  then show "life_ok s'"
  proof
    assume s': "s' = s\<lparr>fresh := fresh s + 1, mcbs := mcbs s,
      bcbs := (bcbs s)(fresh s \<mapsto> \<lparr>init = 1, flag = 0, calling_thread = 2 ^ 64 - 1, count = n, left = n\<rparr>)\<rparr>"
    show ?thesis by (rule life_ok_heap [OF ok s']) (use bl in \<open>auto simp: less_Suc_eq split: if_splits\<close>)
  qed (use ok in simp)
next
  note bl = blocks_below [OF life_okD(6) [OF ok]]
  assume "pthread_barrier_destroy b' s = Some (v, s')"
  then have "s' = s \<or> s' = s\<lparr>fresh := fresh s, mcbs := mcbs s, bcbs := (bcbs s)(b' := None)\<rparr>"
    by (auto simp: pthread_barrier_destroy_def bind_eq_Some_conv split: if_splits)
  then show "life_ok s'"
  proof
    assume s': "s' = s\<lparr>fresh := fresh s, mcbs := mcbs s, bcbs := (bcbs s)(b' := None)\<rparr>"
    show ?thesis by (rule life_ok_heap [OF ok s']) (use bl in \<open>auto split: if_splits\<close>)
  qed (use ok in simp)
qed


section \<open>Every step\<close>

text \<open>Before the first thread is created no thread can block, and the alarm is not set.\<close>

lemma sync_step_started:
  assumes ok: "life_ok s" and step: "sync_step s e s'"
  shows "\<not> is_first_call s"
proof
  assume "is_first_call s"
  then obtain r where f: "\<not> alarm s" "pcs s (TID s) = Done r" "st s (TID s) = TS_EXITED"
    using ok by (auto simp: life_ok_def threads_ok_def tcbs_ok_def)
  from step show False by cases (use f in \<open>auto simp: segment_def\<close>)
qed

lemma life_step_ok:
  assumes ok: "life_ok s" and step: "life_step mc s s'"
  shows "life_ok s'"
  using step
proof cases
  case (synchronise e)
  note nf = sync_step_started [OF ok synchronise]
  then have w: "sync_ok s" "blocks_ok s" "slots_ok s" using ok life_ok_started by blast+
  note c = sync_step_calm [OF sync_okD(1) [OF w(1)] synchronise]
  have "\<not> is_first_call s'" using c nf by (simp add: calm_def)
  with calm_inv [OF c w(3,2)] sync_step_ok [OF w(1) synchronise] show ?thesis by (simp add: life_ok_started)
next
  case (create r cpu f arg t buf s1)
  note to = life_threads_ok [OF ok create(2)]
  note c = create_frame [OF to create(3)]
  have nb: "\<not> blocked s (TID s)"
    using to threads_ok_started [OF to] by (cases "is_first_call s") (auto simp: blocked_def threads_ok_def)
  have "threads_ok s'" using create_step(10) [OF to create(3)] c(11) unfolding create(1)
    by (simp add: threads_ok_def tcbs_ok_def one_running_def)
  then show ?thesis
    by (rule life_ok_switch [OF ok]) (use c nb in \<open>auto simp: create(1) blocked_def\<close>)
next
  case (exit r buf)
  note to = life_threads_ok [OF ok exit(1)]
  show ?thesis by (rule life_ok_switch [OF ok]) (use exit_frame [OF to exit(2)] in auto)
qed (use mutex_calls_ok [OF ok] barrier_calls_ok [OF ok] in blast)+

lemma sync_boot_ok: "life_ok sync_boot"
proof -
  have "threads_ok sync_boot" using boot_ok by (simp add: threads_ok_def tcbs_ok_def sync_boot_def threads_boot_def)
  then show ?thesis
    by (simp add: life_ok_def queues_ok_def barriers_ok_def blocks_ok_def nodes_ok_def threads_ok_def sync_boot_def threads_boot_def)
qed

lemma life_run_ok: "life_run mc s \<Longrightarrow> life_ok s"
  by (induction rule: life_run.induct) (auto intro: sync_boot_ok life_step_ok)

end
