(* ===== verification/Library_Props.thy ===== *)
theory Library_Props
  imports Sync_Life Sync_Props
begin

text \<open>
  The properties of the whole library of Project 3: what holds in every state that a program can
  reach, where a thread can come to a halt inside the library, and in which order waiting
  threads are woken.
\<close>

section \<open>Where a thread can come to a halt\<close>

text \<open>The control block that a segment reads.\<close>

definition mcb_of :: "frame \<Rightarrow> nat option" where
  "mcb_of f = (case f of
      In_Lock p m \<Rightarrow> if p \<in> {L_test, L_take, L_block} then Some m else None
    | In_Unlock p m \<Rightarrow> if p \<in> {U_test, U_free, U_wake} then Some m else None
    | _ \<Rightarrow> None)"

definition bcb_of :: "frame \<Rightarrow> nat option" where
  "bcb_of f = (case f of In_Barrier p b \<Rightarrow> if p \<in> {B_yield, B_spin, B_yield2} then None else Some b | _ \<Rightarrow> None)"

text \<open>The program has freed the control block, or has never initialised it.\<close>

definition dangling :: "sync_sys \<Rightarrow> bool" where
  "dangling s \<longleftrightarrow> (\<exists>m. mcb_of (pcs s (TID s)) = Some m \<and> mcbs s m = None) \<or> (\<exists>b. bcb_of (pcs s (TID s)) = Some b \<and> bcbs s b = None)"

text \<open>Every thread that could go on is blocked.\<close>

definition deadlock :: "sync_sys \<Rightarrow> bool" where
  "deadlock s \<longleftrightarrow> blocked s (TID s) \<and> (\<forall>i<MAX_THREADS. st s i \<noteq> TS_READY)"

lemma schedule_stuck:
  assumes ok: "sync_ok s"
  shows "schedule here s = None \<longleftrightarrow> deadlock s"
proof -
  note D = sync_okD [OF ok]
  have "schedule here s = None \<longleftrightarrow> (\<forall>i<MAX_THREADS. yielded s i \<noteq> TS_READY)" using schedule_defined [OF D(1), of here] by blast
  also have "\<dots> \<longleftrightarrow> st s (TID s) \<noteq> TS_RUNNING \<and> (\<forall>i<MAX_THREADS. st s i \<noteq> TS_READY)"
    using D(7) by (auto simp: yielded_def split: if_splits)
  also have "\<dots> \<longleftrightarrow> deadlock s" using D(6,7) by (auto simp: deadlock_def blocked_def current_ok_def)
  finally show ?thesis .
qed

lemma deadlock_running: "st s (TID s) = TS_RUNNING \<Longrightarrow> \<not> deadlock s"
  by (simp add: deadlock_def blocked_def)

lemma lock_stuck:
  assumes ok: "sync_ok s" and pc: "pcs s (TID s) = In_Lock p m"
  shows "pthread_mutex_lock p m here s = None \<longleftrightarrow> dangling s \<or> deadlock s"
proof (cases "p = L_yield")
  case True
  then show ?thesis using schedule_stuck [OF ok, of here] pc by (cases "schedule here s") (auto simp: dangling_def mcb_of_def bcb_of_def)
next
  case False
  note D = sync_okD [OF ok]
  have nd: "\<not> deadlock s" using deadlock_running [OF running_unless [OF ok]] pc False by simp
  show ?thesis
  proof (cases "p = L_block")
    case True
    obtain sa where sa: "set_status (TID s) TS_BLOCKED (lock s) = Some sa" "sa = (lock s)\<lparr>TCB_Table := TCB_Table sa\<rparr>"
      using block_step [OF D(1)] by metis
    have sel: "mcbs sa = mcbs s" "nodes sa = nodes s" "fresh sa = fresh s" by (subst sa(2), simp add: lock_def)+
    show ?thesis
    proof (cases "mcbs s m")
      case None
      then show ?thesis using True pc sa(1) by (simp add: sel dangling_def mcb_of_def)
    next
      case (Some v)
      then obtain ps where "queue_of s m ps" using D(4) by (auto simp: queues_ok_def)
      then have "lrep (nodes sa) (wait_list v, wait_list_tail v) ps" "nodes_ok sa" using Some D(3) by (auto simp: queue_of_def sel nodes_ok_def)
      then obtain q' sb where "insert_tail (wait_list v, wait_list_tail v) (TID sa) sa = Some (q', sb)"
        using insert_tail_step by metis
      then show ?thesis using True pc sa(1) Some nd by (cases q') (auto simp: sel dangling_def mcb_of_def bcb_of_def)
    qed
  qed (use False pc nd in \<open>cases p; cases "mcbs s m"; simp add: dangling_def mcb_of_def bcb_of_def Let_def\<close>)
qed

lemma unlock_stuck:
  assumes ok: "sync_ok s" and pc: "pcs s (TID s) = In_Unlock p m"
  shows "pthread_mutex_unlock p m here s = None \<longleftrightarrow> dangling s \<or> p = U_wake \<and> queue_of s m []"
proof -
  note D = sync_okD [OF ok]
  have nd: "schedule here s \<noteq> None" using schedule_stuck [OF ok] deadlock_running [OF running_unless [OF ok]] pc by simp
  show ?thesis
  proof (cases "p = U_wake")
    case True
    show ?thesis
    proof (cases "mcbs s m")
      case None
      then show ?thesis using True pc by (simp add: Let_def dangling_def mcb_of_def)
    next
      case (Some v)
      then obtain ps where q: "queue_of s m ps" using D(4) by (auto simp: queues_ok_def)
      have ndg: "\<not> dangling s" using Some True pc by (simp add: dangling_def mcb_of_def bcb_of_def)
      show ?thesis
      proof (cases ps)
        case Nil
        then have "nodes s (wait_list v) = None" using q Some D(3) by (auto simp: queue_of_def lrep_def nodes_ok_def)
        then show ?thesis using True Some q Nil by (simp add: Let_def get_head_def lock_def)
      next
        case (Cons x xs)
        have "queue_of s m (x # xs)" using q Cons by simp
        from unlock_hand_off_defined [OF ok this, of here] have "pthread_mutex_unlock U_wake m here s \<noteq> None" by blast
        moreover have "\<not> queue_of s m []" using queue_of_unique [OF q] Cons by blast
        ultimately show ?thesis unfolding True using ndg by blast
      qed
    qed
  qed (use pc nd in \<open>cases p; cases "mcbs s m"; auto simp: dangling_def mcb_of_def bcb_of_def Let_def\<close>)
qed

lemma barrier_stuck:
  assumes ok: "sync_ok s" and pc: "pcs s (TID s) = In_Barrier p b"
  shows "pthread_barrier_wait p b here s = None \<longleftrightarrow> dangling s \<or> deadlock s"
proof (cases "p = B_yield")
  case True
  then show ?thesis using schedule_stuck [OF ok, of here] pc by (cases "schedule here s") (auto simp: dangling_def mcb_of_def bcb_of_def)
next
  case False
  note D = sync_okD [OF ok]
  have nd: "\<not> deadlock s" using deadlock_running [OF running_unless [OF ok]] pc False by simp
  then have sc: "schedule here s \<noteq> None" using schedule_stuck [OF ok] by simp
  show ?thesis
  proof (cases "bcbs s b")
    case None
    obtain sa where sa: "set_status (TID s) TS_BLOCKED (lock s) = Some sa" "sa = (lock s)\<lparr>TCB_Table := TCB_Table sa\<rparr>"
      using block_step [OF D(1)] by metis
    have "bcbs sa = bcbs s" by (subst sa(2), simp)
    then show ?thesis using False None sa(1) sc nd pc
      by (cases p) (auto simp: dangling_def mcb_of_def bcb_of_def Let_def)
  next
    case (Some B)
    then have ndg: "\<not> dangling s" using pc by (auto simp: dangling_def mcb_of_def bcb_of_def split: if_splits)
    obtain sa where sa: "set_status (TID s) TS_BLOCKED (lock s) = Some sa" "sa = (lock s)\<lparr>TCB_Table := TCB_Table sa\<rparr>"
      using block_step [OF D(1)] by metis
    have sel: "bcbs sa = bcbs s" by (subst sa(2), simp)
    have "\<exists>sb. set_status (calling_thread B) TS_READY ((lock s)\<lparr>bcbs := (bcbs s)(b \<mapsto> B\<lparr>flag := 0\<rparr>)\<rparr>) = Some sb" if "flag B = 1"
    proof -
      have "calling_thread B < MAX_THREADS" using D(5) Some that by (auto simp: barriers_ok_def blocked_def)
      moreover have "tcbs_ok ((lock s)\<lparr>bcbs := (bcbs s)(b \<mapsto> B\<lparr>flag := 0\<rparr>)\<rparr>)" using D(1) by (simp add: tcbs_ok_def)
      ultimately show ?thesis using set_status_step by metis
    qed
    then have "pthread_barrier_wait p b here s \<noteq> None" using False Some sa(1) sc by (cases p) (auto simp: sel Let_def)
    with ndg nd show ?thesis by blast
  qed
qed

text \<open>C13. The library never faults by itself: in every state that a program can reach, the next segment
  of the current thread is defined, unless the thread is outside the library, or it uses a
  mutex or barrier that the program has not initialised or has freed, or every thread is
  blocked, or \<open>pthread_mutex_unlock\<close> has seen a waiting thread that another thread has
  woken before the list is read. No subscript leaves the thread table and no
  pointer of a wait list is invalid.\<close>

theorem library_progress:
  assumes "life_run mc s" "\<not> is_first_call s"
  shows "segment (pcs s (TID s)) here s = None \<longleftrightarrow>
    (\<exists>r. pcs s (TID s) = Done r) \<or> dangling s \<or> deadlock s \<or> (\<exists>m. pcs s (TID s) = In_Unlock U_wake m \<and> queue_of s m [])"
proof -
  have ok: "sync_ok s" using life_run_ok [OF assms(1)] assms(2) by (simp add: life_ok_started)
  show ?thesis
  proof (cases "pcs s (TID s)")
    case (Done r)
    then show ?thesis by (simp add: segment_def)
  next
    case (In_Lock p m)
    then show ?thesis using lock_stuck [OF ok In_Lock, of here] by (simp add: segment_def)
  next
    case (In_Unlock p m)
    then have "\<not> deadlock s" using deadlock_running [OF running_unless [OF ok]] by simp
    then show ?thesis using unlock_stuck [OF ok In_Unlock, of here] In_Unlock by (auto simp: segment_def)
  next
    case (In_Barrier p b)
    then show ?thesis using barrier_stuck [OF ok In_Barrier, of here] by (simp add: segment_def)
  qed
qed

section \<open>A program for the witnesses\<close>

text \<open>The main program makes a mutex and creates one thread, which starts to run.\<close>

lemma demo_life:
  obtains s where "life_run demo_mc s" "\<not> is_first_call s" "TID s = 1" "st s 1 = TS_RUNNING" "st s 0 = TS_READY" "alarm s"
    "mcbs s = [1 \<mapsto> \<lparr>mstate = UNLOCKED, wait_list = 0, wait_list_tail = 0\<rparr>]" "pcs s 1 = Done 0"
proof -
  let ?M = "[1 \<mapsto> \<lparr>mstate = UNLOCKED, wait_list = 0, wait_list_tail = 0\<rparr>]"
  let ?s0 = "sync_boot\<lparr>fresh := 2, mcbs := ?M\<rparr>"
  have bt: "pcs sync_boot t = Done 0" "is_first_call sync_boot" for t by (simp_all add: sync_boot_def threads_boot_def)
  have "pthread_mutex_init sync_boot = (0, 1, ?s0)" by (simp add: pthread_mutex_init_def sync_boot_def numeral_2_eq_2)
  from life_run.life_next [OF life_run.life_boot life_step.mutex_init [OF bt(1) this]] have r0: "life_run demo_mc ?s0" .
  have to: "threads_ok ?s0" by (rule life_threads_ok [OF life_run_ok [OF r0]]) (simp add: bt)
  obtain buf s where c: "pthread_create demo_mc demo_cpu 0x403000 42 ?s0 = Some (Some 1, Jump buf s)"
    "threads_ok s" "\<not> is_first_call s" "TID s = 1" "st s 0 = TS_READY" "alarm s"
    by (rule first_create [OF to, where mc = demo_mc and cpu = demo_cpu and f = "0x403000" and arg = 42]) (simp_all add: bt)
  note fr = create_frame [OF to c(1)]
  have "life_run demo_mc (s\<lparr>pcs := (pcs s)(TID ?s0 := Done 0, 1 := Done 0)\<rparr>)"
    by (rule life_run.life_next [OF r0 life_step.create [OF _ c(1)]]) (simp add: bt)
  then show ?thesis by (rule that) (use c fr threads_ok_started [OF c(2,3)] in simp_all)
qed

theorem library_progress_witness:
  "\<exists>s. life_run demo_mc s \<and> pcs s (TID s) = In_Lock L_test 1 \<and> segment (pcs s (TID s)) [] s \<noteq> None"
proof -
  obtain s where s: "life_run demo_mc s" "\<not> is_first_call s" "TID s = 1" "st s 1 = TS_RUNNING"
    "mcbs s = [1 \<mapsto> \<lparr>mstate = UNLOCKED, wait_list = 0, wait_list_tail = 0\<rparr>]" "pcs s 1 = Done 0"
    by (rule demo_life)
  let ?s = "s\<lparr>pcs := (pcs s)(1 := In_Lock L_test 1)\<rparr>"
  have "sync_step s (Call (In_Lock L_test 1)) ?s" using sync_step.make_call [of s 0 "In_Lock L_test 1"] s by (simp add: calls_def)
  then have r: "life_run demo_mc ?s" by (rule life_run.life_next [OF s(1) life_step.synchronise])
  have "\<not> dangling ?s" "\<not> deadlock ?s" using s by (simp_all add: dangling_def mcb_of_def bcb_of_def deadlock_running)
  then have "segment (pcs ?s (TID ?s)) [] ?s \<noteq> None" using library_progress [OF r, of "[]"] s(2,3) by simp
  with r s(3) show ?thesis by (intro exI [of _ ?s]) simp
qed

text \<open>C3. In every state that a program can reach with the whole library, from its start, through
  any creations and endings of threads, initialisations and destructions, calls and alarms:
  the wait lists are well-formed queues of distinct threads blocked in the mutex, every thread a
  barrier is to wake is blocked in it, the alarm is not left masked, every slot of the
  table holds its own id, and no thread but the current one is marked as running.\<close>

theorem library_invariant:
  assumes "life_run mc s" "\<not> is_first_call s"
  shows "sync_ok s \<and> (\<forall>i<MAX_THREADS. tid (TCB_Table s ! i) = i \<and> (st s i = TS_RUNNING \<longrightarrow> i = pthread_self s))"
  using life_run_ok [OF assms(1)] assms(2) by (simp add: life_ok_started slots_ok_def pthread_self_def)

theorem library_invariant_witness:
  "\<exists>s. life_run demo_mc s \<and> mcbs s 1 \<noteq> None \<and> st s 0 = TS_READY \<and> sync_ok s \<and> tid (TCB_Table s ! 1) = 1"
proof -
  obtain s where s: "life_run demo_mc s" "\<not> is_first_call s" "st s 0 = TS_READY"
    "mcbs s = [1 \<mapsto> \<lparr>mstate = UNLOCKED, wait_list = 0, wait_list_tail = 0\<rparr>]"
    by (rule demo_life)
  with library_invariant [OF s(1,2)] show ?thesis by (intro exI [of _ s]) (simp add: MAX_THREADS_def)
qed

end
