(* ===== verification/Sync_Mutex.thy ===== *)
theory Sync_Mutex
  imports Sync_Wake Library_Props
begin

text \<open>
  When a mutex excludes: as long as the alarm does not come between the test and the update
  of its state, a mutex is held at most once. And what goes wrong when the alarm does come there.
\<close>

section \<open>Acquisitions and releases\<close>

definition takes :: "nat \<Rightarrow> event list \<Rightarrow> nat" where
  "takes m es = length (filter (\<lambda>e. e = Segment (In_Lock L_take m)) es)"

definition releases :: "nat \<Rightarrow> event list \<Rightarrow> nat" where
  "releases m es = length (filter (\<lambda>e. e = Segment (In_Unlock U_free m) \<or> e = Segment (In_Unlock U_wake m)) es)"

lemma counts_snoc:
  "takes m (es @ [e]) = takes m es + (if e = Segment (In_Lock L_take m) then 1 else 0)"
  "releases m (es @ [e]) = releases m es + (if e = Segment (In_Unlock U_free m) \<or> e = Segment (In_Unlock U_wake m) then 1 else 0)"
  by (simp_all add: takes_def releases_def)

text \<open>The thread has tested the mutex and not yet masked the alarm, or is about to release it.\<close>

definition window :: "nat \<Rightarrow> frame \<Rightarrow> bool" where
  "window m f \<longleftrightarrow> f \<in> {In_Lock L_take m, In_Unlock U_test m, In_Unlock U_free m, In_Unlock U_wake m}"

definition state_of :: "'a sync_scheme \<Rightarrow> nat \<Rightarrow> mutex_state option" where
  "state_of s m = map_option mstate (mcbs s m)"

text \<open>Runs without an alarm in such a window, in which only a locked mutex is unlocked.\<close>

inductive atomic_trace :: "nat \<Rightarrow> sync_sys \<Rightarrow> event list \<Rightarrow> sync_sys \<Rightarrow> bool" for m s0 where
  atomic_start: "atomic_trace m s0 [] s0"
| atomic_step: "atomic_trace m s0 es s \<Longrightarrow> sync_step s e s' \<Longrightarrow> (e = Alarm \<Longrightarrow> \<not> window m (pcs s (TID s))) \<Longrightarrow>
    (e = Call (In_Unlock U_test m) \<Longrightarrow> state_of s m = Some LOCKED) \<Longrightarrow> atomic_trace m s0 (es @ [e]) s'"

lemma atomic_is_trace: "atomic_trace m s0 es s \<Longrightarrow> sync_trace s0 es s"
  by (induction rule: atomic_trace.induct) (auto intro: sync_trace.intros)


section \<open>The state of a mutex\<close>

lemma list_state:
  fixes s s' :: "'a sync_scheme"
  shows "insert_tail q t s = Some (q', s') \<Longrightarrow> mcbs s' = mcbs s \<and> TID s' = TID s"
    "get_head q s = Some (t, q', s') \<Longrightarrow> mcbs s' = mcbs s \<and> TID s' = TID s"
    "set_status t v s = Some s' \<Longrightarrow> mcbs s' = mcbs s \<and> TID s' = TID s"
  by (auto simp: insert_tail_def get_head_def set_status_def Let_def bind_eq_Some_conv split: prod.splits if_splits)

lemma lock_state:
  fixes s s1 :: "'a sync_scheme"
  assumes ok: "tcbs_ok s" and run: "pthread_mutex_lock p k here s = Some (n, s1)"
  shows "state_of s1 m = (if p = L_take \<and> k = m then Some LOCKED else state_of s m)" "p \<noteq> L_yield \<Longrightarrow> TID s1 = TID s"
    "n = Goto L_take \<Longrightarrow> p = L_test \<and> state_of s k = Some UNLOCKED"
  using run schedule_frame(2) [OF ok]
  by (cases p; auto simp: state_of_def bind_eq_Some_conv Let_def lock_def unlock_def dest!: list_state split: if_splits)+

lemma unlock_state:
  fixes s s1 :: "'a sync_scheme"
  assumes ok: "tcbs_ok s" and run: "pthread_mutex_unlock p k here s = Some (n, s1)"
  shows "state_of s1 m = (if p \<in> {U_free, U_wake} \<and> k = m then Some UNLOCKED else state_of s m)" "p \<noteq> U_yield \<Longrightarrow> TID s1 = TID s"
    "n = Goto q \<Longrightarrow> q \<in> {U_test, U_free, U_wake} \<Longrightarrow> p = U_test"
  using run schedule_frame(2) [OF ok]
  by (cases p; auto simp: state_of_def bind_eq_Some_conv Let_def lock_def unlock_def dest!: list_state split: if_splits)+

lemma barrier_state:
  fixes s s1 :: "'a sync_scheme"
  assumes ok: "tcbs_ok s" and run: "pthread_barrier_wait p b here s = Some (n, s1)"
  shows "mcbs s1 = mcbs s"
  using run schedule_frame(2) [OF ok]
  by (cases p; auto simp: bind_eq_Some_conv Let_def lock_def unlock_def dest!: list_state split: if_splits)

text \<open>What one segment of the current thread does to mutex \<open>m\<close>.\<close>

definition state_after :: "nat \<Rightarrow> frame \<Rightarrow> mutex_state option \<Rightarrow> mutex_state option" where
  "state_after m f v = (if f = In_Lock L_take m then Some LOCKED
     else if f = In_Unlock U_free m \<or> f = In_Unlock U_wake m then Some UNLOCKED else v)"

lemma segment_state:
  assumes ok: "tcbs_ok s" and run: "segment f here s = Some (g, s1)"
  shows "state_of s1 m = state_after m f (state_of s m)" "pcs s1 = pcs s"
    "window m g \<Longrightarrow> TID s1 = TID s \<and> (f = In_Lock L_test m \<and> g = In_Lock L_take m \<and> state_of s m = Some UNLOCKED \<or>
       f = In_Unlock U_test m \<and> g \<noteq> In_Lock L_take m)"
proof -
  have "state_of s1 m = state_after m f (state_of s m) \<and> pcs s1 = pcs s \<and>
     (window m g \<longrightarrow> TID s1 = TID s \<and> (f = In_Lock L_test m \<and> g = In_Lock L_take m \<and> state_of s m = Some UNLOCKED \<or>
       f = In_Unlock U_test m \<and> g \<noteq> In_Lock L_take m))"
  proof (cases f)
    case (Done r)
    then show ?thesis using run by (simp add: segment_def)
  next
    case (In_Lock p k)
    with run obtain n where n: "pthread_mutex_lock p k here s = Some (n, s1)" "g = resume (\<lambda>p. In_Lock p k) n" by (auto simp: segment_def)
    show ?thesis using lock_state [OF ok n(1)] lock_frame [OF ok n(1)] In_Lock n(2)
      by (cases n) (auto simp: state_after_def window_def)
  next
    case (In_Unlock p k)
    with run obtain n where n: "pthread_mutex_unlock p k here s = Some (n, s1)" "g = resume (\<lambda>p. In_Unlock p k) n" by (auto simp: segment_def)
    show ?thesis using unlock_state [OF ok n(1)] unlock_frame [OF ok n(1)] In_Unlock n(2)
      by (cases n) (auto simp: state_after_def window_def)
  next
    case (In_Barrier p b)
    with run obtain n where n: "pthread_barrier_wait p b here s = Some (n, s1)" "g = resume (\<lambda>p. In_Barrier p b) n" by (auto simp: segment_def)
    show ?thesis using barrier_state [OF ok n(1)] barrier_other_frame [OF ok n(1)] In_Barrier n(2)
      by (cases n) (auto simp: state_after_def window_def state_of_def)
  qed
  then show "state_of s1 m = state_after m f (state_of s m)" "pcs s1 = pcs s"
    "window m g \<Longrightarrow> TID s1 = TID s \<and> (f = In_Lock L_test m \<and> g = In_Lock L_take m \<and> state_of s m = Some UNLOCKED \<or>
       f = In_Unlock U_test m \<and> g \<noteq> In_Lock L_take m)" by blast+
qed

section \<open>Mutual exclusion\<close>

text \<open>Only the current thread is in a window, and what it has tested still holds.\<close>

definition atomic_inv :: "nat \<Rightarrow> event list \<Rightarrow> sync_sys \<Rightarrow> bool" where
  "atomic_inv m es s \<longleftrightarrow> state_of s m \<noteq> None \<and>
     (\<forall>t. window m (pcs s t) \<longrightarrow> t = TID s \<and> state_of s m = Some (if pcs s t = In_Lock L_take m then UNLOCKED else LOCKED)) \<and>
     takes m es = releases m es + (if state_of s m = Some LOCKED then 1 else 0)"

lemma atomic_segment:
  assumes ok: "tcbs_ok s" and inv: "atomic_inv m es s" and run: "segment (pcs s (TID s)) here s = Some (g, s1)"
  shows "atomic_inv m (es @ [Segment (pcs s (TID s))]) (s1\<lparr>pcs := (pcs s1)(TID s := g)\<rparr>)"
proof -
  let ?f = "pcs s (TID s)"
  let ?s = "s1\<lparr>pcs := (pcs s1)(TID s := g)\<rparr>"
  note sg = segment_state(1) [OF ok run, of m] segment_state(2) [OF ok run] segment_state(3) [OF ok run, of m]
  have st: "state_of ?s m = state_after m ?f (state_of s m)" using sg(1) by (simp add: state_of_def)
  have w: "t = TID s" if "window m (pcs s t)" for t using inv that unfolding atomic_inv_def by blast
  have v: "state_of s m = Some (if ?f = In_Lock L_take m then UNLOCKED else LOCKED)" if "window m ?f"
    using inv that unfolding atomic_inv_def by blast
  have "t = TID ?s \<and> state_of ?s m = Some (if pcs ?s t = In_Lock L_take m then UNLOCKED else LOCKED)" if "window m (pcs ?s t)" for t
  proof -
    have t: "t = TID s" "pcs ?s t = g" using that w [of t] sg(2) by (auto split: if_splits)
    then have g: "window m g" using that by simp
    have "?f = In_Unlock U_test m \<Longrightarrow> state_of s m = Some LOCKED" using v by (simp add: window_def)
    with sg(3) [OF g] t st show ?thesis by (auto simp: state_after_def)
  qed
  moreover have "state_of ?s m \<noteq> None" using inv unfolding st by (auto simp: atomic_inv_def state_after_def)
  moreover have "takes m (es @ [Segment ?f]) = releases m (es @ [Segment ?f]) + (if state_of ?s m = Some LOCKED then 1 else 0)"
  proof -
    have c: "takes m es = releases m es + (if state_of s m = Some LOCKED then 1 else 0)" using inv by (simp add: atomic_inv_def)
    consider "?f = In_Lock L_take m" | "?f = In_Unlock U_free m \<or> ?f = In_Unlock U_wake m"
      | "?f \<noteq> In_Lock L_take m" "?f \<noteq> In_Unlock U_free m" "?f \<noteq> In_Unlock U_wake m" by blast
    then show ?thesis
    proof cases
      case 1
      with v c show ?thesis unfolding st by (simp add: counts_snoc state_after_def window_def)
    next
      case 2
      with v c show ?thesis unfolding st by (auto simp: counts_snoc state_after_def window_def)
    next
      case 3
      with c show ?thesis unfolding st by (simp add: counts_snoc state_after_def)
    qed
  qed
  ultimately show ?thesis unfolding atomic_inv_def by blast
qed

lemma atomic_inv_step:
  assumes ok: "sync_ok s" and inv: "atomic_inv m es s" and step: "sync_step s e s'"
    and al: "e = Alarm \<Longrightarrow> \<not> window m (pcs s (TID s))"
    and un: "e = Call (In_Unlock U_test m) \<Longrightarrow> state_of s m = Some LOCKED"
  shows "atomic_inv m (es @ [e]) s'"
  using step
proof cases
  case (run_segment here f s1)
  then show ?thesis using atomic_segment [OF sync_okD(1) [OF ok] inv] by simp
next
  case (make_call r f)
  have "\<not> window m (pcs s (TID s))" using make_call(3) by (simp add: window_def)
  moreover have "f = In_Unlock U_test m" if "window m f" using that make_call(5) by (auto simp: window_def calls_def)
  ultimately show ?thesis using inv un make_call(1,2) by (auto simp: atomic_inv_def counts_snoc state_of_def)
next
  case (take_alarm here buf)
  note tc = sync_okD(1) [OF ok]
  have "\<not> window m (pcs s t)" for t using inv al take_alarm(1) by (auto simp: atomic_inv_def)
  then show ?thesis using inv schedule_frame(2) [OF tc take_alarm(4)] schedule_pcs [OF tc take_alarm(4)] take_alarm(1)
    by (simp add: atomic_inv_def counts_snoc state_of_def)
qed

text \<open>C12. A mutex excludes when the alarm leaves the window between test and update alone: in every such
  run that unlocks only a locked mutex, at most one acquisition is not yet released, and there
  is one exactly when the mutex is locked.\<close>

theorem mutex_excludes:
  assumes ok: "sync_ok s0" and m: "state_of s0 m = Some UNLOCKED" "\<And>t. \<not> window m (pcs s0 t)" and tr: "atomic_trace m s0 es s"
  shows "takes m es = releases m es + (if state_of s m = Some LOCKED then 1 else 0)"
proof -
  have "atomic_inv m es s"
    using tr
  proof (induction rule: atomic_trace.induct)
    case atomic_start
    then show ?case using m by (auto simp: atomic_inv_def takes_def releases_def)
  next
    case (atomic_step es s e s')
    have "sync_ok s" by (rule sync_trace_ok [OF atomic_is_trace [OF atomic_step.hyps(1)] ok])
    from atomic_inv_step [OF this atomic_step.IH atomic_step.hyps(2-4)] show ?case .
  qed
  then show ?thesis by (simp add: atomic_inv_def)
qed

text \<open>Thread 0 takes the mutex.\<close>

lemma demo_locked:
  obtains s where "atomic_trace 1 demo_sys [Call (In_Lock L_test 1), Segment (In_Lock L_test 1), Segment (In_Lock L_take 1)] s"
    "pair s 0 1" "pcs s = (\<lambda>_. Done 7)(0 := Done 0)" "mcbs s = [1 \<mapsto> \<lparr>mstate = LOCKED, wait_list = 0, wait_list_tail = 0\<rparr>]"
    "alarm s" "\<not> masked s"
proof -
  let ?L = "In_Lock L_test 1" and ?b = "\<lparr>mstate = UNLOCKED, wait_list = 0, wait_list_tail = 0\<rparr>"
  define s1 where "s1 = demo_sys\<lparr>pcs := (pcs demo_sys)(0 := ?L)\<rparr>"
  have 1: "sync_step demo_sys (Call ?L) s1" "pair s1 0 1"
    using pair_call [OF demo_pair] demo_pair by (simp_all add: demo_sel s1_def calls_def)
  define s2 where "s2 = s1\<lparr>pcs := (pcs s1)(0 := In_Lock L_take 1)\<rparr>"
  have 2: "sync_step s1 (Segment ?L) s2" "pair s2 0 1"
    using pair_lock_test [OF 1(2), of 1 ?b] 1(2) by (simp_all add: s2_def s1_def demo_sel)
  have p2: "pcs s2 0 = In_Lock L_take 1" "mcbs s2 1 = Some ?b" "alarm s2" by (simp_all add: s2_def s1_def demo_sel)
  obtain s3 where 3: "sync_step s2 (Segment (In_Lock L_take 1)) s3" "pair s3 0 1" "pcs s3 = (pcs s2)(0 := Done 0)"
      "mcbs s3 = (mcbs s2)(1 \<mapsto> ?b\<lparr>mstate := LOCKED\<rparr>)" "alarm s3" "\<not> masked s3"
    by (rule pair_lock_take [OF 2(2) p2])
  note a = atomic_trace.atomic_step [OF atomic_trace.atomic_step [OF atomic_trace.atomic_step [OF atomic_trace.atomic_start 1(1)] 2(1)] 3(1)]
  show ?thesis by (rule that [of s3]) (use a 3 in \<open>simp_all add: s2_def s1_def demo_sel fun_eq_iff\<close>)
qed

theorem mutex_excludes_witness:
  "\<exists>es s. atomic_trace 1 demo_sys es s \<and> state_of s 1 = Some LOCKED \<and> takes 1 es = releases 1 es + 1"
proof -
  obtain s where s: "atomic_trace 1 demo_sys [Call (In_Lock L_test 1), Segment (In_Lock L_test 1), Segment (In_Lock L_take 1)] s"
    "mcbs s = [1 \<mapsto> \<lparr>mstate = LOCKED, wait_list = 0, wait_list_tail = 0\<rparr>]" by (rule demo_locked)
  then have l: "state_of s 1 = Some LOCKED" by (simp add: state_of_def)
  have "state_of demo_sys 1 = Some UNLOCKED" "\<And>t. \<not> window 1 (pcs demo_sys t)" by (simp_all add: state_of_def window_def demo_sel)
  from mutex_excludes [OF demo_ok this s(1)] l s(1) show ?thesis by auto
qed


section \<open>A lost wake-up\<close>

text \<open>The current thread finds the mutex locked and blocks; the only other thread goes on.\<close>

lemma pair_blocks:
  assumes ok: "sync_ok s" and p: "pair s t u" and pc: "pcs s t = In_Lock L_block m" and m: "mcbs s m \<noteq> None" and l: "line s m ts"
  obtains s1 s2 where "sync_step s (Segment (In_Lock L_block m)) s1" "sync_step s1 (Segment (In_Lock L_yield m)) s2"
    "TID s2 = u" "st s2 t = TS_BLOCKED" "line s2 m (ts @ [t])" "pcs s2 = (pcs s)(t := In_Lock L_busy m)" "state_of s2 m = state_of s m"
proof -
  have w: "TID s = t" "t < MAX_THREADS" "u < MAX_THREADS" "t \<noteq> u" "st s t = TS_RUNNING" "st s u = TS_READY" "tcbs_ok s"
    "\<And>i. i < MAX_THREADS \<Longrightarrow> i \<noteq> t \<Longrightarrow> i \<noteq> u \<Longrightarrow> st s i \<noteq> TS_READY" using p by (auto simp: pair_def tcbs_ok_def)
  have pc': "pcs s (TID s) = In_Lock L_block m" using pc w(1) by simp
  have "\<not> dangling s" "\<not> deadlock s" using pc' m w(1,5) by (simp_all add: dangling_def mcb_of_def bcb_of_def deadlock_running)
  then have "pthread_mutex_lock L_block m [] s \<noteq> None" using lock_stuck [OF ok pc', of "[]"] by blast
  then obtain n sa where r: "pthread_mutex_lock L_block m [] s = Some (n, sa)" by (metis not_None_eq surj_pair)
  obtain b q' where E: "n = Goto L_yield" "tcbs_ok sa" "TID sa = TID s" "pcs sa = pcs s"
    "\<And>i. i < MAX_THREADS \<Longrightarrow> st sa i = (if i = TID s then TS_BLOCKED else st s i)"
    by (rule lock_block_effect [OF ok r]) (rule that)
  define s1 where "s1 = sa\<lparr>pcs := (pcs sa)(TID s := In_Lock L_yield m)\<rparr>"
  have "segment (In_Lock L_block m) [] s = Some (In_Lock L_yield m, sa)" using r E(1) by (simp add: segment_def)
  from segment_step [OF pc' this] have 1: "sync_step s (Segment (In_Lock L_block m)) s1" by (simp add: s1_def)
  have s1: "tcbs_ok s1" "TID s1 = t" "pcs s1 = (pcs s)(t := In_Lock L_yield m)" "state_of s1 m = state_of s m"
    "\<And>i. i < MAX_THREADS \<Longrightarrow> st s1 i = (if i = t then TS_BLOCKED else st s i)"
    using E w(1) lock_state(1) [OF w(7) r, of m] by (simp_all add: s1_def tcbs_ok_def state_of_def)
  obtain buf sb where sb: "schedule [] s1 = Some (buf, sb)" "TID sb = u" "st sb (TID s1) = TS_BLOCKED"
    by (rule only_ready_runs [OF s1(1), of u]) (use s1(2,5) w in auto)
  note fr = schedule_frame [OF s1(1) sb(1)] schedule_pcs [OF s1(1) sb(1)]
  have "segment (In_Lock L_yield m) [] s1 = Some (In_Lock L_busy m, sb)" using sb(1) by (simp add: segment_def)
  from segment_step [OF _ this] s1(2,3) have 2: "sync_step s1 (Segment (In_Lock L_yield m)) (sb\<lparr>pcs := (pcs sb)(t := In_Lock L_busy m)\<rparr>)" by simp
  have "line s1 m (ts @ [t])" using line_step(1) [OF ok 1 l] w(1) by (simp add: line_after_def)
  from line_step(1) [OF sync_step_ok [OF ok 1] 2 this] have "line (sb\<lparr>pcs := (pcs sb)(t := In_Lock L_busy m)\<rparr>) m (ts @ [t])"
    by (simp add: line_after_def)
  then show ?thesis by (intro that [OF 1 2]) (use sb fr s1 in \<open>simp_all add: state_of_def\<close>)
qed

text \<open>Thread 0 holds the mutex and finds no waiting thread; before it masks the alarm, thread 1
  finds the mutex locked.\<close>

lemma demo_late_waiter:
  obtains s where "sync_trace demo_sys [Call (In_Lock L_test 1), Segment (In_Lock L_test 1), Segment (In_Lock L_take 1),
      Call (In_Unlock U_test 1), Segment (In_Unlock U_test 1), Alarm, Call (In_Lock L_test 1), Segment (In_Lock L_test 1)] s"
    "pair s 1 0" "pcs s = (\<lambda>_. Done 7)(0 := In_Unlock U_free 1, 1 := In_Lock L_block 1)"
    "mcbs s = [1 \<mapsto> \<lparr>mstate = LOCKED, wait_list = 0, wait_list_tail = 0\<rparr>]"
proof -
  let ?b = "\<lparr>mstate = LOCKED, wait_list = 0, wait_list_tail = 0\<rparr>" and ?U = "In_Unlock U_test 1" and ?L = "In_Lock L_test 1"
  obtain s where s: "atomic_trace 1 demo_sys [Call (In_Lock L_test 1), Segment (In_Lock L_test 1), Segment (In_Lock L_take 1)] s"
    "pair s 0 1" "pcs s = (\<lambda>_. Done 7)(0 := Done 0)" "mcbs s = [1 \<mapsto> ?b]" "alarm s" "\<not> masked s" by (rule demo_locked)
  define s1 where "s1 = s\<lparr>pcs := (pcs s)(0 := ?U)\<rparr>"
  have 1: "sync_step s (Call ?U) s1" using pair_call [OF s(2), of 0 ?U] s(3) by (simp add: s1_def calls_def)
  define s2 where "s2 = s1\<lparr>pcs := (pcs s1)(0 := In_Unlock U_free 1)\<rparr>"
  have p1: "pcs s1 (TID s1) = ?U" "segment ?U [] s1 = Some (In_Unlock U_free 1, s1)" "TID s1 = 0"
    using s(2,4) by (simp_all add: s1_def pair_def segment_def is_empty_def)
  have 2: "sync_step s1 (Segment ?U) s2" using segment_step [OF p1(1,2)] p1(3) by (simp add: s2_def)
  have p2: "pair s2 0 1" "alarm s2" "\<not> masked s2" using s by (simp_all add: s2_def s1_def)
  obtain s3 where 3: "sync_step s2 Alarm s3" "pair s3 1 0" "pcs s3 = pcs s2" "mcbs s3 = mcbs s2" by (rule pair_alarm [OF p2])
  have p3: "pcs s3 = (\<lambda>_. Done 7)(0 := In_Unlock U_free 1)" "mcbs s3 = [1 \<mapsto> ?b]" by (simp_all add: 3 s2_def s1_def s)
  define s4 where "s4 = s3\<lparr>pcs := (pcs s3)(1 := ?L)\<rparr>"
  have 4: "sync_step s3 (Call ?L) s4" using pair_call [OF 3(2), of 7 ?L] p3(1) by (simp add: s4_def calls_def)
  define s5 where "s5 = s4\<lparr>pcs := (pcs s4)(1 := In_Lock L_block 1)\<rparr>"
  have p4: "pcs s4 (TID s4) = ?L" "segment ?L [] s4 = Some (In_Lock L_block 1, s4)" "TID s4 = 1"
    using 3(2) p3(2) by (simp_all add: s4_def pair_def segment_def)
  have 5: "sync_step s4 (Segment ?L) s5" using segment_step [OF p4(1,2)] p4(3) by (simp add: s5_def)
  note tr = sync_trace.step [OF sync_trace.step [OF sync_trace.step [OF sync_trace.step [OF sync_trace.step
    [OF atomic_is_trace [OF s(1)] 1] 2] 3(1)] 4] 5]
  show ?thesis by (rule that [of s5]) (use tr 3(2) p3 in \<open>simp_all add: s5_def s4_def\<close>)
qed

text \<open>C36. A wake-up can be lost: \<open>pthread_mutex_unlock\<close> tests the wait list before it masks the alarm.
  When a thread joins the list in between, the mutex is unlocked and nobody is woken: in the end
  the only thread in line is blocked although the mutex is free and no thread is inside the
  library.\<close>

theorem lost_wakeup:
  "\<exists>s. sync_trace demo_sys [Call (In_Lock L_test 1), Segment (In_Lock L_test 1), Segment (In_Lock L_take 1),
      Call (In_Unlock U_test 1), Segment (In_Unlock U_test 1), Alarm, Call (In_Lock L_test 1), Segment (In_Lock L_test 1),
      Segment (In_Lock L_block 1), Segment (In_Lock L_yield 1), Segment (In_Unlock U_free 1)] s \<and>
    TID s = 0 \<and> pcs s 0 = Done 0 \<and> state_of s 1 = Some UNLOCKED \<and> line s 1 [1] \<and> st s 1 = TS_BLOCKED"
proof -
  let ?b = "\<lparr>mstate = LOCKED, wait_list = 0, wait_list_tail = 0\<rparr>" and ?F = "In_Unlock U_free 1"
  obtain s where s: "sync_trace demo_sys [Call (In_Lock L_test 1), Segment (In_Lock L_test 1), Segment (In_Lock L_take 1),
      Call (In_Unlock U_test 1), Segment (In_Unlock U_test 1), Alarm, Call (In_Lock L_test 1), Segment (In_Lock L_test 1)] s"
    "pair s 1 0" "pcs s = (\<lambda>_. Done 7)(0 := ?F, 1 := In_Lock L_block 1)" "mcbs s = [1 \<mapsto> ?b]" by (rule demo_late_waiter)
  have ok: "sync_ok s" by (rule sync_trace_ok [OF s(1) demo_ok])
  have "queue_of s 1 []" using s(4) by (simp add: queue_of_def lrep_def threads_at_def)
  then have l: "line s 1 []" by (auto simp: line_def threads_at_def)
  have p: "pcs s 1 = In_Lock L_block 1" "mcbs s 1 \<noteq> None" using s(3,4) by simp_all
  obtain s1 s2 where 2: "sync_step s (Segment (In_Lock L_block 1)) s1" "sync_step s1 (Segment (In_Lock L_yield 1)) s2"
    "TID s2 = 0" "st s2 1 = TS_BLOCKED" "line s2 1 ([] @ [1])" "pcs s2 = (pcs s)(1 := In_Lock L_busy 1)" "state_of s2 1 = state_of s 1"
    by (rule pair_blocks [OF ok s(2) p l])
  have ok2: "sync_ok s2" by (rule sync_step_ok [OF sync_step_ok [OF ok 2(1)] 2(2)])
  obtain b where b: "mcbs s2 1 = Some b" using 2(7) s(4) by (auto simp: state_of_def)
  let ?s3 = "unlock ((lock s2)\<lparr>mcbs := (mcbs s2)(1 \<mapsto> b\<lparr>mstate := UNLOCKED\<rparr>)\<rparr>)"
  have pc: "pcs s2 (TID s2) = ?F" using 2(3,6) s(3) by simp
  have "segment ?F [] s2 = Some (Done 0, ?s3)" using b by (simp add: segment_def Let_def lock_def)
  from segment_step [OF pc this] have 3: "sync_step s2 (Segment ?F) (?s3\<lparr>pcs := (pcs ?s3)(0 := Done 0)\<rparr>)" by (simp add: 2(3))
  let ?e = "?s3\<lparr>pcs := (pcs ?s3)(0 := Done 0)\<rparr>"
  have "line ?e 1 [1]" using line_step(1) [OF ok2 3 2(5)] by (simp add: line_after_def)
  moreover have "TID ?e = 0" "pcs ?e 0 = Done 0" "state_of ?e 1 = Some UNLOCKED" "st ?e 1 = TS_BLOCKED"
    using 2(3,4) by (simp_all add: state_of_def lock_def unlock_def)
  ultimately show ?thesis
    using sync_trace.step [OF sync_trace.step [OF sync_trace.step [OF s(1) 2(1)] 2(2)] 3] by (intro exI [of _ ?e]) simp
qed

end
