(* ===== verification/Shell_Parser.thy ===== *)
theory Shell_Parser
  imports Prelude "HOL-Library.Sublist"
begin

text \<open>
  Projects 0 and 1, the command-line parser of the shell (\<^verbatim>\<open>myshell_parser.c\<close>). A C string is the
  list of its characters without the terminating NUL. The chain of commands linked by \<open>next\<close>
  is a list. The result \<open>None\<close> stands for a null pointer passed to a string function and for a
  write outside \<open>command_args\<close>; \<open>malloc\<close> and \<open>strdup\<close> do not fail.
\<close>

section \<open>Data\<close>

definition MAX_LINE_LENGTH :: nat where
  "MAX_LINE_LENGTH = 512"

definition MAX_ARGV_LENGTH :: nat where
  "MAX_ARGV_LENGTH = MAX_LINE_LENGTH div 2 + 1"

definition WHITESPACE_CHARS :: string where
  "WHITESPACE_CHARS = [CHR 0x0A, CHR 0x09, CHR '' '']"

definition SPECIAL_CHARS :: string where "SPECIAL_CHARS = ''&|<>''"
definition AMPERSAND :: string where "AMPERSAND = ''&''"
definition PIPE :: string where "PIPE = ''|''"
definition RED_IN :: string where "RED_IN = ''<''"
definition RED_OUT :: string where "RED_OUT = ''>''"

record pipeline_command =
  command_args :: "string option list"
  redirect_in_path :: "string option"
  redirect_out_path :: "string option"

record pipeline =
  commands :: "pipeline_command list"
  is_background :: bool


section \<open>String functions of the C library\<close>

definition starts_with :: "string \<Rightarrow> string \<Rightarrow> bool" where
  "starts_with w s \<longleftrightarrow> take (length w) s = w"

fun strstr :: "string \<Rightarrow> string \<Rightarrow> string option" where
  "strstr [] w = (if w = [] then Some [] else None)"
| "strstr (c # s) w = (if starts_with w (c # s) then Some (c # s) else strstr s w)"

text \<open>\<open>strtok_r\<close> on a string: the token, if there is one, and the saved rest. \<open>strtok\<close> keeps the rest
  in a static variable, which a call with a null pointer continues.\<close>

definition strtok_r :: "string \<Rightarrow> string \<Rightarrow> string option \<times> string" where
  "strtok_r s delims =
     (let t = dropWhile (\<lambda>c. c \<in> set delims) s in
      if t = [] then (None, [])
      else (Some (takeWhile (\<lambda>c. c \<notin> set delims) t), drop 1 (dropWhile (\<lambda>c. c \<notin> set delims) t)))"

definition strtok :: "string option \<Rightarrow> string \<Rightarrow> string \<Rightarrow> string option \<times> string" where
  "strtok s delims saved = strtok_r (case s of None \<Rightarrow> saved | Some t \<Rightarrow> t) delims"


section \<open>The parser\<close>

definition findChars :: "string \<Rightarrow> string \<Rightarrow> bool" where
  "findChars line chars \<longleftrightarrow> strstr line chars \<noteq> None"

text \<open>The first loop of \<open>deleteWords\<close>: the final \<open>i\<close> and \<open>c\<close>. The strings passed here are not empty:
  an empty \<open>oldWord\<close> would make the loops run for ever, which is \<open>None\<close>.\<close>

partial_function (option) count_loop :: "string \<Rightarrow> string \<Rightarrow> nat \<Rightarrow> int \<Rightarrow> (nat \<times> int) option" where
  "count_loop s oldWord i c =
     (if length s \<le> i then Some (i, c)
      else if starts_with oldWord (drop i s) then count_loop s oldWord (i + length oldWord) (c + 1)
      else count_loop s oldWord (i + 1) c)"

partial_function (option) copy_loop :: "string \<Rightarrow> string \<Rightarrow> string \<Rightarrow> string option" where
  "copy_loop s oldWord newWord =
     (if s = [] then Some []
      else if starts_with oldWord s
      then do { r \<leftarrow> copy_loop (drop (length oldWord) s) oldWord newWord; Some (newWord @ r) }
      else do { r \<leftarrow> copy_loop (drop 1 s) oldWord newWord; Some (hd s # r) })"

text \<open>The size of the buffer that \<open>deleteWords\<close> allocates.\<close>

definition delete_size :: "string \<Rightarrow> string \<Rightarrow> string \<Rightarrow> int option" where
  "delete_size s oldWord newWord = do {
     (i, c) \<leftarrow> count_loop s oldWord 0 0;
     Some (int i + c * (int (length newWord) - int (length oldWord)) + 1)
   }"

definition deleteWords :: "string \<Rightarrow> string \<Rightarrow> string \<Rightarrow> string option" where
  "deleteWords s oldWord newWord = do {
     n \<leftarrow> delete_size s oldWord newWord;
     result \<leftarrow> copy_loop s oldWord newWord;
     if int (length result) < n then Some result else None
   }"

definition pipeline_command_alloc :: pipeline_command where
  "pipeline_command_alloc =
     \<lparr>command_args = replicate MAX_ARGV_LENGTH None, redirect_in_path = None, redirect_out_path = None\<rparr>"

definition pipeline_alloc :: pipeline where
  "pipeline_alloc = \<lparr>commands = [pipeline_command_alloc], is_background = False\<rparr>"

text \<open>The file name after a redirection character: the four calls of \<open>strtok\<close>.\<close>

definition redirect_token :: "string \<Rightarrow> string \<Rightarrow> string option" where
  "redirect_token cline red =
     (let (t1, r1) = strtok (Some cline) red [];
          (t2, r2) = strtok None red r1;
          (t3, r3) = strtok t2 WHITESPACE_CHARS r2;
          (t4, r4) = strtok t3 SPECIAL_CHARS r3
      in t4)"

text \<open>One redirection: the file name and the line without it. Passing a null pointer on is an error.\<close>

definition redirect :: "string \<Rightarrow> string \<Rightarrow> (string option \<times> string) option" where
  "redirect cline red =
     (if findChars cline red
      then do {
        tokens \<leftarrow> redirect_token cline red;
        line \<leftarrow> deleteWords cline tokens '''';
        Some (Some tokens, line)
      }
      else Some (None, cline))"

text \<open>The inner loop over the pieces of a word, and the loop over words.\<close>

function special_loop :: "string \<Rightarrow> nat \<Rightarrow> string option list \<Rightarrow> string option list option" where
  "special_loop tokens pos args =
     (case strtok_r tokens SPECIAL_CHARS of
        (None, _) \<Rightarrow> Some args
      | (Some tok, rest) \<Rightarrow> do {
          args' \<leftarrow> array_set args (int pos) (Some tok);
          special_loop rest pos args'
        })"
  by pat_completeness auto

function args_loop :: "string \<Rightarrow> nat \<Rightarrow> string option list \<Rightarrow> string option list option" where
  "args_loop cline pos args =
     (case strtok_r cline WHITESPACE_CHARS of
        (None, _) \<Rightarrow> Some args
      | (Some tokens, rest) \<Rightarrow> do {
          args' \<leftarrow> special_loop tokens pos args;
          args_loop rest (pos + 1) args'
        })"
  by pat_completeness auto

lemma strtok_r_shorter:
  assumes "strtok_r s d = (Some t, r)"
  shows "length r < length s"
proof -
  let ?t = "dropWhile (\<lambda>c. c \<in> set d) s"
  from assms have t: "?t \<noteq> []" "r = drop 1 (dropWhile (\<lambda>c. c \<notin> set d) ?t)" by (auto simp: strtok_r_def Let_def split: if_splits)
  have "length (dropWhile (\<lambda>c. c \<notin> set d) ?t) \<le> length ?t" "length ?t \<le> length s" by (rule length_dropWhile_le)+
  moreover have "hd ?t \<notin> set d" using t(1) hd_dropWhile [of "\<lambda>c. c \<in> set d" s] by simp
  then have "dropWhile (\<lambda>c. c \<notin> set d) ?t = dropWhile (\<lambda>c. c \<notin> set d) (tl ?t)" using t(1) by (cases ?t) simp_all
  then have "length (dropWhile (\<lambda>c. c \<notin> set d) ?t) \<le> length (tl ?t)" using length_dropWhile_le [of "\<lambda>c. c \<notin> set d" "tl ?t"] by simp
  ultimately show ?thesis using t by (cases ?t) auto
qed

termination special_loop
  by (relation "measure (\<lambda>(tokens, pos, args). length tokens)") (auto dest: strtok_r_shorter [OF sym])

termination args_loop
  by (relation "measure (\<lambda>(cline, pos, args). length cline)") (auto dest: strtok_r_shorter [OF sym])

declare special_loop.simps [simp del] args_loop.simps [simp del]

definition p_command_link :: "string \<Rightarrow> pipeline_command \<Rightarrow> pipeline_command option" where
  "p_command_link cline p_command = do {
     (path_in, cline1) \<leftarrow> redirect cline RED_IN;
     (path_out, cline2) \<leftarrow> redirect cline1 RED_OUT;
     args \<leftarrow> args_loop cline2 0 (command_args p_command);
     Some (p_command\<lparr>command_args := args,
       redirect_in_path := (if path_in = None then redirect_in_path p_command else path_in),
       redirect_out_path := (if path_out = None then redirect_out_path p_command else path_out)\<rparr>)
   }"

definition pipelines :: "string \<Rightarrow> pipeline \<Rightarrow> pipeline option" where
  "pipelines pipe_tokens p = do {
     l \<leftarrow> p_command_link pipe_tokens pipeline_command_alloc;
     Some (if command_args (hd (commands p)) ! 0 = None then p\<lparr>commands := [l]\<rparr> else p\<lparr>commands := commands p @ [l]\<rparr>)
   }"

function pipe_loop :: "string \<Rightarrow> pipeline \<Rightarrow> pipeline option" where
  "pipe_loop cline p =
     (case strtok_r cline PIPE of
        (None, _) \<Rightarrow> Some p
      | (Some pipe_tokens, rest) \<Rightarrow> do { p' \<leftarrow> pipelines pipe_tokens p; pipe_loop rest p' })"
  by pat_completeness auto

termination pipe_loop
  by (relation "measure (\<lambda>(cline, p). length cline)") (auto dest: strtok_r_shorter [OF sym])

declare pipe_loop.simps [simp del]

text \<open>Both branches of \<open>findChars(cline, PIPE)\<close> run the same loop.\<close>

definition pipeline_build :: "string \<Rightarrow> pipeline option" where
  "pipeline_build command_line =
     (let p = pipeline_alloc\<lparr>is_background := findChars command_line AMPERSAND\<rparr> in pipe_loop command_line p)"


section \<open>Releasing a pipeline\<close>

text \<open>
  \<open>pipeline_free\<close> only follows and frees pointers, so the heap is reduced to the live commands, each
  address with its \<open>next\<close> field, and the live pipelines, each address with its \<open>commands\<close> field.
  Reading or freeing a block that is not live is \<open>None\<close>; freeing the null pointer does nothing.
\<close>

record heap =
  nexts :: "nat \<rightharpoonup> nat option"
  heads :: "nat \<rightharpoonup> nat option"

definition free_command :: "nat option \<Rightarrow> heap \<Rightarrow> heap option" where
  "free_command q h =
     (case q of None \<Rightarrow> Some h
      | Some a \<Rightarrow> if nexts h a = None then None else Some (h\<lparr>nexts := (nexts h)(a := None)\<rparr>))"

partial_function (option) free_loop :: "heap \<Rightarrow> nat option \<Rightarrow> nat option \<Rightarrow> (heap \<times> nat option) option" where
  "free_loop h current_command next_command =
     (case current_command of
        None \<Rightarrow> Some (h, next_command)
      | Some a \<Rightarrow> do {
          nx \<leftarrow> nexts h a;
          h' \<leftarrow> free_command current_command h;
          free_loop h' nx nx
        })"

text \<open>The two commands that the declarations allocate (at the addresses \<open>a\<close> and \<open>b\<close>): the first is
  never freed, the second only when the chain is empty.\<close>

definition pipeline_free :: "nat \<Rightarrow> nat \<Rightarrow> heap \<Rightarrow> nat \<Rightarrow> heap option" where
  "pipeline_free a b h pipe = do {
     let h1 = h\<lparr>nexts := (nexts h)(a \<mapsto> None, b \<mapsto> None)\<rparr>;
     current_command \<leftarrow> heads h1 pipe;
     (h2, next_command) \<leftarrow> free_loop h1 current_command (Some b);
     h3 \<leftarrow> free_command next_command h2;
     h4 \<leftarrow> free_command None h3;
     Some (h4\<lparr>heads := (heads h4)(pipe := None)\<rparr>)
   }"

end
