(* ===== verification/Shell.thy ===== *)
theory Shell
  imports Shell_Parser
begin

text \<open>
  Project 1, the shell (\<^verbatim>\<open>myshell.c\<close>). The descriptors of a process are a list, each entry the
  open file behind the descriptor; \<open>pipe\<close>, \<open>open\<close> and \<open>creat\<close> take the lowest free ones, as POSIX
  requires. Which files can be opened, which programs exist, which forks succeed and which calls
  of \<open>wait\<close> return is the parameter \<open>os_env\<close>; \<open>None\<close> is a run that does not go on, because of
  undefined behaviour or because the shell waits forever. What the shell does to other processes is logged as a list of events: a
  child is logged with what it has become when \<open>execvp\<close> has run, that is with the program and
  the descriptors it starts with. The signal handler runs at any moment; here it is a
  function on the table of children.
\<close>

section \<open>Descriptors\<close>

datatype open_file = Inherited nat | Pipe_Read nat | Pipe_Write nat | In_File string | Out_File string

type_synonym fd_table = "open_file option list"

definition fd_get :: "fd_table \<Rightarrow> nat \<Rightarrow> open_file option" where
  "fd_get fs i = (if i < length fs then fs ! i else None)"

definition fd_open :: "open_file \<Rightarrow> fd_table \<Rightarrow> nat \<times> fd_table" where
  "fd_open f fs =
     (case find_idx (\<lambda>x. x = None) fs of
        None \<Rightarrow> (length fs, fs @ [Some f])
      | Some i \<Rightarrow> (i, fs[i := Some f]))"

definition fd_close :: "nat \<Rightarrow> fd_table \<Rightarrow> fd_table" where
  "fd_close i fs = fs[i := None]"

definition dup2 :: "nat \<Rightarrow> nat \<Rightarrow> fd_table \<Rightarrow> fd_table" where
  "dup2 a b fs =
     (case fd_get fs a of
        None \<Rightarrow> fs
      | Some f \<Rightarrow> (fs @ replicate (b + 1 - length fs) None)[b := Some f])"

abbreviation (input) STDIN_FILENO :: nat where "STDIN_FILENO \<equiv> 0"
abbreviation (input) STDOUT_FILENO :: nat where "STDOUT_FILENO \<equiv> 1"


section \<open>State\<close>

datatype child = Exec "string option list" fd_table | Exit int | Crash

datatype shell_event = Prompt | Fork child | Fork_Failed | Wait

text \<open>Whether \<open>wait\<close> returns depends on everything the shell has done before: a child that writes
  into a full pipe which nobody reads yet never ends, and then \<open>wait\<close> does not return.\<close>

record os_env =
  creat_ok :: "string \<Rightarrow> bool"
  open_ok :: "string \<Rightarrow> bool"
  exec_ok :: "string option list \<Rightarrow> bool"
  fork_ok :: "nat \<Rightarrow> bool"
  wait_returns :: "shell_event list \<Rightarrow> bool"

record shell =
  fds :: fd_table
  npipes :: nat
  events :: "shell_event list"


section \<open>Executing a command\<close>

text \<open>The child: \<open>w\<close> is \<open>fd[1]\<close>. The code after a successful \<open>execvp\<close> is never reached. \<open>execvp\<close> of a
  null pointer is a crash.\<close>

definition child_out :: "os_env \<Rightarrow> pipeline_command \<Rightarrow> nat \<times> fd_table \<Rightarrow> (nat \<times> fd_table) option" where
  "child_out env c wfs =
     (case redirect_out_path c of
        None \<Rightarrow> Some wfs
      | Some f \<Rightarrow> if creat_ok env f then Some (fd_open (Out_File f) (snd wfs)) else None)"

definition child_in :: "os_env \<Rightarrow> pipeline_command \<Rightarrow> nat \<times> fd_table \<Rightarrow> (nat \<times> fd_table) option" where
  "child_in env c wfs =
     (case redirect_in_path c of
        None \<Rightarrow> Some wfs
      | Some f \<Rightarrow> if open_ok env f then Some (fd_open (In_File f) (snd wfs)) else None)"

definition child_dup :: "pipeline_command \<Rightarrow> nat \<Rightarrow> int \<Rightarrow> int \<Rightarrow> nat \<Rightarrow> fd_table \<Rightarrow> fd_table" where
  "child_dup c input first lst w fs =
     (if first = 1 \<and> lst = 0 \<and> input = 0 then dup2 w STDOUT_FILENO fs
      else if first = 0 \<and> lst = 0 \<and> input \<noteq> 0 then dup2 w STDOUT_FILENO (dup2 input STDIN_FILENO fs)
      else let fs1 = (if redirect_out_path c \<noteq> None then dup2 w STDOUT_FILENO fs else fs);
               fs2 = (if redirect_in_path c \<noteq> None then dup2 w STDIN_FILENO fs1 else fs1)
           in dup2 input STDIN_FILENO fs2)"

definition child_body :: "os_env \<Rightarrow> pipeline_command \<Rightarrow> nat \<Rightarrow> int \<Rightarrow> int \<Rightarrow> bool \<Rightarrow> nat \<Rightarrow> fd_table \<Rightarrow> child" where
  "child_body env c input first lst background w fs =
     (case do { wfs \<leftarrow> child_out env c (w, fs); child_in env c wfs } of
        None \<Rightarrow> Exit 0
      | Some (w', fs1) \<Rightarrow>
          let fs2 = (if background then fd_close w' fs1 else fs1);
              fs3 = child_dup c input first lst w' fs2
          in if command_args c ! 0 = None then Crash
             else if exec_ok env (command_args c) then Exec (command_args c) fs3 else Exit 1)"

definition execCommand ::
  "os_env \<Rightarrow> pipeline \<Rightarrow> nat \<Rightarrow> int \<Rightarrow> int \<Rightarrow> bool \<Rightarrow> shell \<Rightarrow> (nat \<times> shell) option" where
  "execCommand env my_pipeline input first lst background s =
     (case commands my_pipeline of
        [] \<Rightarrow> None
      | c # _ \<Rightarrow>
          let (r, fs1) = fd_open (Pipe_Read (npipes s)) (fds s);
              (w, fs2) = fd_open (Pipe_Write (npipes s)) fs1;
              ev = (if fork_ok env (npipes s) then Fork (child_body env c input first lst background w fs2) else Fork_Failed);
              waits = (\<not> background \<longrightarrow> wait_returns env (events s @ [ev]));
              evs = (if background then [ev] else [ev, Wait]);
              fs3 = fd_close w fs2;
              fs4 = (if input \<noteq> 0 then fd_close input fs3 else fs3);
              fs5 = (if lst = 1 then fd_close r fs4 else fs4)
          in if waits then Some (r, \<lparr>fds = fs5, npipes = npipes s + 1, events = events s @ evs\<rparr>) else None)"


section \<open>The main loop\<close>

text \<open>The loop over the commands of a pipeline, which advances \<open>my_pipeline->commands\<close>.\<close>

fun exec_loop :: "os_env \<Rightarrow> bool \<Rightarrow> pipeline_command list \<Rightarrow> nat \<Rightarrow> int \<Rightarrow> shell \<Rightarrow> (pipeline \<times> shell) option" where
  "exec_loop env bg [] input first s = None"
| "exec_loop env bg [c] input first s = do {
     let p = \<lparr>commands = [c], is_background = bg\<rparr>;
     (input', s') \<leftarrow> execCommand env p input first 1 (is_background p) s;
     Some (p, s')
   }"
| "exec_loop env bg (c # c' # cs) input first s = do {
     let p = \<lparr>commands = c # c' # cs, is_background = bg\<rparr>;
     (input', s') \<leftarrow> execCommand env p input first 0 (is_background p) s;
     exec_loop env bg (c' # cs) input' 0 s'
   }"

text \<open>\<open>fgets\<close> on the text that is still to be read: the line, with its newline, and the rest. The
  string functions of the parser see the line up to its first null character.\<close>

definition fgets :: "nat \<Rightarrow> string \<Rightarrow> (string \<times> string) option" where
  "fgets n text =
     (if text = [] then None
      else let line = takeWhile (\<lambda>c. c \<noteq> CHR 0x0A) text;
               k = min (n - 1) (if length line < length text then length line + 1 else length line)
           in Some (take k text, drop k text))"

lemma fgets_shorter:
  assumes "fgets MAX_LINE_LENGTH text = Some (line, rest)"
  shows "length rest < length text" "length line < MAX_LINE_LENGTH"
proof -
  let ?l = "takeWhile (\<lambda>c. c \<noteq> CHR 0x0A) text"
  let ?k = "min 511 (if length ?l < length text then length ?l + 1 else length ?l)"
  from assms have t: "text \<noteq> []" "line = take ?k text" "rest = drop ?k text"
    by (auto simp: fgets_def Let_def MAX_LINE_LENGTH_def split: if_splits)
  then have "0 < ?k" "0 < length text" by auto
  with t show "length rest < length text" "length line < MAX_LINE_LENGTH" by (simp_all add: MAX_LINE_LENGTH_def)
qed

text \<open>One round for every line. The pipeline that is freed at the end is the last one built; without any
  line, \<open>my_pipeline\<close> is not initialised.\<close>

function main_loop :: "os_env \<Rightarrow> bool \<Rightarrow> string \<Rightarrow> pipeline option \<Rightarrow> shell \<Rightarrow> (pipeline option \<times> shell) option" where
  "main_loop env noPrompt text my_pipeline s =
     (let s1 = (if noPrompt then s else s\<lparr>events := events s @ [Prompt]\<rparr>) in
      case fgets MAX_LINE_LENGTH text of
        None \<Rightarrow> Some (my_pipeline, s1)
      | Some (command_line, rest) \<Rightarrow> do {
          p \<leftarrow> pipeline_build (cstr command_line);
          (p', s2) \<leftarrow> exec_loop env (is_background p) (commands p) 0 1 s1;
          main_loop env noPrompt rest (Some p') s2
        })"
  by pat_completeness auto

termination main_loop
  by (relation "measure (\<lambda>(env, np, text, p, s). length text)") (auto dest: fgets_shorter)

declare main_loop.simps [simp del]

text \<open>A pipeline in memory, as \<open>pipeline_free\<close> sees it: its commands are a chain at the addresses
  \<open>0, 1, \<dots>\<close>, the pipeline is at the next address.\<close>

definition heap_of :: "pipeline \<Rightarrow> heap" where
  "heap_of p = (let n = length (commands p) in
     \<lparr>nexts = (\<lambda>a. if a < n then Some (if a + 1 < n then Some (a + 1) else None) else None),
      heads = [n \<mapsto> if 0 < n then Some 0 else None]\<rparr>)"

definition main :: "os_env \<Rightarrow> string list \<Rightarrow> string \<Rightarrow> shell \<Rightarrow> (int \<times> shell) option" where
  "main env argv text s = do {
     let noPrompt = (length argv > 1 \<and> argv ! 1 = ''-n'');
     (my_pipeline, s') \<leftarrow> main_loop env noPrompt text None s;
     p \<leftarrow> my_pipeline;
     let n = length (commands p);
     h \<leftarrow> pipeline_free (n + 1) (n + 2) (heap_of p) n;
     Some (0, s')
   }"


section \<open>The signal handler\<close>

text \<open>The children of the shell: process id, and whether the process has ended.\<close>

definition waitpid_nohang :: "(int \<times> bool) list \<Rightarrow> int \<times> (int \<times> bool) list" where
  "waitpid_nohang cs =
     (if cs = [] then (-1, cs)
      else case find_idx snd cs of None \<Rightarrow> (0, cs) | Some i \<Rightarrow> (fst (cs ! i), take i cs @ drop (i + 1) cs))"

function signalHandler :: "(int \<times> bool) list \<Rightarrow> (int \<times> bool) list" where
  "signalHandler cs = (let (pid, cs') = waitpid_nohang cs in if pid \<le> 0 then cs' else signalHandler cs')"
  by pat_completeness auto

termination signalHandler
  by (relation "measure length") (auto simp: waitpid_nohang_def find_idx_Some split: if_splits option.splits)

declare signalHandler.simps [simp del]

end
