(* ===== verification/Shell_Words.thy ===== *)
theory Shell_Words
  imports Shell_Parser
begin

text \<open>
  How the parser splits text: \<open>strtok_r\<close> on the shapes of text that occur, the replacement loop of
  \<open>deleteWords\<close>, and the loops that fill \<open>command_args\<close>.
\<close>

section \<open>Characters\<close>

definition white :: "char \<Rightarrow> bool" where "white c \<longleftrightarrow> c \<in> set WHITESPACE_CHARS"
definition special :: "char \<Rightarrow> bool" where "special c \<longleftrightarrow> c \<in> set SPECIAL_CHARS"
definition plain :: "char \<Rightarrow> bool" where "plain c \<longleftrightarrow> \<not> white c \<and> \<not> special c"

lemma white_not_special: "white c \<Longrightarrow> \<not> special c"
  by (auto simp: white_def special_def WHITESPACE_CHARS_def SPECIAL_CHARS_def)

lemma special_iff: "special c \<longleftrightarrow> c = CHR ''&'' \<or> c = CHR ''|'' \<or> c = CHR ''<'' \<or> c = CHR ''>''"
  by (auto simp: special_def SPECIAL_CHARS_def)

named_theorems shell_chars \<open>kinds of characters\<close>

lemma plain_cases [shell_chars]:
  "plain c \<Longrightarrow> \<not> white c" "plain c \<Longrightarrow> \<not> special c" "white c \<Longrightarrow> \<not> plain c" "special c \<Longrightarrow> \<not> plain c"
  by (auto simp: plain_def)


section \<open>Tokens\<close>

abbreviation among :: "string \<Rightarrow> char \<Rightarrow> bool" where
  "among d c \<equiv> c \<in> set d"

lemma among_chars: "among WHITESPACE_CHARS = white" "among SPECIAL_CHARS = special"
  by (auto simp: white_def special_def)

lemma dropWhile_all: "\<forall>c\<in>set g. P c \<Longrightarrow> dropWhile P (g @ s) = dropWhile P s"
  by (induction g) auto

lemma strtok_r_none: "strtok_r s d = (None, r) \<longleftrightarrow> (\<forall>c\<in>set s. c \<in> set d) \<and> r = []"
  by (auto simp: strtok_r_def Let_def)

lemma strtok_r_SomeD:
  assumes "strtok_r s d = (Some t, r)"
  shows "t \<noteq> []" "\<forall>c\<in>set t. c \<notin> set d" "set t \<subseteq> set s" "set r \<subseteq> set s"
proof -
  let ?t = "dropWhile (among d) s"
  from assms have t: "?t \<noteq> []" "t = takeWhile (\<lambda>c. c \<notin> set d) ?t" "r = drop 1 (dropWhile (\<lambda>c. c \<notin> set d) ?t)"
    by (auto simp: strtok_r_def Let_def split: if_splits)
  have "hd ?t \<notin> set d" using t(1) hd_dropWhile [of "among d" s] by simp
  then show "t \<noteq> []" using t by (cases ?t) auto
  show "\<forall>c\<in>set t. c \<notin> set d" using t(2) by (auto dest: set_takeWhileD)
  show "set t \<subseteq> set s" using t(2) by (auto dest!: set_takeWhileD set_dropWhileD)
  show "set r \<subseteq> set s" using t(3) by (auto dest!: in_set_dropD set_dropWhileD)
qed

lemma strtok_r_lengths:
  assumes "strtok_r s d = (Some t, r)"
  shows "length t \<le> length s" "length r \<le> length s"
proof -
  let ?t = "dropWhile (among d) s"
  from assms have "t = takeWhile (\<lambda>c. c \<notin> set d) ?t" by (auto simp: strtok_r_def Let_def split: if_splits)
  then have "length t \<le> length ?t" by (simp only: length_takeWhile_le)
  also have "\<dots> \<le> length s" by (rule length_dropWhile_le)
  finally show "length t \<le> length s" .
  show "length r \<le> length s" using strtok_r_shorter [OF assms] by simp
qed

text \<open>A token surrounded by delimiters.\<close>

lemma strtok_r_token:
  assumes "\<forall>c\<in>set g. c \<in> set d" "t \<noteq> []" "\<forall>c\<in>set t. c \<notin> set d" "v = [] \<or> hd v \<in> set d"
  shows "strtok_r (g @ t @ v) d = (Some t, drop 1 v)"
proof -
  have 1: "dropWhile (among d) (g @ t @ v) = t @ v"
    using assms(1-3) by (cases t) (simp_all add: dropWhile_all)
  have 2: "takeWhile (\<lambda>c. c \<notin> set d) (t @ v) = t" "dropWhile (\<lambda>c. c \<notin> set d) (t @ v) = v"
    using assms(3,4) by (cases v; simp add: takeWhile_append2 dropWhile_all)+
  show ?thesis using assms(2) by (simp add: strtok_r_def 1 2)
qed


section \<open>Replacing words\<close>

lemma starts_with_prefix: "starts_with w s \<longleftrightarrow> prefix w s"
  by (auto simp: starts_with_def prefix_def) (metis append_take_drop_id)

lemma strstr_sublist: "strstr s w = None \<longleftrightarrow> \<not> sublist w s"
  by (induction s) (simp_all add: starts_with_prefix sublist_Cons_right)

lemma findChars_sublist: "findChars s w \<longleftrightarrow> sublist w s"
  by (simp add: findChars_def strstr_sublist)

lemma findChars_char [simp]: "findChars s [c] \<longleftrightarrow> c \<in> set s"
  by (auto simp: findChars_sublist sublist_def in_set_conv_decomp)

text \<open>Both loops of \<open>deleteWords\<close> make progress on a word that is not empty, and the second writes as
  many characters as the first has counted.\<close>

lemma copy_loop_steps:
  "copy_loop [] w v = Some []"
  "w \<noteq> [] \<Longrightarrow> copy_loop (w @ u) w v = map_option ((@) v) (copy_loop u w v)"
  "\<not> prefix w (x # u) \<Longrightarrow> copy_loop (x # u) w v = map_option ((#) x) (copy_loop u w v)"
  by (subst copy_loop.simps; simp add: starts_with_prefix map_option_bind bind_map_option comp_def map_conv_bind_option)+

lemma count_loop_steps:
  "count_loop p w (length p) c = Some (length p, c)"
  "w \<noteq> [] \<Longrightarrow> count_loop (p @ w @ u) w (length p) c = count_loop ((p @ w) @ u) w (length (p @ w)) (c + 1)"
  "\<not> prefix w (x # u) \<Longrightarrow> count_loop (p @ x # u) w (length p) c = count_loop ((p @ [x]) @ u) w (length (p @ [x])) c"
  by (subst count_loop.simps; simp add: starts_with_prefix)+

lemma deleteWords_loops:
  assumes "w \<noteq> []"
  shows "\<exists>r k. copy_loop s w v = Some r \<and> count_loop (p @ s) w (length p) c = Some (length (p @ s), c + int k) \<and>
           length r + k * length w = length s + k * length v"
proof (induction "length s" arbitrary: s p c rule: less_induct)
  case less
  consider "s = []" | u where "s = w @ u" | x u where "s = x # u" "\<not> prefix w (x # u)"
    by (cases s) (auto simp: prefix_def)
  then show ?case
  proof cases
    case 1
    then show ?thesis by (auto simp: copy_loop_steps count_loop_steps)
  next
    case (2 u)
    with assms less [of u "p @ w" "c + 1"] obtain r k where
      "copy_loop u w v = Some r" "count_loop ((p @ w) @ u) w (length (p @ w)) (c + 1) = Some (length ((p @ w) @ u), c + 1 + int k)"
      "length r + k * length w = length u + k * length v" by auto
    with 2 assms show ?thesis
      by (intro exI [of _ "v @ r"] exI [of _ "Suc k"]) (simp add: copy_loop_steps count_loop_steps)
  next
    case (3 x u)
    with less [of u "p @ [x]" c] obtain r k where
      "copy_loop u w v = Some r" "count_loop ((p @ [x]) @ u) w (length (p @ [x])) c = Some (length ((p @ [x]) @ u), c + int k)"
      "length r + k * length w = length u + k * length v" by auto
    with 3 show ?thesis
      by (intro exI [of _ "x # r"] exI [of _ k]) (simp add: copy_loop_steps count_loop_steps)
  qed
qed

lemma deleteWords_total:
  assumes "w \<noteq> []"
  obtains r where "copy_loop s w v = Some r" "deleteWords s w v = Some r" "delete_size s w v = Some (int (length r) + 1)"
proof -
  from deleteWords_loops [OF assms, of s v "[]" 0] obtain r k where
    1: "copy_loop s w v = Some r" "count_loop s w 0 0 = Some (length s, int k)" "length r + k * length w = length s + k * length v"
    by auto
  have "delete_size s w v = Some (int (length r) + 1)"
    using 1(2) arg_cong [OF 1(3), of int] by (simp add: delete_size_def algebra_simps)
  with 1(1) show ?thesis by (intro that [of r]) (simp_all add: deleteWords_def)
qed

text \<open>A word that occurs once is cut out.\<close>

lemma deleteWords_once:
  assumes "w \<noteq> []" "\<not> sublist w v" "\<And>a b. u = a @ b \<Longrightarrow> b \<noteq> [] \<Longrightarrow> \<not> prefix w (b @ w @ v)"
  shows "deleteWords (u @ w @ v) w [] = Some (u @ v)"
proof -
  have v: "copy_loop v w [] = Some v"
    using assms(2) by (induction v) (simp_all add: copy_loop_steps sublist_Cons_right)
  have "copy_loop (u @ w @ v) w [] = Some (u @ v)"
    using assms(3)
  proof (induction u)
    case Nil
    then show ?case using assms(1) v by (simp add: copy_loop_steps)
  next
    case (Cons x u)
    have "\<not> prefix w (x # u @ w @ v)" using Cons.prems [of "[]" "x # u"] by simp
    moreover have "copy_loop (u @ w @ v) w [] = Some (u @ v)"
      using Cons.prems by (intro Cons.IH) (metis append_Cons)
    ultimately show ?case by (simp add: copy_loop_steps)
  qed
  with deleteWords_total [OF assms(1), of "u @ w @ v" "[]"] show ?thesis by (metis option.inject)
qed


section \<open>Occurrences of plain words\<close>

text \<open>A word of plain characters does not reach across a character that is not plain.\<close>

lemma sublist_across:
  assumes "c \<notin> set f"
  shows "sublist f (s @ c # t) \<longleftrightarrow> sublist f s \<or> sublist f t"
proof -
  have "sublist f (c # t) \<longleftrightarrow> sublist f t"
    using assms by (cases f) (auto simp: sublist_Cons_right)
  moreover have "sublist f s" if f: "f = x @ y" "suffix x s" "prefix y (c # t)" for x y
    using f assms by (cases y) (auto simp: suffix_imp_sublist)
  ultimately show ?thesis by (auto simp: sublist_append)
qed

lemma sublist_gap:
  assumes "\<forall>c\<in>set g. c \<notin> set f" "f \<noteq> []"
  shows "sublist f (s @ g) \<longleftrightarrow> sublist f s" "sublist f (g @ s) \<longleftrightarrow> sublist f s"
    "g \<noteq> [] \<Longrightarrow> sublist f (s @ g @ t) \<longleftrightarrow> sublist f s \<or> sublist f t"
proof -
  show 1: "sublist f (g @ s) \<longleftrightarrow> sublist f s" for s
    using assms(1) sublist_across [of _ f "[]"] assms(2) by (induction g) auto
  show 2: "sublist f (s @ g @ t) \<longleftrightarrow> sublist f s \<or> sublist f t" if "g \<noteq> []" for t
  proof -
    from that obtain c g' where g: "g = c # g'" by (cases g) auto
    with assms have "sublist f (s @ g @ t) \<longleftrightarrow> sublist f s \<or> sublist f (g' @ t)" by (simp add: sublist_across)
    moreover have "sublist f (g' @ t) \<longleftrightarrow> sublist f (g @ t)"
      using g assms sublist_across [of c f "[]" "g' @ t"] by simp
    ultimately show ?thesis using 1 by simp
  qed
  show "sublist f (s @ g) \<longleftrightarrow> sublist f s"
    using 2 [of "[]"] assms(2) by (cases "g = []") auto
qed

lemma prefix_across:
  assumes "c \<notin> set f" "prefix f (a @ c # b)"
  shows "prefix f a"
  using assms
proof (induction a arbitrary: f)
  case Nil
  then show ?case by (cases f) auto
next
  case (Cons x a)
  then show ?case by (cases f) auto
qed


section \<open>Redirections\<close>

lemma redirect_none [simp]: "c \<notin> set s \<Longrightarrow> redirect s [c] = Some (None, s)"
  by (simp add: redirect_def)

text \<open>The field of a line after the first run of the redirection character that follows a first
  field, and the word in it from which the file name is taken.\<close>

definition second_field :: "char \<Rightarrow> string \<Rightarrow> string" where
  "second_field c s = takeWhile (\<lambda>x. x \<noteq> c) (dropWhile (\<lambda>x. x = c) (dropWhile (\<lambda>x. x \<noteq> c) (dropWhile (\<lambda>x. x = c) s)))"

definition name_word :: "char \<Rightarrow> string \<Rightarrow> string" where
  "name_word c s = takeWhile (\<lambda>x. \<not> white x) (dropWhile white (second_field c s))"

lemma strtok_r_fst:
  "fst (strtok_r s d) = (if \<forall>c\<in>set s. c \<in> set d then None else Some (takeWhile (\<lambda>c. c \<notin> set d) (dropWhile (among d) s)))"
  by (auto simp: strtok_r_def Let_def)

lemma dropWhile_drop1: "dropWhile P (drop 1 (dropWhile (\<lambda>x. \<not> P x) s)) = dropWhile P (dropWhile (\<lambda>x. \<not> P x) s)"
  by (induction s) simp_all


lemma redirect_token_eq:
  "redirect_token s [c] =
     (if \<forall>x\<in>set (name_word c s). special x then None
      else Some (takeWhile (\<lambda>x. \<not> special x) (dropWhile special (name_word c s))))"
proof -
  obtain t1 r1 where 1: "strtok_r s [c] = (t1, r1)" by force
  obtain t2 r2 where 2: "strtok_r r1 [c] = (t2, r2)" by force
  have r1: "dropWhile (\<lambda>x. x = c) r1 = dropWhile (\<lambda>x. x = c) (dropWhile (\<lambda>x. x \<noteq> c) (dropWhile (\<lambda>x. x = c) s))"
  proof (cases "dropWhile (\<lambda>x. x = c) s = []")
    case True
    then show ?thesis using 1 by (simp add: strtok_r_def del: dropWhile_eq_Nil_conv)
  next
    case False
    then have "r1 = drop 1 (dropWhile (\<lambda>x. x \<noteq> c) (dropWhile (\<lambda>x. x = c) s))"
      using 1 by (simp add: strtok_r_def Let_def del: dropWhile_eq_Nil_conv)
    then show ?thesis by (simp only: dropWhile_drop1 [of "\<lambda>x. x = c"])
  qed
  have sf: "second_field c s = takeWhile (\<lambda>x. x \<noteq> c) (dropWhile (\<lambda>x. x = c) r1)"
    by (simp only: second_field_def r1)
  have t2: "t2 = None \<and> r2 = [] \<and> second_field c s = [] \<or> t2 = Some (second_field c s)"
    using 2 by (cases "dropWhile (\<lambda>x. x = c) r1 = []") (auto simp: sf strtok_r_def Let_def simp del: dropWhile_eq_Nil_conv)
  obtain t3 r3 where 3: "strtok t2 WHITESPACE_CHARS r2 = (t3, r3)" by force
  have t3: "t3 = None \<and> r3 = [] \<and> name_word c s = [] \<or> t3 = Some (name_word c s)"
    using 3 t2 by (cases "dropWhile white (second_field c s) = []")
      (auto simp: strtok_def strtok_r_def Let_def name_word_def among_chars white_def [symmetric] simp del: dropWhile_eq_Nil_conv)
  have "redirect_token s [c] = fst (strtok t3 SPECIAL_CHARS r3)"
    using 1 2 3 by (simp add: redirect_token_def strtok_def split: prod.splits)
  with t3 show ?thesis by (auto simp: strtok_def strtok_r_fst special_def [symmetric] among_chars)
qed

lemma redirect_token_plain:
  assumes "redirect_token s [c] = Some f"
  shows "f \<noteq> []" "\<forall>x\<in>set f. plain x"
proof -
  let ?w = "dropWhile special (name_word c s)"
  from assms have f: "f = takeWhile (\<lambda>x. \<not> special x) ?w" "?w \<noteq> []"
    by (auto simp: redirect_token_eq split: if_splits)
  from f(2) have "\<not> special (hd ?w)" by (rule hd_dropWhile)
  with f show "f \<noteq> []" by (cases ?w) auto
  have "\<not> white x" if "x \<in> set (name_word c s)" for x
    using that by (auto simp: name_word_def dest: set_takeWhileD)
  with f(1) show "\<forall>x\<in>set f. plain x" by (auto simp: plain_def dest!: set_takeWhileD set_dropWhileD)
qed

text \<open>A redirection fails only for want of a file name.\<close>

lemma redirect_defined:
  assumes "c \<in> set s \<Longrightarrow> redirect_token s [c] = Some f"
  obtains r where "redirect s [c] = Some (if c \<in> set s then Some f else None, r)"
proof (cases "c \<in> set s")
  case True
  with assms have f: "redirect_token s [c] = Some f" by simp
  from deleteWords_total [OF redirect_token_plain(1) [OF f], of s "[]"] obtain r where "deleteWords s f [] = Some r" by blast
  with True f show ?thesis by (intro that [of r]) (simp add: redirect_def)
qed (simp add: that)

text \<open>A redirection character followed by a file name that does not occur elsewhere.\<close>

lemma redirect_once:
  assumes c: "special c" and u: "c \<notin> set u" "u \<noteq> []"
    and g: "\<forall>x\<in>set g. white x" and f: "f \<noteq> []" "\<forall>x\<in>set f. plain x"
    and v: "c \<notin> set v" "v = [] \<or> \<not> plain (hd v)" and occ: "\<not> sublist f u" "\<not> sublist f v"
  shows "redirect (u @ c # g @ f @ v) [c] = Some (Some f, u @ c # g @ v)"
proof -
  have cgf: "c \<notin> set g" "c \<notin> set f" using c g f(2) white_not_special by (auto simp: plain_def)
  have "dropWhile (\<lambda>x. x = c) (u @ c # g @ f @ v) = u @ c # g @ f @ v" using u by (cases u) auto
  moreover have "dropWhile (\<lambda>x. x \<noteq> c) (u @ c # g @ f @ v) = c # g @ f @ v"
    using u(1) by (induction u) auto
  ultimately have 1: "dropWhile (\<lambda>x. x \<noteq> c) (dropWhile (\<lambda>x. x = c) (u @ c # g @ f @ v)) = c # g @ f @ v" by simp
  have "dropWhile (\<lambda>x. x = c) (g @ f @ v) = g @ f @ v"
    using cgf f(1) by (cases g; cases f) auto
  then have 2: "second_field c (u @ c # g @ f @ v) = g @ f @ v"
    using cgf v(1) unfolding second_field_def 1 by (auto simp: takeWhile_eq_all_conv)
  have f': "\<forall>x\<in>set f. \<not> white x \<and> \<not> special x" using f(2) by (simp add: plain_def)
  have "dropWhile white (g @ f @ v) = f @ v" using g f(1) f' by (cases f) (auto simp: dropWhile_all)
  then have 3: "name_word c (u @ c # g @ f @ v) = f @ takeWhile (\<lambda>x. \<not> white x) v"
    using f' unfolding name_word_def 2 by (simp add: takeWhile_append2)
  have "takeWhile (\<lambda>x. \<not> special x) (takeWhile (\<lambda>x. \<not> white x) v) = []"
    using v(2) by (cases v) (auto simp: plain_def)
  then have 4: "redirect_token (u @ c # g @ f @ v) [c] = Some f"
    using f' f(1) unfolding redirect_token_eq 3 by (cases f) (auto simp: takeWhile_append2)
  have "deleteWords ((u @ c # g) @ f @ v) f [] = Some ((u @ c # g) @ v)"
  proof (rule deleteWords_once)
    fix a b
    assume ab: "u @ c # g = a @ b" "b \<noteq> []"
    show "\<not> prefix f (b @ f @ v)"
    proof
      assume pre: "prefix f (b @ f @ v)"
      have "\<exists>x y. b = y @ x # drop (Suc (length y)) b \<and> x \<notin> set f \<and> \<not> prefix f y"
      proof (cases "length a \<le> length u")
        case True
        then have b: "b = drop (length a) u @ c # g" using ab(1) by (metis append_eq_append_conv_if)
        have "\<not> prefix f (drop (length a) u)"
          using occ(1) by (meson prefix_imp_sublist sublist_drop sublist_order.order_trans)
        with b cgf show ?thesis by (intro exI [of _ c] exI [of _ "drop (length a) u"]) simp
      next
        case False
        then have "set b \<subseteq> set g" using ab(1) by (auto simp: append_eq_append_conv2 Cons_eq_append_conv)
        with g f' have "hd b \<notin> set f" using ab(2) by (cases b) auto
        with ab(2) f(1) show ?thesis by (intro exI [of _ "hd b"] exI [of _ "[]"]) (cases b; simp)
      qed
      then obtain x y where "b = y @ x # drop (Suc (length y)) b" "x \<notin> set f" "\<not> prefix f y" by blast
      with pre prefix_across [of x f y] show False by (metis append.assoc append_Cons)
    qed
  qed (use f occ in auto)
  with 4 show ?thesis by (simp add: redirect_def)
qed



section \<open>The arguments of a command\<close>

lemma special_loop_none: "\<forall>x\<in>set w. special x \<Longrightarrow> special_loop w pos args = Some args"
  by (subst special_loop.simps) (simp add: strtok_r_def special_def)

lemma special_loop_word:
  assumes "w \<noteq> []" "\<forall>x\<in>set w. plain x" "\<forall>x\<in>set v. special x" "pos < length args"
  shows "special_loop (w @ v) pos args = Some (args[pos := Some w])"
proof -
  have "strtok_r ([] @ w @ v) SPECIAL_CHARS = (Some w, drop 1 v)"
    using assms(1-3) by (intro strtok_r_token; cases v) (auto simp: plain_def special_def)
  moreover have "\<forall>x\<in>set (drop 1 v). special x" using assms(3) by (auto dest: in_set_dropD)
  ultimately show ?thesis
    using assms(4) by (subst special_loop.simps) (simp add: array_set_in special_loop_none)
qed

text \<open>A word writes at most its own entry.\<close>

lemma special_loop_defined:
  assumes "pos < length args"
  obtains x where "special_loop w pos args = Some (args[pos := x])"
  using assms
proof (induction w pos args rule: special_loop.induct)
  case (1 w pos args)
  show ?case
  proof (cases "strtok_r w SPECIAL_CHARS")
    case (Pair t r)
    show ?thesis
    proof (cases t)
      case None
      with Pair show ?thesis by (intro 1(2) [of "args ! pos"], subst special_loop.simps) simp
    next
      case (Some tok)
      show ?thesis
      proof (rule 1(1) [OF Pair [symmetric] Some, of "args[pos := Some tok]"])
        show "array_set args (int pos) (Some tok) = Some (args[pos := Some tok])" using 1(3) by (simp add: array_set_in)
        show "pos < length (args[pos := Some tok])" using 1(3) by simp
        fix x
        assume "special_loop r pos (args[pos := Some tok]) = Some (args[pos := Some tok, pos := x])"
        then show ?thesis using Pair Some 1(3) by (intro 1(2) [of x], subst special_loop.simps) (simp add: array_set_in)
      qed
    qed
  qed
qed

text \<open>The words of a line of \<open>n\<close> characters fit into half of \<open>n + 1\<close> entries: words are separated.\<close>

lemma strtok_r_shorter2:
  assumes "strtok_r s d = (Some t, r)"
  shows "length r + 2 \<le> length s \<or> r = [] \<and> 0 < length s"
proof -
  let ?t = "dropWhile (among d) s"
  from assms have t: "?t \<noteq> []" "r = drop 1 (dropWhile (\<lambda>c. c \<notin> set d) ?t)" by (auto simp: strtok_r_def Let_def split: if_splits)
  define e where "e = dropWhile (\<lambda>c. c \<notin> set d) ?t"
  have "hd ?t \<notin> set d" using t(1) hd_dropWhile [of "among d" s] by simp
  then have "e = dropWhile (\<lambda>c. c \<notin> set d) (tl ?t)" using t(1) unfolding e_def by (cases ?t) simp_all
  then have "length e \<le> length (tl ?t)" by (simp only: length_dropWhile_le)
  moreover have "length ?t \<le> length s" by (rule length_dropWhile_le)
  moreover have "length (tl ?t) + 1 = length ?t" using t(1) by (cases ?t) simp_all
  moreover have "r = drop 1 e" using t(2) by (simp only: e_def)
  ultimately show ?thesis by (cases e) auto
qed

lemma args_loop_defined:
  assumes "pos + (length s + 1) div 2 \<le> length args"
  shows "\<exists>args'. args_loop s pos args = Some args' \<and> length args' = length args \<and>
           (\<forall>i \<ge> pos + (length s + 1) div 2. args' ! i = args ! i)"
  using assms
proof (induction s pos args rule: args_loop.induct)
  case (1 s pos args)
  obtain t r where p: "strtok_r s WHITESPACE_CHARS = (t, r)" by force
  show ?case
  proof (cases t)
    case None
    with p show ?thesis by (subst args_loop.simps) simp
  next
    case (Some tok)
    from strtok_r_shorter2 [OF p [unfolded Some]] have len: "pos + 1 + (length r + 1) div 2 \<le> pos + (length s + 1) div 2"
      by (cases s) auto
    then have pos: "pos < length args" using "1.prems" by linarith
    from special_loop_defined [OF pos, of tok] obtain x where x: "special_loop tok pos args = Some (args[pos := x])" by blast
    from "1.IH" [OF p [symmetric] Some x] len "1.prems" obtain args' where
      "args_loop r (pos + 1) (args[pos := x]) = Some args'" "length args' = length args"
      "\<forall>i \<ge> pos + 1 + (length r + 1) div 2. args' ! i = args[pos := x] ! i" by auto
    with p Some x len show ?thesis by (subst args_loop.simps) auto
  qed
qed

end
