(* ===== verification/Shell_Props.thy ===== *)
theory Shell_Props
  imports Shell_Words
begin

text \<open>
  Correctness of the command-line parser: it reads back every pipeline that is written in the
  grammar of the assignment, it stays inside its buffers on every line, and it fails exactly on
  redirections without a file name.
\<close>

section \<open>Written commands\<close>

text \<open>A command as it is written: the words with the blanks before them, the blanks after the last
  word, and the redirections, each with its character, the blanks before and after the file name.\<close>

type_synonym redirection = "char \<times> string \<times> string \<times> string"

record written =
  words :: "(string \<times> string) list"
  blanks :: string
  redirs :: "redirection list"

fun layout :: "(string \<times> string) list \<Rightarrow> string" where
  "layout [] = []"
| "layout ((g, w) # ws) = g @ w @ layout ws"

fun write_redirs :: "redirection list \<Rightarrow> string" where
  "write_redirs [] = []"
| "write_redirs ((c, g, f, h) # rs) = c # g @ f @ h @ write_redirs rs"

definition write_command :: "written \<Rightarrow> string" where
  "write_command t = layout (words t) @ blanks t @ write_redirs (redirs t)"

fun write_pipeline :: "written list \<Rightarrow> string \<Rightarrow> string" where
  "write_pipeline [] e = e"
| "write_pipeline [t] e = write_command t @ e"
| "write_pipeline (t # ts) e = write_command t @ CHR ''|'' # write_pipeline ts e"

definition is_word :: "string \<Rightarrow> bool" where
  "is_word w \<longleftrightarrow> w \<noteq> [] \<and> list_all plain w"

text \<open>Words after the first are set apart by blanks.\<close>

fun layout_ok :: "(string \<times> string) list \<Rightarrow> bool" where
  "layout_ok [] \<longleftrightarrow> True"
| "layout_ok ((g, w) # ws) \<longleftrightarrow> list_all white g \<and> is_word w \<and> (ws \<noteq> [] \<longrightarrow> fst (hd ws) \<noteq> []) \<and> layout_ok ws"

fun redir_ok :: "redirection \<Rightarrow> bool" where
  "redir_ok (c, g, f, h) \<longleftrightarrow> (c = CHR ''<'' \<or> c = CHR ''>'') \<and> list_all white g \<and> is_word f \<and> list_all white h"

definition path_of :: "char \<Rightarrow> redirection list \<Rightarrow> string option" where
  "path_of c rs = map_option (\<lambda>(g, f, h). f) (map_of rs c)"

text \<open>At most one redirection of each kind. The name of the input file may occur neither in a word
  nor in the name of the output file, and the name of the output file in no word: the
  parser deletes every occurrence of a file name from the line.\<close>

definition written_ok :: "written \<Rightarrow> bool" where
  "written_ok t \<longleftrightarrow> words t \<noteq> [] \<and> length (words t) < MAX_ARGV_LENGTH \<and> layout_ok (words t) \<and> list_all white (blanks t) \<and>
     list_all redir_ok (redirs t) \<and> distinct (map fst (redirs t)) \<and>
     (\<forall>(c, g, f, h)\<in>set (redirs t). \<forall>(k, w)\<in>set (words t). \<not> sublist f w) \<and>
     (case (path_of CHR ''<'' (redirs t), path_of CHR ''>'' (redirs t)) of (Some f, Some f') \<Rightarrow> \<not> sublist f f' | _ \<Rightarrow> True)"

text \<open>What a written command means.\<close>

definition meaning :: "written \<Rightarrow> pipeline_command" where
  "meaning t =
     \<lparr>command_args = map (Some \<circ> snd) (words t) @ replicate (MAX_ARGV_LENGTH - length (words t)) None,
      redirect_in_path = path_of CHR ''<'' (redirs t), redirect_out_path = path_of CHR ''>'' (redirs t)\<rparr>"


section \<open>Words\<close>

lemma is_wordD: "is_word w \<Longrightarrow> w \<noteq> []" "is_word w \<Longrightarrow> \<forall>x\<in>set w. plain x"
  by (simp_all add: is_word_def list_all_iff)

lemma args_loop_none:
  assumes "\<forall>x\<in>set e. \<not> plain x"
  shows "args_loop e pos args = Some args"
  using assms
proof (induction e pos args rule: args_loop.induct)
  case (1 e pos args)
  obtain t r where p: "strtok_r e WHITESPACE_CHARS = (t, r)" by force
  show ?case
  proof (cases t)
    case None
    with p show ?thesis by (subst args_loop.simps) simp
  next
    case (Some tok)
    note D = strtok_r_SomeD [OF p [unfolded Some]]
    have "\<forall>x\<in>set tok. special x" using D(2,3) "1.prems" by (auto simp: plain_def white_def)
    then have s: "special_loop tok pos args = Some args" by (rule special_loop_none)
    have "args_loop r (pos + 1) args = Some args" using "1.IH" [OF p [symmetric] Some s] D(4) "1.prems" by auto
    with p Some s show ?thesis by (subst args_loop.simps) simp
  qed
qed

lemma args_loop_white: "x \<in> set WHITESPACE_CHARS \<Longrightarrow> args_loop (x # s) pos args = args_loop s pos args"
  by (subst (1 2) args_loop.simps) (simp add: strtok_r_def)

text \<open>The words of a text, followed by characters that belong to no word.\<close>

lemma args_loop_layout:
  assumes "layout_ok ws" "\<forall>x\<in>set e. \<not> plain x" "pos + length ws \<le> length args"
  shows "args_loop (layout ws @ e) pos args = Some (take pos args @ map (Some \<circ> snd) ws @ drop (pos + length ws) args)"
  using assms
proof (induction ws arbitrary: pos args)
  case Nil
  then show ?case by (simp add: args_loop_none)
next
  case (Cons gw ws)
  obtain g w where gw: "gw = (g, w)" by force
  have g: "\<forall>c\<in>set g. c \<in> set WHITESPACE_CHARS" and w: "w \<noteq> []" "\<forall>x\<in>set w. plain x"
    using Cons.prems(1) by (auto simp: gw is_word_def list_all_iff white_def)
  have w': "\<forall>c\<in>set w. c \<notin> set WHITESPACE_CHARS" using w(2) by (auto simp: plain_def white_def)
  show ?case
  proof (cases ws)
    case Nil
    define v where "v = takeWhile (\<lambda>x. \<not> white x) e"
    define r where "r = dropWhile (\<lambda>x. \<not> white x) e"
    have e: "e = v @ r" by (simp add: v_def r_def)
    have v: "\<forall>x\<in>set v. special x" "\<forall>c\<in>set v. c \<notin> set WHITESPACE_CHARS"
      using Cons.prems(2) by (auto simp: v_def plain_def white_def dest: set_takeWhileD)
    have r: "r = [] \<or> hd r \<in> set WHITESPACE_CHARS" using hd_dropWhile [of "\<lambda>x. \<not> white x" e] by (auto simp: r_def white_def)
    have "strtok_r (g @ (w @ v) @ r) WHITESPACE_CHARS = (Some (w @ v), drop 1 r)"
      by (rule strtok_r_token) (use g w w' v r in auto)
    moreover have "special_loop (w @ v) pos args = Some (args[pos := Some w])"
      by (rule special_loop_word) (use w v Cons.prems(3) in auto)
    moreover have "args_loop (drop 1 r) (pos + 1) (args[pos := Some w]) = Some (args[pos := Some w])"
      by (rule args_loop_none) (use Cons.prems(2) e in \<open>auto dest: in_set_dropD\<close>)
    moreover have "args[pos := Some w] = take pos args @ Some w # drop (Suc pos) args"
      using Cons.prems(3) by (simp add: upd_conv_take_nth_drop)
    ultimately show ?thesis
      by (subst args_loop.simps) (simp add: gw Nil e)
  next
    case (Cons gw' ws')
    then obtain x g' w2 where ws: "ws = (x # g', w2) # ws'" using Cons.prems(1) by (cases gw'; cases "fst gw'") (auto simp: gw)
    then have x: "x \<in> set WHITESPACE_CHARS" using Cons.prems(1) by (simp add: gw white_def)
    have "strtok_r (g @ w @ layout ws @ e) WHITESPACE_CHARS = (Some w, drop 1 (layout ws @ e))"
      by (rule strtok_r_token) (use g w w' x ws in auto)
    then have 1: "strtok_r (g @ w @ layout ws @ e) WHITESPACE_CHARS = (Some w, layout ((g', w2) # ws') @ e)"
      by (simp add: ws)
    have 2: "special_loop w pos args = Some (args[pos := Some w])"
      using special_loop_word [of w "[]"] w Cons.prems(3) by simp
    have "args_loop (layout ws @ e) (pos + 1) (args[pos := Some w]) =
        Some (take (pos + 1) (args[pos := Some w]) @ map (Some \<circ> snd) ws @ drop (pos + 1 + length ws) (args[pos := Some w]))"
      using Cons.prems by (intro Cons.IH) (auto simp: gw)
    moreover have "args_loop (layout ws @ e) (pos + 1) (args[pos := Some w]) = args_loop (layout ((g', w2) # ws') @ e) (pos + 1) (args[pos := Some w])"
      using x by (simp add: ws args_loop_white)
    moreover have "take (pos + 1) (args[pos := Some w]) = take pos args @ [Some w]"
      using Cons.prems(3) by (simp add: take_Suc_conv_app_nth)
    ultimately show ?thesis
      using 1 2 by (subst args_loop.simps) (simp add: gw)
  qed
qed


section \<open>Commands\<close>

lemma layout_chars: "layout_ok ws \<Longrightarrow> \<forall>x\<in>set (layout ws). \<not> special x"
  by (induction ws rule: layout_ok.induct) (auto simp: is_word_def list_all_iff plain_def white_not_special)

lemma layout_ne: "layout_ok ws \<Longrightarrow> ws \<noteq> [] \<Longrightarrow> layout ws \<noteq> []"
  by (cases ws rule: layout_ok.cases) (auto simp: is_word_def)

lemma white_outside: "is_word f \<Longrightarrow> list_all white g \<Longrightarrow> \<forall>x\<in>set g. x \<notin> set f"
  by (auto simp: is_word_def list_all_iff plain_def)

lemma occurs_layout:
  assumes "is_word f" "layout_ok ws" "\<forall>(k, w)\<in>set ws. \<not> sublist f w"
  shows "\<not> sublist f (layout ws)"
  using assms(2,3)
proof (induction ws)
  case Nil
  then show ?case using assms(1) by (simp add: is_word_def)
next
  case (Cons gw ws)
  obtain g w where gw: "gw = (g, w)" by force
  note fne = is_wordD(1) [OF assms(1)]
  have "sublist f (g @ w @ layout ws) \<longleftrightarrow> sublist f (w @ layout ws)"
    using Cons.prems(1) by (intro sublist_gap fne white_outside assms(1)) (simp add: gw)
  moreover have "\<not> sublist f (w @ layout ws)"
  proof (cases ws)
    case Nil
    with Cons.prems show ?thesis by (simp add: gw)
  next
    case (Cons gw' ws')
    obtain g' w' where ws: "ws = (g', w') # ws'" using Cons by (cases gw') auto
    have g': "list_all white g'" "g' \<noteq> []" using Cons.prems(1) by (simp_all add: gw ws)
    have "sublist f (w @ g' @ w' @ layout ws') \<longleftrightarrow> sublist f w \<or> sublist f (w' @ layout ws')"
      by (rule sublist_gap(3) [OF white_outside [OF assms(1) g'(1)] fne g'(2)])
    moreover have "sublist f (w' @ layout ws') \<longleftrightarrow> sublist f (layout ws)"
      using sublist_gap(2) [OF white_outside [OF assms(1) g'(1)] fne] by (simp add: ws)
    ultimately show ?thesis using Cons.IH Cons.prems by (auto simp: gw ws)
  qed
  ultimately show ?case by (simp add: gw)
qed

text \<open>Text that contains no word does not contain a file name.\<close>

lemma no_word_occurs:
  assumes "is_word f" "\<forall>x\<in>set e. \<not> plain x"
  shows "\<not> sublist f e" "\<not> sublist f s \<Longrightarrow> \<not> sublist f (s @ e)" "\<not> sublist f s \<Longrightarrow> \<not> sublist f (e @ s)"
proof -
  have e: "\<forall>x\<in>set e. x \<notin> set f" using assms by (auto simp: is_word_def list_all_iff)
  note g = sublist_gap [OF e is_wordD(1) [OF assms(1)]]
  show "\<not> sublist f s \<Longrightarrow> \<not> sublist f (s @ e)" "\<not> sublist f s \<Longrightarrow> \<not> sublist f (e @ s)" by (simp_all add: g)
  show "\<not> sublist f e" using g(1) [of "[]"] is_wordD(1) [OF assms(1)] by simp
qed

text \<open>One redirection of a written command is read and cut out.\<close>

lemma redirect_written:
  assumes "redir_ok (c, g, f, h)" "c \<notin> set u" "u \<noteq> []" "\<not> sublist f u" "c \<notin> set v" "v = [] \<or> \<not> plain (hd v)" "\<not> sublist f v"
  shows "redirect (u @ write_redirs [(c, g, f, h)] @ v) [c] = Some (Some f, u @ c # g @ h @ v)"
proof -
  have c: "special c" and g: "\<forall>x\<in>set g. white x" and h: "\<forall>x\<in>set h. white x" and f: "is_word f"
    using assms(1) by (auto simp: special_iff list_all_iff)
  have h': "\<forall>x\<in>set h. \<not> plain x" "c \<notin> set h" using h c by (auto simp: plain_def dest: white_not_special)
  have "redirect (u @ c # g @ f @ (h @ v)) [c] = Some (Some f, u @ c # g @ (h @ v))"
    by (rule redirect_once [OF c assms(2,3) g])
      (use f assms h' no_word_occurs(3) [OF f h'(1)] in \<open>auto simp: is_wordD hd_append\<close>)
  then show ?thesis by simp
qed


lemma link_args:
  assumes "redirect line RED_IN = Some (path_in, l)" "redirect l RED_OUT = Some (path_out, layout ws @ e)"
    "layout_ok ws" "\<forall>x\<in>set e. \<not> plain x" "length ws < MAX_ARGV_LENGTH"
  shows "p_command_link line pipeline_command_alloc =
    Some \<lparr>command_args = map (Some \<circ> snd) ws @ replicate (MAX_ARGV_LENGTH - length ws) None,
      redirect_in_path = path_in, redirect_out_path = path_out\<rparr>"
  using assms args_loop_layout [of ws e 0 "replicate MAX_ARGV_LENGTH None"]
  by (simp add: p_command_link_def pipeline_command_alloc_def)

text \<open>A command is read back, whatever the order of its redirections.\<close>

lemma redirs_cases:
  assumes "list_all redir_ok rs" "distinct (map fst rs)"
  obtains "rs = []"
    | g f h where "rs = [(CHR ''<'', g, f, h)]"
    | g f h where "rs = [(CHR ''>'', g, f, h)]"
    | g f h g' f' h' where "rs = [(CHR ''<'', g, f, h), (CHR ''>'', g', f', h')]"
    | g f h g' f' h' where "rs = [(CHR ''>'', g', f', h'), (CHR ''<'', g, f, h)]"
proof (cases rs)
  case (Cons r1 rs1)
  obtain c1 g1 f1 h1 where r1: "r1 = (c1, g1, f1, h1)" by (cases r1) auto
  show ?thesis
  proof (cases rs1)
    case Nil
    with Cons r1 assms that(2,3) show ?thesis by auto
  next
    case (Cons r2 rs2)
    obtain c2 g2 f2 h2 where r2: "r2 = (c2, g2, f2, h2)" by (cases r2) auto
    have "rs2 = []" using assms \<open>rs = r1 # rs1\<close> Cons r1 r2 by (cases rs2) auto
    with assms \<open>rs = r1 # rs1\<close> Cons r1 r2 that(4,5) show ?thesis by auto
  qed
qed (use that(1) in simp)

lemma redir_chars:
  assumes "redir_ok (c, g, f, h)"
  shows "is_word f" "\<forall>x\<in>set g \<union> set h. \<not> plain x" "\<forall>x\<in>set g \<union> set f \<union> set h. \<not> special x"
  using assms by (auto simp: list_all_iff is_word_def plain_def dest: white_not_special)

lemma read_in_out:
  assumes r: "redir_ok (CHR ''<'', g, f, h)" and r': "redir_ok (CHR ''>'', g', f', h')"
    and u: "u \<noteq> []" "CHR ''<'' \<notin> set u" "CHR ''>'' \<notin> set u" "\<not> sublist f u" "\<not> sublist f' u"
    and e: "\<forall>x\<in>set e. \<not> plain x" "CHR ''<'' \<notin> set e" "CHR ''>'' \<notin> set e" and f': "\<not> sublist f f'"
  defines "v \<equiv> CHR ''>'' # g' @ f' @ h' @ e" and "u' \<equiv> u @ CHR ''<'' # g @ h"
  shows "redirect (u @ CHR ''<'' # g @ f @ h @ v) RED_IN = Some (Some f, u' @ v)"
    "redirect (u' @ v) RED_OUT = Some (Some f', u' @ CHR ''>'' # g' @ h' @ e)"
proof -
  note R = redir_chars [OF r] and R' = redir_chars [OF r']
  have np: "\<not> plain CHR ''<''" "\<not> plain CHR ''>''" by (simp_all add: plain_def special_iff)
  have hd_e: "e = [] \<or> \<not> plain (hd e)" using e(1) by (auto dest: hd_in_set)
  have "\<not> sublist f (f' @ (h' @ e))" by (rule no_word_occurs(2) [OF R(1) _ f']) (use R'(2) e(1) in auto)
  then have "\<not> sublist f ((CHR ''>'' # g') @ f' @ h' @ e)" by (rule no_word_occurs(3) [OF R(1), rotated]) (use R'(2) np in auto)
  then have fv: "\<not> sublist f v" by (simp add: v_def)
  have "CHR ''<'' \<notin> set v" "v = [] \<or> \<not> plain (hd v)" using e(2) R'(3) np by (auto simp: v_def special_iff)
  from redirect_written [OF r u(2,1,4) this fv]
  show "redirect (u @ CHR ''<'' # g @ f @ h @ v) RED_IN = Some (Some f, u' @ v)" by (simp add: RED_IN_def u'_def)
  have "\<not> sublist f' u'" unfolding u'_def using R(2) np u(5) by (intro no_word_occurs(2) [OF R'(1)]) auto
  moreover have "CHR ''>'' \<notin> set u'" "u' \<noteq> []" using u(3) R(3) by (auto simp: u'_def special_iff)
  ultimately show "redirect (u' @ v) RED_OUT = Some (Some f', u' @ CHR ''>'' # g' @ h' @ e)"
    using redirect_written [OF r' _ _ _ e(3) hd_e no_word_occurs(1) [OF R'(1) e(1)]] by (simp add: v_def RED_OUT_def)
qed

lemma read_out_in:
  assumes r: "redir_ok (CHR ''<'', g, f, h)" and r': "redir_ok (CHR ''>'', g', f', h')"
    and u: "u \<noteq> []" "CHR ''<'' \<notin> set u" "CHR ''>'' \<notin> set u" "\<not> sublist f u" "\<not> sublist f' u"
    and e: "\<forall>x\<in>set e. \<not> plain x" "CHR ''<'' \<notin> set e" "CHR ''>'' \<notin> set e" and f': "\<not> sublist f f'"
  defines "u' \<equiv> u @ CHR ''>'' # g' @ f' @ h'" and "v \<equiv> CHR ''<'' # g @ h @ e"
  shows "redirect (u' @ CHR ''<'' # g @ f @ h @ e) RED_IN = Some (Some f, u' @ v)"
    "redirect (u' @ v) RED_OUT = Some (Some f', u @ CHR ''>'' # g' @ h' @ v)"
proof -
  note R = redir_chars [OF r] and R' = redir_chars [OF r']
  have np: "\<not> plain CHR ''<''" "\<not> plain CHR ''>''" by (simp_all add: plain_def special_iff)
  have hd_e: "e = [] \<or> \<not> plain (hd e)" using e(1) by (auto dest: hd_in_set)
  have "\<not> sublist f (u @ (CHR ''>'' # g') @ f')"
    using sublist_gap(3) [of "CHR ''>'' # g'" f u f'] R'(2) R(1) np u(4) f' by (auto simp: is_word_def list_all_iff)
  then have "\<not> sublist f ((u @ (CHR ''>'' # g') @ f') @ h')" by (rule no_word_occurs(2) [OF R(1), rotated]) (use R'(2) in auto)
  then have "\<not> sublist f u'" by (simp add: u'_def)
  moreover have "CHR ''<'' \<notin> set u'" "u' \<noteq> []" using u R'(3) by (auto simp: u'_def special_iff)
  ultimately show "redirect (u' @ CHR ''<'' # g @ f @ h @ e) RED_IN = Some (Some f, u' @ v)"
    using redirect_written [OF r _ _ _ e(2) hd_e no_word_occurs(1) [OF R(1) e(1)]] by (simp add: v_def RED_IN_def)
  have v: "\<forall>x\<in>set v. \<not> plain x" "v = [] \<or> \<not> plain (hd v)" using R(2) e(1) np by (auto simp: v_def)
  have v2: "CHR ''>'' \<notin> set v" using R(3) e(3) by (auto simp: v_def special_iff)
  show "redirect (u' @ v) RED_OUT = Some (Some f', u @ CHR ''>'' # g' @ h' @ v)"
    using redirect_written [OF r' u(3,1,5) v2 v(2) no_word_occurs(1) [OF R'(1) v(1)]] by (simp add: u'_def RED_OUT_def)
qed

lemma redirects_read:
  assumes rs: "list_all redir_ok rs" "distinct (map fst rs)" and u: "u \<noteq> []" "CHR ''<'' \<notin> set u" "CHR ''>'' \<notin> set u"
    and uf: "\<forall>(c, g, f, h)\<in>set rs. \<not> sublist f u"
    and e: "\<forall>x\<in>set e. \<not> plain x" "CHR ''<'' \<notin> set e" "CHR ''>'' \<notin> set e"
    and ff: "\<And>f f'. path_of CHR ''<'' rs = Some f \<Longrightarrow> path_of CHR ''>'' rs = Some f' \<Longrightarrow> \<not> sublist f f'"
  shows "\<exists>l e'. redirect (u @ write_redirs rs @ e) RED_IN = Some (path_of CHR ''<'' rs, l) \<and>
    redirect l RED_OUT = Some (path_of CHR ''>'' rs, u @ e') \<and> (\<forall>x\<in>set e'. \<not> plain x)"
proof -
  have hd_e: "e = [] \<or> \<not> plain (hd e)" using e(1) by (auto dest: hd_in_set)
  have np: "\<not> plain CHR ''<''" "\<not> plain CHR ''>''" by (simp_all add: plain_def special_iff)
  note m = path_of_def RED_IN_def RED_OUT_def
  from rs show ?thesis
  proof (cases rule: redirs_cases)
    case 1
    then show ?thesis using u e by (simp add: m)
  next
    case (2 g f h)
    then have r: "redir_ok (CHR ''<'', g, f, h)" and f: "\<not> sublist f u" using rs(1) uf by simp_all
    note R = redir_chars [OF r]
    from redirect_written [OF r u(2,1) f e(2) hd_e no_word_occurs(1) [OF R(1) e(1)]] 2
    have "redirect (u @ write_redirs rs @ e) RED_IN = Some (Some f, u @ CHR ''<'' # g @ h @ e)" by (simp add: m)
    moreover have "CHR ''>'' \<notin> set (u @ CHR ''<'' # g @ h @ e)" using u(3) e(3) R(3) by (auto simp: special_iff)
    ultimately show ?thesis using 2 R(2) e(1) np by (auto simp: m)
  next
    case (3 g f h)
    then have r: "redir_ok (CHR ''>'', g, f, h)" and f: "\<not> sublist f u" using rs(1) uf by simp_all
    note R = redir_chars [OF r]
    have "CHR ''<'' \<notin> set (u @ write_redirs rs @ e)" using u(2) e(2) R(3) 3 by (auto simp: special_iff)
    moreover from redirect_written [OF r u(3,1) f e(3) hd_e no_word_occurs(1) [OF R(1) e(1)]] 3
    have "redirect (u @ write_redirs rs @ e) RED_OUT = Some (Some f, u @ CHR ''>'' # g @ h @ e)" by (simp add: m)
    ultimately show ?thesis using 3 R(2) e(1) np by (auto simp: m)
  next
    case (4 g f h g' f' h')
    then have r: "redir_ok (CHR ''<'', g, f, h)" "redir_ok (CHR ''>'', g', f', h')" "\<not> sublist f u" "\<not> sublist f' u" "\<not> sublist f f'"
      using rs(1) uf ff by (simp_all add: path_of_def)
    show ?thesis using 4 read_in_out [OF r(1,2) u r(3,4) e r(5)] redir_chars(2) [OF r(1)] redir_chars(2) [OF r(2)] e(1) np
      by (auto simp: path_of_def)
  next
    case (5 g f h g' f' h')
    then have r: "redir_ok (CHR ''<'', g, f, h)" "redir_ok (CHR ''>'', g', f', h')" "\<not> sublist f u" "\<not> sublist f' u" "\<not> sublist f f'"
      using rs(1) uf ff by (simp_all add: path_of_def)
    show ?thesis using 5 read_out_in [OF r(1,2) u r(3,4) e r(5)] redir_chars(2) [OF r(1)] redir_chars(2) [OF r(2)] e(1) np
      by (auto simp: path_of_def)
  qed
qed

lemma parse_command:
  assumes ok: "written_ok t" and e: "\<forall>x\<in>set e. white x \<or> x = CHR ''&''"
  shows "p_command_link (write_command t @ e) pipeline_command_alloc = Some (meaning t)"
proof -
  define u where "u = layout (words t) @ blanks t"
  have lay: "layout_ok (words t)" "words t \<noteq> []" "length (words t) < MAX_ARGV_LENGTH" "list_all white (blanks t)"
    and rs: "list_all redir_ok (redirs t)" "distinct (map fst (redirs t))" using ok by (simp_all add: written_ok_def)
  have bl: "\<forall>x\<in>set (blanks t). \<not> plain x \<and> \<not> special x"
    using lay(4) by (auto simp: list_all_iff plain_def dest: white_not_special)
  have u: "u \<noteq> []" "CHR ''<'' \<notin> set u" "CHR ''>'' \<notin> set u"
    using layout_ne [OF lay(1,2)] layout_chars [OF lay(1)] bl by (auto simp: u_def special_iff)
  have "\<not> sublist f u" if "(c, g, f, h) \<in> set (redirs t)" for c g f h
  proof -
    have w: "is_word f" using rs(1) that by (auto simp: list_all_iff)
    have "\<not> sublist f (layout (words t))"
      using ok that by (intro occurs_layout [OF w lay(1)]) (auto simp: written_ok_def)
    then show ?thesis unfolding u_def using bl by (intro no_word_occurs(2) [OF w]) auto
  qed
  then have uf: "\<forall>(c, g, f, h)\<in>set (redirs t). \<not> sublist f u" by blast
  have nw: "\<not> white CHR ''<''" "\<not> white CHR ''>''" "\<not> plain CHR ''&''" by (auto simp: plain_def special_iff dest: white_not_special)
  then have e': "\<forall>x\<in>set e. \<not> plain x" "CHR ''<'' \<notin> set e" "CHR ''>'' \<notin> set e" using e by (auto simp: plain_def)
  have ff: "\<not> sublist f f'" if "path_of CHR ''<'' (redirs t) = Some f" "path_of CHR ''>'' (redirs t) = Some f'" for f f'
    using ok that by (simp add: written_ok_def)
  from redirects_read [OF rs u uf e' ff] obtain l x where
    "redirect (write_command t @ e) RED_IN = Some (path_of CHR ''<'' (redirs t), l)"
    "redirect l RED_OUT = Some (path_of CHR ''>'' (redirs t), layout (words t) @ blanks t @ x)" "\<forall>y\<in>set x. \<not> plain y"
    by (auto simp: write_command_def u_def)
  with link_args [OF this(1,2) lay(1) _ lay(3)] bl show ?thesis by (auto simp: meaning_def)
qed


section \<open>Pipelines\<close>

lemma write_redirs_chars:
  "list_all redir_ok rs \<Longrightarrow> x \<in> set (write_redirs rs) \<Longrightarrow> special x \<Longrightarrow> x = CHR ''<'' \<or> x = CHR ''>''"
  by (induction rs rule: write_redirs.induct) (auto simp: list_all_iff is_word_def plain_def dest: white_not_special)

lemma write_command_chars:
  assumes "written_ok t"
  shows "write_command t \<noteq> []" "CHR ''|'' \<notin> set (write_command t)" "CHR ''&'' \<notin> set (write_command t)"
proof -
  have ok: "layout_ok (words t)" "words t \<noteq> []" "list_all white (blanks t)" "list_all redir_ok (redirs t)"
    using assms by (simp_all add: written_ok_def)
  show "write_command t \<noteq> []" using layout_ne [OF ok(1,2)] by (simp add: write_command_def)
  have "x = CHR ''<'' \<or> x = CHR ''>''" if "x \<in> set (write_command t)" "special x" for x
    using that layout_chars [OF ok(1)] ok(3) write_redirs_chars [OF ok(4)]
    by (auto simp: write_command_def list_all_iff dest: white_not_special)
  then show "CHR ''|'' \<notin> set (write_command t)" "CHR ''&'' \<notin> set (write_command t)" by (force simp: special_iff)+
qed

lemma meaning_head: "written_ok t \<Longrightarrow> command_args (meaning t) ! 0 \<noteq> None"
  by (cases "words t") (auto simp: written_ok_def meaning_def)

lemma pipe_step:
  assumes "t \<noteq> []" "CHR ''|'' \<notin> set t" "v = [] \<or> hd v = CHR ''|''"
  shows "pipe_loop (t @ v) p = do { p' \<leftarrow> pipelines t p; pipe_loop (drop 1 v) p' }"
proof -
  have "strtok_r ([] @ t @ v) PIPE = (Some t, drop 1 v)" by (rule strtok_r_token) (use assms in \<open>auto simp: PIPE_def\<close>)
  then show ?thesis by (subst pipe_loop.simps) simp
qed

lemma pipe_loop_nil [simp]: "pipe_loop [] p = Some p"
  by (subst pipe_loop.simps) (simp add: strtok_r_def)

lemma pipe_loop_written:
  assumes "list_all written_ok ts" "ts \<noteq> []" "\<forall>x\<in>set e. white x \<or> x = CHR ''&''"
  shows "pipe_loop (write_pipeline ts e) p =
    Some (p\<lparr>commands := (if command_args (hd (commands p)) ! 0 = None then [] else commands p) @ map meaning ts\<rparr>)"
  using assms
proof (induction ts e arbitrary: p rule: write_pipeline.induct)
  case (2 t e)
  have "\<not> white CHR ''|''" by (auto simp: special_iff dest: white_not_special)
  with 2 write_command_chars [of t] pipe_step [of "write_command t @ e" "[]" p] show ?case
    by (auto simp: pipelines_def parse_command)
next
  case (3 t t' ts e)
  let ?p = "p\<lparr>commands := (if command_args (hd (commands p)) ! 0 = None then [] else commands p) @ [meaning t]\<rparr>"
  have t: "written_ok t" using 3 by simp
  have "pipelines (write_command t) p = Some ?p"
    using parse_command [OF t, of "[]"] by (simp add: pipelines_def)
  moreover have "command_args (hd (commands ?p)) ! 0 \<noteq> None"
    using meaning_head [OF t] by (cases "commands p") auto
  ultimately show ?case
    using write_command_chars [OF t] pipe_step [of "write_command t" "CHR ''|'' # write_pipeline (t' # ts) e" p] 3 by auto
qed simp

text \<open>C4. Round trip: \<open>pipeline_build\<close> reads back every pipeline that is written as follows: any number
  of commands, each of them words with any blanks between them and then at most one
  redirection of each kind, in either order, and an ampersand at the end exactly for a
  background pipeline. The name of a file may not occur inside a word of its command or inside
  the name of the other file. The README allows more than that: a command whose file name does
  occur in a word is not read back (see \<open>file_name_deleted\<close>), and words after a redirection do
  not reach the program.\<close>

theorem parse_print:
  assumes "list_all written_ok ts" "ts \<noteq> []" "list_all white g"
  shows "pipeline_build (write_pipeline ts ((if bg then ''&'' else []) @ g)) =
    Some \<lparr>commands = map meaning ts, is_background = bg\<rparr>"
proof -
  let ?e = "(if bg then ''&'' else []) @ g"
  have amp: "\<not> white CHR ''&''" by (auto simp: special_iff dest: white_not_special)
  have "CHR ''&'' \<in> set (write_pipeline ts e) \<longleftrightarrow> CHR ''&'' \<in> set e" for e
    using assms(1) write_command_chars(3) by (induction ts e rule: write_pipeline.induct) auto
  then have "findChars (write_pipeline ts ?e) AMPERSAND \<longleftrightarrow> bg" using assms(3) amp by (auto simp: AMPERSAND_def list_all_iff)
  moreover have "\<forall>x\<in>set ?e. white x \<or> x = CHR ''&''" using assms(3) by (auto simp: list_all_iff)
  ultimately show ?thesis
    using pipe_loop_written [OF assms(1,2)]
    by (simp add: pipeline_build_def pipeline_alloc_def pipeline_command_alloc_def MAX_ARGV_LENGTH_def MAX_LINE_LENGTH_def)
qed

text \<open>The example in the header file of the parser.\<close>

definition demo_pipeline :: "written list" where
  "demo_pipeline =
    [\<lparr>words = [([], ''ls''), ('' '', ''-al'')], blanks = '' '', redirs = [(CHR ''<'', '' '', ''infile'', '' '')]\<rparr>,
     \<lparr>words = [('' '', ''wc''), ('' '', ''-l'')], blanks = '' '', redirs = []\<rparr>,
     \<lparr>words = [('' '', ''cat'')], blanks = '' '', redirs = [(CHR ''>'', '' '', ''outfile'', '' '')]\<rparr>]"

theorem parse_print_witness:
  "\<exists>p. pipeline_build ''ls -al < infile | wc -l | cat > outfile &'' = Some p \<and> is_background p \<and>
     map (\<lambda>c. take 3 (command_args c)) (commands p) =
       [[Some ''ls'', Some ''-al'', None], [Some ''wc'', Some ''-l'', None], [Some ''cat'', None, None]] \<and>
     map redirect_in_path (commands p) = [Some ''infile'', None, None] \<and>
     map redirect_out_path (commands p) = [None, None, Some ''outfile'']"
proof -
  have ok: "list_all written_ok demo_pipeline" "demo_pipeline \<noteq> []" "list_all white []" by code_simp+
  have line: "write_pipeline demo_pipeline (''&'' @ []) = ''ls -al < infile | wc -l | cat > outfile &''" by code_simp
  have p: "pipeline_build ''ls -al < infile | wc -l | cat > outfile &'' =
      Some \<lparr>commands = map meaning demo_pipeline, is_background = True\<rparr>"
    using parse_print [OF ok, of True] unfolding if_True line .
  have "map (\<lambda>c. take 3 (command_args c)) (map meaning demo_pipeline) =
      [[Some ''ls'', Some ''-al'', None], [Some ''wc'', Some ''-l'', None], [Some ''cat'', None, None]]" by code_simp
  moreover have "map redirect_in_path (map meaning demo_pipeline) = [Some ''infile'', None, None]" by code_simp
  moreover have "map redirect_out_path (map meaning demo_pipeline) = [None, None, Some ''outfile'']" by code_simp
  ultimately show ?thesis using p by simp
qed


section \<open>Bounds and errors\<close>

lemma deleteWords_shorter:
  assumes "w \<noteq> []" "deleteWords s w [] = Some r"
  shows "length r \<le> length s"
proof -
  from deleteWords_loops [OF assms(1), of s "[]" "[]" 0] obtain r' k where "copy_loop s w [] = Some r'" "length r' + k * length w = length s"
    by auto
  with deleteWords_total [OF assms(1), of s "[]"] assms(2) show ?thesis by (metis le_add1 option.inject)
qed

lemma redirect_shorter:
  assumes "redirect s [c] = Some (p, l)"
  shows "length l \<le> length s"
proof (cases "redirect_token s [c]")
  case (Some f)
  then show ?thesis
    using assms deleteWords_shorter [OF redirect_token_plain(1) [OF Some], of s l] by (auto simp: redirect_def split: if_splits bind_splits)
qed (use assms in \<open>auto simp: redirect_def split: if_splits\<close>)

text \<open>The parser deletes every occurrence of the file name from the command: \<open>cat < c\<close> becomes the
  command \<open>at\<close>.\<close>

theorem file_name_deleted:
  "redirect ''cat < c'' ''<'' = Some (Some ''c'', ''at < '')"
proof -
  have "copy_loop ''cat < c'' ''c'' [] = Some ''at < ''" by (simp add: copy_loop.simps starts_with_prefix)
  moreover obtain r where "copy_loop ''cat < c'' ''c'' [] = Some r" "deleteWords ''cat < c'' ''c'' [] = Some r"
    by (rule deleteWords_total [of "''c''" "''cat < c''" "[]"]) simp_all
  moreover have "redirect_token ''cat < c'' ''<'' = Some ''c''" by code_simp
  ultimately show ?thesis by (simp add: redirect_def)
qed

text \<open>C38. The code looks for the file name in the second of the non-empty fields into which \<open>strtok\<close>
  splits the command at the redirection character; \<open>name_word\<close> is the first word of that field.
  A redirection is undefined (a null pointer is passed to \<open>strlen\<close>) exactly when this word
  consists of special characters only or does not exist: when nothing follows the character,
  and also when the command starts with it, as in \<open>< f cat\<close>, where the file name is in the first
  field. Otherwise \<open>deleteWords\<close> terminates, and the buffer it allocates has exactly the size
  of the string it writes.\<close>

theorem redirect_needs_name:
  "(redirect s [c] = None \<longleftrightarrow> c \<in> set s \<and> (\<forall>x\<in>set (name_word c s). special x)) \<and>
   (\<forall>f. redirect_token s [c] = Some f \<longrightarrow>
      (\<exists>r. deleteWords s f [] = Some r \<and> delete_size s f [] = Some (int (length r) + 1)))"
proof
  show "redirect s [c] = None \<longleftrightarrow> c \<in> set s \<and> (\<forall>x\<in>set (name_word c s). special x)"
  proof (cases "redirect_token s [c]")
    case None
    then have "\<forall>x\<in>set (name_word c s). special x" by (simp add: redirect_token_eq split: if_splits)
    with None show ?thesis by (simp add: redirect_def)
  next
    case (Some f)
    then have "\<not> (\<forall>x\<in>set (name_word c s). special x)" by (simp add: redirect_token_eq split: if_splits)
    moreover obtain r where "redirect s [c] = Some (if c \<in> set s then Some f else None, r)"
      by (rule redirect_defined [of c s f]) (rule Some)
    ultimately show ?thesis by simp
  qed
next
  show "\<forall>f. redirect_token s [c] = Some f \<longrightarrow>
      (\<exists>r. deleteWords s f [] = Some r \<and> delete_size s f [] = Some (int (length r) + 1))"
    using deleteWords_total [OF redirect_token_plain(1)] by metis
qed

theorem redirect_needs_name_witness:
  "redirect ''< f cat'' ''<'' = None \<and> redirect ''ls < '' ''<'' = None \<and> redirect ''ls < f'' ''<'' \<noteq> None"
proof -
  have "\<forall>x\<in>set (name_word CHR ''<'' ''< f cat''). special x" "\<forall>x\<in>set (name_word CHR ''<'' ''ls < ''). special x"
    "\<not> (\<forall>x\<in>set (name_word CHR ''<'' ''ls < f''). special x)" by code_simp+
  then show ?thesis
    using redirect_needs_name [of "''< f cat''" "CHR ''<''"] redirect_needs_name [of "''ls < ''" "CHR ''<''"]
      redirect_needs_name [of "''ls < f''" "CHR ''<''"] by simp
qed

text \<open>The command that a line of bounded length gives.\<close>

definition typed_command :: "pipeline_command \<Rightarrow> bool" where
  "typed_command c \<longleftrightarrow> length (command_args c) = MAX_ARGV_LENGTH \<and> command_args c ! (MAX_ARGV_LENGTH - 1) = None"

lemma link_typed:
  assumes "length line \<le> MAX_LINE_LENGTH"
  shows "p_command_link line pipeline_command_alloc = None \<Longrightarrow> CHR ''<'' \<in> set line \<or> CHR ''>'' \<in> set line"
    "p_command_link line pipeline_command_alloc = Some l \<Longrightarrow> typed_command l"
proof -
  note M = MAX_ARGV_LENGTH_def MAX_LINE_LENGTH_def
  have args: "\<exists>a. args_loop s 0 (replicate MAX_ARGV_LENGTH None) = Some a \<and> length a = MAX_ARGV_LENGTH \<and> a ! (MAX_ARGV_LENGTH - 1) = None"
    if "length s \<le> MAX_LINE_LENGTH" for s
  proof -
    have half: "(length s + 1) div 2 \<le> 256" using that by (simp add: M)
    then obtain a where "args_loop s 0 (replicate MAX_ARGV_LENGTH None) = Some a" "length a = MAX_ARGV_LENGTH"
      "\<forall>i \<ge> (length s + 1) div 2. a ! i = replicate MAX_ARGV_LENGTH None ! i"
      using args_loop_defined [of 0 s "replicate MAX_ARGV_LENGTH None"] by (auto simp: M)
    with half show ?thesis by (simp add: M)
  qed
  show "CHR ''<'' \<in> set line \<or> CHR ''>'' \<in> set line" if "p_command_link line pipeline_command_alloc = None"
  proof (rule ccontr)
    assume "\<not> (CHR ''<'' \<in> set line \<or> CHR ''>'' \<in> set line)"
    then have "redirect line RED_IN = Some (None, line)" "redirect line RED_OUT = Some (None, line)"
      by (simp_all add: RED_IN_def RED_OUT_def)
    with that args [OF assms] show False by (auto simp: p_command_link_def pipeline_command_alloc_def)
  qed
  assume "p_command_link line pipeline_command_alloc = Some l"
  then obtain p1 l1 p2 l2 where r: "redirect line RED_IN = Some (p1, l1)" "redirect l1 RED_OUT = Some (p2, l2)"
    and l: "Some (command_args l) = args_loop l2 0 (replicate MAX_ARGV_LENGTH None)"
    by (auto simp: p_command_link_def pipeline_command_alloc_def split: bind_splits)
  have "length l2 \<le> MAX_LINE_LENGTH"
    using assms redirect_shorter [OF r(1) [unfolded RED_IN_def]] redirect_shorter [OF r(2) [unfolded RED_OUT_def]] by simp
  from args [OF this] l show "typed_command l" by (auto simp: typed_command_def)
qed

lemma pipe_loop_typed:
  assumes "length line \<le> MAX_LINE_LENGTH" "commands p \<noteq> []" "list_all typed_command (commands p)"
  shows "(pipe_loop line p = None \<longrightarrow> CHR ''<'' \<in> set line \<or> CHR ''>'' \<in> set line) \<and>
    (\<forall>p'. pipe_loop line p = Some p' \<longrightarrow> commands p' \<noteq> [] \<and> list_all typed_command (commands p') \<and> is_background p' = is_background p)"
  using assms
proof (induction line p rule: pipe_loop.induct)
  case (1 line p)
  obtain t r where p: "strtok_r line PIPE = (t, r)" by force
  show ?case
  proof (cases t)
    case None
    with p 1 show ?thesis by (subst (1 2) pipe_loop.simps) simp
  next
    case (Some tok)
    note D = strtok_r_SomeD [OF p [unfolded Some]]
    have len: "length tok \<le> MAX_LINE_LENGTH" "length r \<le> MAX_LINE_LENGTH"
      using strtok_r_lengths [OF p [unfolded Some]] 1(2) by simp_all
    show ?thesis
    proof (cases "p_command_link tok pipeline_command_alloc")
      case None
      then have "CHR ''<'' \<in> set tok \<or> CHR ''>'' \<in> set tok" by (rule link_typed(1) [OF len(1)])
      moreover have "pipe_loop line p = None" using p Some None by (subst pipe_loop.simps) (simp add: pipelines_def)
      ultimately show ?thesis using D(3) by auto
    next
      case link: (Some l)
      define p' where "p' = (if command_args (hd (commands p)) ! 0 = None then p\<lparr>commands := [l]\<rparr> else p\<lparr>commands := commands p @ [l]\<rparr>)"
      have p': "pipelines tok p = Some p'" by (simp add: pipelines_def link p'_def)
      have "commands p' \<noteq> []" "list_all typed_command (commands p')" "is_background p' = is_background p"
        using 1(4) link_typed(2) [OF len(1) link] by (auto simp: p'_def)
      with 1(1) [OF p [symmetric] Some p' len(2)] have
        "(pipe_loop r p' = None \<longrightarrow> CHR ''<'' \<in> set r \<or> CHR ''>'' \<in> set r) \<and>
         (\<forall>q. pipe_loop r p' = Some q \<longrightarrow> commands q \<noteq> [] \<and> list_all typed_command (commands q) \<and> is_background q = is_background p)" by simp
      moreover have "pipe_loop line p = pipe_loop r p'" using p Some p' by (subst pipe_loop.simps) simp
      ultimately show ?thesis using D(4) by auto
    qed
  qed
qed

lemma pipeline_build_typed:
  assumes "length line \<le> MAX_LINE_LENGTH"
  shows "(pipeline_build line = None \<longrightarrow> CHR ''<'' \<in> set line \<or> CHR ''>'' \<in> set line) \<and>
    (\<forall>p. pipeline_build line = Some p \<longrightarrow> commands p \<noteq> [] \<and> list_all typed_command (commands p) \<and>
       is_background p = findChars line AMPERSAND)"
proof -
  have "typed_command pipeline_command_alloc"
    by (simp add: typed_command_def pipeline_command_alloc_def MAX_ARGV_LENGTH_def MAX_LINE_LENGTH_def)
  with pipe_loop_typed [OF assms, of "pipeline_alloc\<lparr>is_background := findChars line AMPERSAND\<rparr>"] show ?thesis
    by (simp add: pipeline_build_def pipeline_alloc_def)
qed

text \<open>What the shell relies on of its parser: lines of bounded length give at least one command, or
  contain a redirection.\<close>

locale command_parser =
  fixes parse :: "string \<Rightarrow> pipeline option"
    and limit :: nat
  assumes parse_some: "length line \<le> limit \<Longrightarrow> parse line = Some p \<Longrightarrow> commands p \<noteq> []"
    and parse_none: "length line \<le> limit \<Longrightarrow> parse line = None \<Longrightarrow> CHR ''<'' \<in> set line \<or> CHR ''>'' \<in> set line"

interpretation sp: command_parser pipeline_build MAX_LINE_LENGTH
  by unfold_locales (use pipeline_build_typed in blast)+

text \<open>C37. On every line that fits the input buffer the parser terminates without writing outside
  \<open>command_args\<close>: it returns a pipeline unless a redirection lacks its file name, and every
  command of the pipeline has an argument array that ends with a null pointer, as \<open>execvp\<close>
  requires.\<close>

theorem pipeline_typed:
  assumes "length line \<le> MAX_LINE_LENGTH"
  shows "(pipeline_build line = None \<longrightarrow> CHR ''<'' \<in> set line \<or> CHR ''>'' \<in> set line) \<and>
    (\<forall>p. pipeline_build line = Some p \<longrightarrow> commands p \<noteq> [] \<and> list_all typed_command (commands p) \<and>
       is_background p = findChars line AMPERSAND)"
  using assms by (rule pipeline_build_typed)

theorem pipeline_typed_witness:
  "\<exists>p. pipeline_build (concat (replicate 256 ''a '')) = Some p \<and> list_all typed_command (commands p)"
proof -
  let ?line = "concat (replicate 256 ''a '')"
  have len: "length ?line \<le> MAX_LINE_LENGTH" by (simp add: length_concat sum_list_replicate MAX_LINE_LENGTH_def)
  have "set ?line \<subseteq> {CHR ''a'', CHR '' ''}" by auto
  then have "CHR ''<'' \<notin> set ?line \<and> CHR ''>'' \<notin> set ?line" by auto
  with pipeline_typed [OF len] show ?thesis by (cases "pipeline_build ?line") auto
qed

end
