(* ===== verification/Shell_Run.thy ===== *)
theory Shell_Run
  imports Shell Shell_Props
begin

text \<open>
  Correctness of the shell: how the commands of a pipeline are connected, and that the shell
  keeps its own descriptors. The parser is used through what it promises of every line.
\<close>

section \<open>Descriptors\<close>

lemma fd_get_open:
  assumes "fd_open f fs = (i, fs')"
  shows "fd_get fs i = None" "fd_get fs' = (fd_get fs)(i := Some f)"
  using assms by (auto simp: fd_open_def fd_get_def find_idx_Some nth_append fun_eq_iff split: option.splits if_splits)

lemma fd_get_close [simp]: "fd_get (fd_close i fs) = (fd_get fs)(i := None)"
  by (auto simp: fd_close_def fd_get_def fun_eq_iff)

lemma fd_get_append_None: "fd_get (fs @ replicate n None) = fd_get fs"
  by (auto simp: fd_get_def fun_eq_iff nth_append)

lemma fd_get_dup2 [simp]:
  "fd_get (dup2 a b fs) = (case fd_get fs a of None \<Rightarrow> fd_get fs | Some f \<Rightarrow> (fd_get fs)(b := Some f))"
proof (cases "fd_get fs a")
  case (Some f)
  let ?fs = "fs @ replicate (b + 1 - length fs) None"
  have "b < length ?fs" by simp
  then have "fd_get (?fs[b := Some f]) = (fd_get ?fs)(b := Some f)" by (auto simp: fd_get_def fun_eq_iff)
  with Some show ?thesis by (simp add: dup2_def fd_get_append_None)
qed (simp add: dup2_def)


section \<open>One command\<close>

text \<open>Between two commands of a pipeline the shell has, besides its own descriptors \<open>B\<close>, only the read
  end of the last pipe.\<close>

definition between :: "(nat \<Rightarrow> open_file option) \<Rightarrow> nat \<Rightarrow> shell \<Rightarrow> bool" where
  "between B i s \<longleftrightarrow> B 0 \<noteq> None \<and>
     (i = 0 \<and> fd_get (fds s) = B \<or> i \<noteq> 0 \<and> 0 < npipes s \<and> B i = None \<and> fd_get (fds s) = B(i := Some (Pipe_Read (npipes s - 1))))"

lemma execCommand_step:
  assumes s: "between B i s" and p: "commands p = c # cs"
  obtains r w fs s' where "execCommand env p i first lst bg s =
      (if bg \<or> wait_returns env (events s @ [if fork_ok env (npipes s) then Fork (child_body env c i first lst bg w fs) else Fork_Failed])
       then Some (r, s') else None)"
    "fd_get fs = (fd_get (fds s))(r := Some (Pipe_Read (npipes s)), w := Some (Pipe_Write (npipes s)))"
    "fd_get (fds s) r = None" "fd_get (fds s) w = None" "w \<noteq> r" "w \<noteq> 0" "r \<noteq> 0"
    "events s' = events s @ (if fork_ok env (npipes s) then Fork (child_body env c i first lst bg w fs) else Fork_Failed) #
       (if bg then [] else [Wait])"
    "npipes s' = npipes s + 1" "lst = 1 \<Longrightarrow> fd_get (fds s') = B" "lst \<noteq> 1 \<Longrightarrow> between B r s'"
proof -
  obtain r fs1 where o1: "fd_open (Pipe_Read (npipes s)) (fds s) = (r, fs1)" by force
  obtain w fs2 where o2: "fd_open (Pipe_Write (npipes s)) fs1 = (w, fs2)" by force
  note O1 = fd_get_open [OF o1] and O2 = fd_get_open [OF o2]
  have w: "w \<noteq> r" "fd_get (fds s) w = None" using O2(1) by (auto simp: O1(2) split: if_splits)
  have i: "fd_get (fds s) 0 \<noteq> None" "i \<noteq> 0 \<Longrightarrow> fd_get (fds s) i \<noteq> None" using s by (auto simp: between_def)
  have ne: "r \<noteq> 0" "w \<noteq> 0" "i \<noteq> 0 \<Longrightarrow> r \<noteq> i" "i \<noteq> 0 \<Longrightarrow> w \<noteq> i" using i O1(1) w(2) by (metis option.distinct(1))+
  define fs5 where "fs5 = (let fs3 = fd_close w fs2; fs4 = (if i \<noteq> 0 then fd_close i fs3 else fs3) in if lst = 1 then fd_close r fs4 else fs4)"
  let ?evs = "(if fork_ok env (npipes s) then Fork (child_body env c i first lst bg w fs2) else Fork_Failed) # (if bg then [] else [Wait])"
  let ?s' = "\<lparr>fds = fs5, npipes = npipes s + 1, events = events s @ ?evs\<rparr>"
  have get: "fd_get fs5 = (if lst = 1 then B else B(r := Some (Pipe_Read (npipes s))))" and B: "B r = None"
    using s O1(1) w ne by (auto simp: fs5_def between_def O1(2) O2(2) fun_eq_iff Let_def split: if_splits)
  show ?thesis
  proof (rule that [where r = r and s' = ?s' and fs = fs2 and w = w])
    show "execCommand env p i first lst bg s =
      (if bg \<or> wait_returns env (events s @ [if fork_ok env (npipes s) then Fork (child_body env c i first lst bg w fs2) else Fork_Failed])
       then Some (r, ?s') else None)"
      using o1 o2 p by (simp add: execCommand_def fs5_def Let_def)
    show "between B r ?s'" if "lst \<noteq> 1" using that s get B ne(1) by (simp add: between_def)
  qed (use O1 O2 w ne get in simp_all)
qed

text \<open>The loop over the commands gives the descriptors back, unless the shell waits forever.\<close>

lemma exec_loop_keeps:
  assumes "between B i s" "cs \<noteq> []"
  shows "case exec_loop env bg cs i first s of
      None \<Rightarrow> \<exists>evs. \<not> wait_returns env evs
    | Some (p, s') \<Rightarrow> fd_get (fds s') = B \<and> commands p \<noteq> []"
  using assms
proof (induction env bg cs i first s rule: exec_loop.induct)
  case (2 env bg c i first s)
  show ?case
    by (rule execCommand_step [OF 2(1), of "\<lparr>commands = [c], is_background = bg\<rparr>" c "[]" env first 1 bg]) auto
next
  case (3 env bg c c' cs i first s)
  let ?p = "\<lparr>commands = c # c' # cs, is_background = bg\<rparr>"
  obtain r s' where r: "execCommand env ?p i first 0 bg s = Some (r, s') \<or> execCommand env ?p i first 0 bg s = None \<and> (\<exists>evs. \<not> wait_returns env evs)"
      "between B r s'"
    by (rule execCommand_step [OF 3(2), of ?p c "c' # cs" env first 0 bg]) (auto split: if_splits)
  show ?case
  proof (cases "execCommand env ?p i first 0 bg s")
    case None
    then show ?thesis using r(1) by simp
  next
    case (Some x)
    with r have "execCommand env ?p i first 0 bg s = Some (r, s')" by auto
    with 3(1) [OF refl, of "(r, s')" r s'] r(2) show ?thesis by simp
  qed
qed simp

text \<open>The shell starts the second command of a foreground pipeline only when \<open>wait\<close> has returned for the
  first: when it does not return, the pipeline does not end.\<close>

lemma first_wait_hangs:
  assumes "fd_get (fds s) 0 \<noteq> None" "\<And>ev. \<not> wait_returns env (events s @ [ev])" "cs \<noteq> []"
  shows "exec_loop env False cs 0 1 s = None"
proof -
  have b: "between (fd_get (fds s)) 0 s" using assms(1) by (simp add: between_def)
  have "execCommand env p 0 1 lst False s = None" if "commands p = cs" for p lst
    using that assms(3) by (cases cs) (auto intro: execCommand_step [OF b, of p _ _ env 1 lst False] simp: assms(2))
  then show ?thesis using assms(3) by (cases "(env, False, cs, 0 :: nat, 1 :: int, s)" rule: exec_loop.cases) simp_all
qed


section \<open>A pipeline\<close>

text \<open>The child of a command: its standard input and output, and the only write end of a pipe that it
  holds. A command with an input redirection must be the whole pipeline and have no
  output redirection.\<close>

definition in_of :: "pipeline_command \<Rightarrow> open_file option \<Rightarrow> open_file option" where
  "in_of c d = (case redirect_in_path c of None \<Rightarrow> d | Some f \<Rightarrow> Some (In_File f))"

definition out_of :: "pipeline_command \<Rightarrow> open_file option \<Rightarrow> open_file option" where
  "out_of c d = (case redirect_out_path c of None \<Rightarrow> d | Some f \<Rightarrow> Some (Out_File f))"

definition runnable :: "os_env \<Rightarrow> pipeline_command \<Rightarrow> bool" where
  "runnable env c \<longleftrightarrow> command_args c ! 0 \<noteq> None \<and> exec_ok env (command_args c) \<and>
     (\<forall>f. redirect_out_path c = Some f \<longrightarrow> creat_ok env f) \<and> (\<forall>f. redirect_in_path c = Some f \<longrightarrow> open_ok env f)"

lemma child_dup_get:
  assumes w: "G w = Some f" "w \<noteq> 0" and i: "G i = Some x" "i \<noteq> 1" and fs: "fd_get fs = G"
    and red: "redirect_in_path c = None" and lst: "lst = 0 \<or> lst = 1"
  shows "fd_get (child_dup c i (if i = 0 then 1 else 0) lst w fs) =
    (if lst = 1 \<and> redirect_out_path c = None then G else G(1 := Some f))(0 := Some x)"
proof (cases "i = 0")
  case True
  then show ?thesis using assms by (auto simp: child_dup_def fun_eq_iff)
next
  case False
  then show ?thesis using assms by (auto simp: child_dup_def fun_eq_iff)
qed

lemma child_dup_get_in:
  assumes w: "G w = Some f" "w \<noteq> 0" and fs: "fd_get fs = G" and red: "redirect_in_path c \<noteq> None" "redirect_out_path c = None"
  shows "fd_get (child_dup c 0 1 1 w fs) = G(0 := Some f)"
  using assms by (auto simp: child_dup_def fun_eq_iff)

lemma child_wired:
  assumes fs: "fd_get fs = S(r := Some (Pipe_Read n), w := Some (Pipe_Write n))" "S r = None" "S w = None" "w \<noteq> r"
    and S: "S 0 \<noteq> None" "S 1 \<noteq> None" "S i \<noteq> None" "\<And>j m. S j \<noteq> Some (Pipe_Write m)"
    and c: "runnable env c" and red: "redirect_in_path c \<noteq> None \<Longrightarrow> lst = 1 \<and> i = 0 \<and> redirect_out_path c = None"
    and lst: "lst = 0 \<or> lst = 1" and i1: "i \<noteq> 1"
  shows "\<exists>t. child_body env c i (if i = 0 then 1 else 0) lst False w fs = Exec (command_args c) t \<and>
    fd_get t 0 = in_of c (S i) \<and> fd_get t 1 = out_of c (if lst = 1 then S 1 else Some (Pipe_Write n)) \<and>
    (\<forall>j m. fd_get t j = Some (Pipe_Write m) \<longrightarrow> m = n)"
proof -
  have ne: "r \<noteq> 0" "w \<noteq> 0" "r \<noteq> 1" "w \<noteq> 1" "r \<noteq> i" "w \<noteq> i" using fs(2,3) S(1-3) by metis+
  have run: "command_args c ! 0 \<noteq> None" "exec_ok env (command_args c)" using c by (simp_all add: runnable_def)
  obtain x where x: "S i = Some x" using S(3) by auto
  let ?first = "if i = 0 then 1 else (0 :: int)"
  show ?thesis
  proof (cases "redirect_in_path c")
    case None
    show ?thesis
    proof (cases "redirect_out_path c")
      case N: None
      have "child_body env c i ?first lst False w fs = Exec (command_args c) (child_dup c i ?first lst w fs)"
        using None N run by (simp add: child_body_def child_out_def child_in_def)
      moreover have "fd_get (child_dup c i ?first lst w fs) = (if lst = 1 then fd_get fs else (fd_get fs)(1 := Some (Pipe_Write n)))(0 := Some x)"
        using child_dup_get [of "fd_get fs" w "Pipe_Write n" i x fs c lst] None N ne x i1 lst by (simp add: fs(1))
      ultimately show ?thesis using None N x ne lst S(4) by (auto simp: in_of_def out_of_def fs(1) split: if_splits)
    next
      case (Some f)
      obtain w' fs' where o: "fd_open (Out_File f) fs = (w', fs')" by force
      note O = fd_get_open [OF o]
      have "S w' = None" using O(1) by (auto simp: fs(1) split: if_splits)
      then have w': "w' \<noteq> 0" "w' \<noteq> 1" "w' \<noteq> i" using S(1-3) by metis+
      have "child_body env c i ?first lst False w fs = Exec (command_args c) (child_dup c i ?first lst w' fs')"
        using None Some run c o by (simp add: child_body_def child_out_def child_in_def runnable_def)
      moreover have "fd_get (child_dup c i ?first lst w' fs') = ((fd_get fs')(1 := Some (Out_File f)))(0 := Some x)"
        using child_dup_get [of "fd_get fs'" w' "Out_File f" i x fs' c lst] None Some ne w' x i1 lst by (simp add: O(2) fs(1))
      ultimately show ?thesis using None Some x S(4) by (auto simp: in_of_def out_of_def O(2) fs(1) split: if_splits)
    qed
  next
    case (Some f)
    then have r: "lst = 1" "i = 0" "redirect_out_path c = None" using red by simp_all
    obtain w' fs' where o: "fd_open (In_File f) fs = (w', fs')" by force
    note O = fd_get_open [OF o]
    have "S w' = None" using O(1) by (auto simp: fs(1) split: if_splits)
    then have w': "w' \<noteq> 0" "w' \<noteq> 1" using S(1,2) by metis+
    have "child_body env c i ?first lst False w fs = Exec (command_args c) (child_dup c 0 1 1 w' fs')"
      using Some r run c o by (simp add: child_body_def child_out_def child_in_def runnable_def)
    moreover have "fd_get (child_dup c 0 1 1 w' fs') = (fd_get fs')(0 := Some (In_File f))"
      using child_dup_get_in [of "fd_get fs'" w' "In_File f" fs' c] Some r w' by (simp add: O(2))
    ultimately show ?thesis using Some r ne w' S(4) by (auto simp: in_of_def out_of_def O(2) fs(1) split: if_splits)
  qed
qed


text \<open>What the children of a pipeline look like; \<open>d\<close> is the input of the first one, \<open>out\<close> the output
  of the last one, \<open>n\<close> the number of the first pipe.\<close>

fun wired :: "nat \<Rightarrow> open_file option \<Rightarrow> open_file option \<Rightarrow> pipeline_command list \<Rightarrow> fd_table list \<Rightarrow> bool" where
  "wired n d out [] ts \<longleftrightarrow> ts = []"
| "wired n d out (c # cs) [] \<longleftrightarrow> False"
| "wired n d out (c # cs) (t # ts) \<longleftrightarrow>
     fd_get t 0 = in_of c d \<and> fd_get t 1 = out_of c (if cs = [] then out else Some (Pipe_Write n)) \<and>
     (\<forall>j m. fd_get t j = Some (Pipe_Write m) \<longrightarrow> m = n) \<and> wired (n + 1) (Some (Pipe_Read n)) out cs ts"

lemma exec_loop_wired:
  assumes "between B i s" "B 1 \<noteq> None" "\<And>j m. B j \<noteq> Some (Pipe_Write m)" "cs \<noteq> []" "list_all (runnable env) cs" "\<And>n. fork_ok env n"
    "\<forall>c\<in>set cs. redirect_in_path c \<noteq> None \<longrightarrow> i = 0 \<and> cs = [c] \<and> redirect_out_path c = None" "\<And>evs. wait_returns env evs"
  shows "\<exists>p s' ts. exec_loop env False cs i (if i = 0 then 1 else 0) s = Some (p, s') \<and> wired (npipes s) (fd_get (fds s) i) (B 1) cs ts \<and>
    events s' = events s @ concat (map (\<lambda>(c, t). [Fork (Exec (command_args c) t), Wait]) (zip cs ts))"
  using assms
proof (induction cs arbitrary: i s)
  case (Cons c cs)
  let ?p = "\<lparr>commands = c # cs, is_background = False\<rparr>" and ?S = "fd_get (fds s)" and ?lst = "if cs = [] then 1 else (0 :: int)"
  have S: "?S 0 \<noteq> None" "?S 1 \<noteq> None" "?S i \<noteq> None" "\<And>j m. ?S j \<noteq> Some (Pipe_Write m)" "i \<noteq> 1" "?S 1 = B 1"
    using Cons.prems(1-3) by (auto simp: between_def split: if_splits)
  from Cons.prems(1) obtain r w fs s' where e: "execCommand env ?p i (if i = 0 then 1 else 0) ?lst False s = Some (r, s')"
    "fd_get fs = ?S(r := Some (Pipe_Read (npipes s)), w := Some (Pipe_Write (npipes s)))" "?S r = None" "?S w = None" "w \<noteq> r" "r \<noteq> 0"
    "events s' = events s @ [Fork (child_body env c i (if i = 0 then 1 else 0) ?lst False w fs), Wait]"
    "npipes s' = npipes s + 1" "?lst \<noteq> 1 \<Longrightarrow> between B r s'"
    by (rule execCommand_step [of B i s ?p c cs env "if i = 0 then 1 else 0" ?lst False]) (simp_all add: Cons.prems(6,8))
  have run: "runnable env c" and lst: "?lst = 0 \<or> ?lst = 1" using Cons.prems(5) by simp_all
  have red: "?lst = 1 \<and> i = 0 \<and> redirect_out_path c = None" if "redirect_in_path c \<noteq> None" using Cons.prems(7) that by auto
  obtain t where t: "child_body env c i (if i = 0 then 1 else 0) ?lst False w fs = Exec (command_args c) t"
    "fd_get t 0 = in_of c (?S i)" "fd_get t 1 = out_of c (if ?lst = 1 then ?S 1 else Some (Pipe_Write (npipes s)))"
    "\<forall>j m. fd_get t j = Some (Pipe_Write m) \<longrightarrow> m = npipes s"
    using child_wired [OF e(2-5) S(1-4) run red lst S(5)] by blast
  show ?case
  proof (cases cs)
    case Nil
    then show ?thesis using e(1,7) t S(6) by (intro exI [of _ ?p] exI [of _ s'] exI [of _ "[t]"]) simp
  next
    case (Cons c' cs')
    have "between B r s'" using e(9) Cons by simp
    moreover have "\<forall>c\<in>set cs. redirect_in_path c \<noteq> None \<longrightarrow> r = 0 \<and> cs = [c] \<and> redirect_out_path c = None"
      using Cons.prems(7) Cons by auto
    ultimately obtain p'' s'' ts where IH: "exec_loop env False cs r 0 s' = Some (p'', s'')"
      "wired (npipes s') (fd_get (fds s') r) (B 1) cs ts"
      "events s'' = events s' @ concat (map (\<lambda>(c, t). [Fork (Exec (command_args c) t), Wait]) (zip cs ts))"
      using Cons.IH [of r s'] Cons.prems(2-6,8) Cons e(6) by auto
    have "fd_get (fds s') r = Some (Pipe_Read (npipes s))"
      using \<open>between B r s'\<close> e(6,8) by (simp add: between_def)
    with IH t e Cons show ?thesis by (intro exI [of _ p''] exI [of _ s''] exI [of _ "t # ts"]) simp
  qed
qed simp

text \<open>C39. The commands of a foreground pipeline are connected, when every program, file and fork is
  available, every \<open>wait\<close> returns, and the input is redirected only if the pipeline is a single
  command without output redirection: each child starts with the read end of the previous pipe,
  or the input of the shell, or its input file, as standard input and with the write end of the
  next pipe, or the output of the shell, or its output file, as standard output. No child holds
  the write end of the pipe it reads from, so it sees the end of its input. The commands are
  started one after the other, each when the shell has waited for the one before.\<close>

theorem pipeline_wiring:
  assumes "fd_get (fds s) 0 \<noteq> None" "fd_get (fds s) 1 \<noteq> None" "\<And>j m. fd_get (fds s) j \<noteq> Some (Pipe_Write m)"
    and "cs \<noteq> []" "list_all (runnable env) cs" "\<And>n. fork_ok env n" "\<And>evs. wait_returns env evs"
    and "\<forall>c\<in>set cs. redirect_in_path c \<noteq> None \<longrightarrow> cs = [c] \<and> redirect_out_path c = None"
  shows "\<exists>p s' ts. exec_loop env False cs 0 1 s = Some (p, s') \<and> wired (npipes s) (fd_get (fds s) 0) (fd_get (fds s) 1) cs ts \<and>
    events s' = events s @ concat (map (\<lambda>(c, t). [Fork (Exec (command_args c) t), Wait]) (zip cs ts))"
  using exec_loop_wired [of "fd_get (fds s)" 0 s cs env] assms by (simp add: between_def)

definition demo_shell :: shell where
  "demo_shell = \<lparr>fds = [Some (Inherited 0), Some (Inherited 1), Some (Inherited 2)], npipes = 0, events = []\<rparr>"

definition demo_env :: os_env where
  "demo_env = \<lparr>creat_ok = (\<lambda>f. True), open_ok = (\<lambda>f. True), exec_ok = (\<lambda>a. True), fork_ok = (\<lambda>n. True), wait_returns = (\<lambda>evs. True)\<rparr>"

definition demo_commands :: "pipeline_command list" where
  "demo_commands = [\<lparr>command_args = [Some ''ls'', None], redirect_in_path = None, redirect_out_path = None\<rparr>,
     \<lparr>command_args = [Some ''wc'', None], redirect_in_path = None, redirect_out_path = Some ''f''\<rparr>]"

theorem pipeline_wiring_witness:
  "\<exists>p s' t u. exec_loop demo_env False demo_commands 0 1 demo_shell = Some (p, s') \<and>
     fd_get t 0 = Some (Inherited 0) \<and> fd_get t 1 = Some (Pipe_Write 0) \<and>
     fd_get u 0 = Some (Pipe_Read 0) \<and> fd_get u 1 = Some (Out_File ''f'') \<and>
     events s' = [Fork (Exec [Some ''ls'', None] t), Wait, Fork (Exec [Some ''wc'', None] u), Wait]"
proof -
  have get: "fd_get (fds demo_shell) = (\<lambda>i. if i < 3 then Some (Inherited i) else None)"
    by (auto simp: demo_shell_def fd_get_def fun_eq_iff nth_Cons' numeral_eq_Suc less_Suc_eq)
  have "\<exists>p s' ts. exec_loop demo_env False demo_commands 0 1 demo_shell = Some (p, s') \<and>
      wired (npipes demo_shell) (fd_get (fds demo_shell) 0) (fd_get (fds demo_shell) 1) demo_commands ts \<and>
      events s' = events demo_shell @ concat (map (\<lambda>(c, t). [Fork (Exec (command_args c) t), Wait]) (zip demo_commands ts))"
    by (rule pipeline_wiring) (auto simp: get demo_commands_def demo_env_def runnable_def)
  then obtain p s' ts where r: "exec_loop demo_env False demo_commands 0 1 demo_shell = Some (p, s')"
    "wired 0 (Some (Inherited 0)) (Some (Inherited 1)) demo_commands ts"
    "events s' = concat (map (\<lambda>(c, t). [Fork (Exec (command_args c) t), Wait]) (zip demo_commands ts))"
    by (auto simp: get) (simp add: demo_shell_def)
  from r(2) obtain t u where "ts = [t, u]" by (auto simp: demo_commands_def elim!: wired.elims)
  with r show ?thesis by (intro exI [of _ p] exI [of _ s'] exI [of _ t] exI [of _ u]) (auto simp: demo_commands_def in_of_def out_of_def)
qed


section \<open>Releasing the pipeline\<close>

text \<open>A chain of commands in the heap, from its first pointer.\<close>

fun command_chain :: "heap \<Rightarrow> nat option \<Rightarrow> nat list \<Rightarrow> bool" where
  "command_chain h q [] \<longleftrightarrow> q = None"
| "command_chain h q (a # as) \<longleftrightarrow> q = Some a \<and> (\<exists>n. nexts h a = Some n \<and> command_chain h n as)"

lemma command_chain_cong: "(\<And>a. a \<in> set as \<Longrightarrow> nexts h' a = nexts h a) \<Longrightarrow> command_chain h' q as = command_chain h q as"
  by (induction as arbitrary: q) auto

lemma free_loop_chain:
  assumes "command_chain h q as" "distinct as"
  shows "free_loop h q nx = Some (h\<lparr>nexts := nexts h |` (- set as)\<rparr>, if as = [] then nx else None)"
  using assms
proof (induction as arbitrary: h q nx)
  case Nil
  then show ?case by (subst free_loop.simps) (simp add: restrict_map_def)
next
  case (Cons a as)
  then obtain n where n: "q = Some a" "nexts h a = Some n" "command_chain h n as" by auto
  let ?h = "h\<lparr>nexts := (nexts h)(a := None)\<rparr>"
  have "command_chain ?h n as" using n(3) Cons.prems(2) by (subst command_chain_cong [of as _ h]) auto
  then have "free_loop ?h n n = Some (?h\<lparr>nexts := nexts ?h |` (- set as)\<rparr>, if as = [] then n else None)"
    by (rule Cons.IH) (use Cons.prems(2) in simp)
  moreover have "as = [] \<Longrightarrow> n = None" using n(3) by simp
  moreover have "?h\<lparr>nexts := nexts ?h |` (- set as)\<rparr> = h\<lparr>nexts := nexts h |` (- set (a # as))\<rparr>"
    by (simp add: restrict_map_def fun_eq_iff cong: if_cong)
  ultimately have "free_loop ?h n n = Some (h\<lparr>nexts := nexts h |` (- set (a # as))\<rparr>, None)"
    by (cases "as = []") (simp_all only: if_True if_False simp_thms)
  then show ?case using n by (subst free_loop.simps) (simp add: free_command_def)
qed

text \<open>\<open>pipeline_free\<close> frees the pipeline and every command of its chain exactly once, and keeps all else;
  the two commands that it allocates itself are never freed.\<close>

lemma pipeline_free_chain:
  assumes "heads h pipe = Some q" "command_chain h q as" "distinct as" "as \<noteq> []" "a \<notin> set as" "b \<notin> set as"
  shows "\<exists>h'. pipeline_free a b h pipe = Some h' \<and> heads h' = (heads h)(pipe := None) \<and>
    nexts h' = (nexts h |` (- set as))(a \<mapsto> None, b \<mapsto> None)"
proof -
  let ?h = "h\<lparr>nexts := (nexts h)(a \<mapsto> None, b \<mapsto> None)\<rparr>"
  have "command_chain ?h q as" using assms(2,5,6) by (subst command_chain_cong [of as _ h]) auto
  from free_loop_chain [OF this assms(3), of "Some b"] assms(1,4-6) show ?thesis
    by (auto simp: pipeline_free_def free_command_def restrict_map_def fun_eq_iff)
qed

text \<open>The release of the last pipeline is defined.\<close>

lemma heap_of_chain: "command_chain (heap_of p) (if i < length (commands p) then Some i else None) [i..<length (commands p)]"
proof (induction "length (commands p) - i" arbitrary: i)
  case (Suc k)
  then have i: "i < length (commands p)" "k = length (commands p) - Suc i" by simp_all
  then have "nexts (heap_of p) i = Some (if Suc i < length (commands p) then Some (Suc i) else None)" by (simp add: heap_of_def Let_def)
  with Suc.hyps(1) [OF i(2)] show ?case unfolding upt_conv_Cons [OF i(1)] if_P [OF i(1)] command_chain.simps by blast
qed simp

lemma pipeline_freed:
  assumes "commands p \<noteq> []"
  shows "\<exists>h. pipeline_free (length (commands p) + 1) (length (commands p) + 2) (heap_of p) (length (commands p)) = Some h"
proof -
  have n: "0 < length (commands p)" using assms by simp
  then have c: "command_chain (heap_of p) (Some 0) [0..<length (commands p)]" using heap_of_chain [of p 0] by (simp only: if_True)
  have h: "heads (heap_of p) (length (commands p)) = Some (Some 0)" using assms by (simp add: heap_of_def Let_def)
  have "\<exists>h. pipeline_free (length (commands p) + 1) (length (commands p) + 2) (heap_of p) (length (commands p)) = Some h \<and>
      heads h = (heads (heap_of p))(length (commands p) := None) \<and>
      nexts h = (nexts (heap_of p) |` (- set [0..<length (commands p)]))(length (commands p) + 1 \<mapsto> None, length (commands p) + 2 \<mapsto> None)"
    by (rule pipeline_free_chain [OF h c]) (use n in simp_all)
  then show ?thesis by blast
qed


section \<open>The whole shell\<close>

lemma fgets_chars: "fgets n inp = Some (line, rest) \<Longrightarrow> set line \<subseteq> set inp \<and> set rest \<subseteq> set inp"
  by (auto simp: fgets_def Let_def split: if_splits dest: in_set_takeD in_set_dropD)

context command_parser
begin

text \<open>One line: the parser fails only on a redirection, and whatever it returns is executed, unless
  the shell waits forever.\<close>

lemma line_runs:
  assumes "length line \<le> limit" "fd_get (fds s) 0 \<noteq> None"
  obtains "parse line = None" "CHR ''<'' \<in> set line \<or> CHR ''>'' \<in> set line"
    | pl evs where "parse line = Some pl" "exec_loop env (is_background pl) (commands pl) 0 1 s = None" "\<not> wait_returns env evs"
    | pl p' s' where "parse line = Some pl" "exec_loop env (is_background pl) (commands pl) 0 1 s = Some (p', s')"
        "fd_get (fds s') = fd_get (fds s)" "commands p' \<noteq> []"
proof (cases "parse line")
  case None
  with parse_none [OF assms(1)] that(1) show ?thesis by blast
next
  case (Some pl)
  have "between (fd_get (fds s)) 0 s" using assms(2) by (simp add: between_def)
  from exec_loop_keeps [OF this parse_some [OF assms(1) Some], of env "is_background pl" 1] Some that(2,3) show ?thesis
    by (cases "exec_loop env (is_background pl) (commands pl) 0 1 s") auto
qed

end

lemma cstr_line: "length (cstr line) \<le> length line" "set (cstr line) \<subseteq> set line"
  by (auto simp: cstr_def length_takeWhile_le dest: set_takeWhileD)

text \<open>What holds of the descriptors and of the pipeline that is left when the input ends.\<close>

definition kept :: "string \<Rightarrow> pipeline option \<Rightarrow> shell \<Rightarrow> pipeline option \<times> shell \<Rightarrow> bool" where
  "kept inp p s = (\<lambda>(q, s'). fd_get (fds s') = fd_get (fds s) \<and> (q = None \<longleftrightarrow> inp = [] \<and> p = None) \<and>
     (\<forall>r. q = Some r \<longrightarrow> p = q \<or> commands r \<noteq> []))"

lemma main_loop_keeps:
  assumes "fd_get (fds s) 0 \<noteq> None"
  shows "case main_loop env np inp p s of
      None \<Rightarrow> CHR ''<'' \<in> set inp \<or> CHR ''>'' \<in> set inp \<or> (\<exists>evs. \<not> wait_returns env evs)
    | Some r \<Rightarrow> kept inp p s r"
  using assms
proof (induction env np inp p s rule: main_loop.induct)
  case (1 env np inp p s)
  define s1 where "s1 = (if np then s else s\<lparr>events := events s @ [Prompt]\<rparr>)"
  have s1: "fds s1 = fds s" by (simp add: s1_def)
  show ?case
  proof (cases "fgets MAX_LINE_LENGTH inp")
    case None
    then have "inp = []" by (auto simp: fgets_def Let_def split: if_splits)
    with None s1 show ?thesis by (subst main_loop.simps) (auto simp: s1_def [symmetric] kept_def)
  next
    case (Some lr)
    then obtain line rest where lr: "fgets MAX_LINE_LENGTH inp = Some (line, rest)" by (cases lr) auto
    then have ne: "inp \<noteq> []" by (auto simp: fgets_def)
    have line: "length (cstr line) \<le> MAX_LINE_LENGTH" "fd_get (fds s1) 0 \<noteq> None"
      using fgets_shorter(2) [OF lr] cstr_line(1) [of line] "1.prems" s1 by simp_all
    show ?thesis
    proof (cases rule: sp.line_runs [OF line, where env = env])
      case 1
      then have "main_loop env np inp p s = None" using lr by (subst main_loop.simps) (simp add: Let_def)
      with 1(2) fgets_chars [OF lr] cstr_line(2) [of line] show ?thesis by auto
    next
      case (2 pl evs)
      then have "main_loop env np inp p s = None" using lr by (subst main_loop.simps) (simp add: s1_def [symmetric])
      with 2(3) show ?thesis by auto
    next
      case (3 pl p' s2)
      note b = 3(1) and e = 3(2) 3(3) [unfolded s1] 3(4)
      have m: "main_loop env np inp p s = main_loop env np rest (Some p') s2"
        using lr b e(1) by (subst main_loop.simps) (simp add: s1_def [symmetric])
      have "case main_loop env np rest (Some p') s2 of
          None \<Rightarrow> CHR ''<'' \<in> set rest \<or> CHR ''>'' \<in> set rest \<or> (\<exists>evs. \<not> wait_returns env evs)
        | Some r \<Rightarrow> kept rest (Some p') s2 r"
        using "1.IH" [OF s1_def lr refl b e(1) refl] "1.prems" e(2) by simp
      with m e(2,3) ne fgets_chars [OF lr] show ?thesis by (auto simp: kept_def split: option.splits)
    qed
  qed
qed

text \<open>C40. The shell as a whole, whatever it reads and whichever programs, files and forks fail: a run that
  comes to its end leaves the shell with exactly the descriptors it started with; and when
  every \<open>wait\<close> returns, every input without redirections is run to its end, the release of
  the last pipeline included, except the empty one, for which the shell frees an
  uninitialised pointer. Without that condition the shell may wait forever: it waits for each
  command before it starts the one that reads from it.\<close>

theorem shell_runs:
  assumes "fd_get (fds s) 0 \<noteq> None"
  shows "((\<forall>evs. wait_returns env evs) \<longrightarrow> CHR ''<'' \<notin> set inp \<longrightarrow> CHR ''>'' \<notin> set inp \<longrightarrow>
      (main env argv inp s = None \<longleftrightarrow> inp = [])) \<and>
    (\<forall>r s'. main env argv inp s = Some (r, s') \<longrightarrow> fd_get (fds s') = fd_get (fds s))"
proof -
  define np where "np \<longleftrightarrow> length argv > 1 \<and> argv ! 1 = ''-n''"
  have m: "main env argv inp s = do { (q, s') \<leftarrow> main_loop env np inp None s; p \<leftarrow> q; let n = length (commands p);
      h \<leftarrow> pipeline_free (n + 1) (n + 2) (heap_of p) n; Some (0, s') }"
    by (simp only: main_def np_def Let_def)
  note k = main_loop_keeps [OF assms, where env = env and np = np and inp = inp and p = None]
  show ?thesis
  proof (cases "main_loop env np inp None s")
    case None
    then have "main env argv inp s = None" by (simp add: m)
    moreover have "inp \<noteq> []" using None by (subst (asm) main_loop.simps) (auto simp: fgets_def)
    ultimately show ?thesis using k None by auto
  next
    case (Some r)
    then obtain q s' where r: "main_loop env np inp None s = Some (q, s')" by (cases r) auto
    with k have q: "fd_get (fds s') = fd_get (fds s)" "q = None \<longleftrightarrow> inp = []" "\<And>p. q = Some p \<Longrightarrow> commands p \<noteq> []"
      by (auto simp: kept_def)
    have "main env argv inp s = (case q of None \<Rightarrow> None | Some _ \<Rightarrow> Some (0, s'))"
      using r q(3) by (cases q) (auto simp: m Let_def dest!: pipeline_freed)
    with q show ?thesis by (auto split: option.splits)
  qed
qed

theorem shell_runs_witness:
  "\<exists>r s'. main demo_env [''myshell''] ''ls | wc\<newline>'' demo_shell = Some (r, s') \<and> fd_get (fds s') = fd_get (fds demo_shell)"
proof -
  have 0: "fd_get (fds demo_shell) 0 \<noteq> None" by (simp add: demo_shell_def fd_get_def)
  have "CHR ''<'' \<notin> set ''ls | wc\<newline>''" "CHR ''>'' \<notin> set ''ls | wc\<newline>''" "\<And>evs. wait_returns demo_env evs" by (simp_all add: demo_env_def)
  with shell_runs [OF 0, of demo_env "''ls | wc\<newline>''" "[''myshell'']"] show ?thesis by fastforce
qed

text \<open>An input redirection on the first of several commands, or together with an output redirection,
  makes the input file the standard output.\<close>

theorem input_redirect_to_output:
  assumes "fd_get fs 0 \<noteq> None" "fd_get fs 1 \<noteq> None" "runnable env c" "redirect_in_path c = Some f"
    and "lst = 0 \<and> redirect_out_path c = None \<or> lst = 1 \<and> redirect_out_path c = Some g"
  shows "\<exists>t. child_body env c 0 1 lst False w fs = Exec (command_args c) t \<and> fd_get t 1 = Some (In_File f)"
proof -
  obtain w1 fs1 where 1: "child_out env c (w, fs) = Some (w1, fs1)" "fd_get fs1 0 \<noteq> None" "fd_get fs1 1 \<noteq> None"
  proof (cases "redirect_out_path c")
    case None
    then show ?thesis using assms(1,2) that [of w fs] by (simp add: child_out_def)
  next
    case (Some h)
    obtain w1 fs1 where o: "fd_open (Out_File h) fs = (w1, fs1)" by force
    with Some assms(1-3) fd_get_open [OF o] that [of w1 fs1] show ?thesis by (auto simp: child_out_def runnable_def)
  qed
  obtain w2 fs2 where o: "fd_open (In_File f) fs1 = (w2, fs2)" by force
  have w2: "w2 \<noteq> 0" "w2 \<noteq> 1" "fd_get fs2 w2 = Some (In_File f)" using fd_get_open [OF o] 1(2,3) by (auto intro: ccontr)
  have "child_body env c 0 1 lst False w fs = Exec (command_args c) (child_dup c 0 1 lst w2 fs2)"
    using 1 o assms(3,4) by (simp add: child_body_def child_in_def runnable_def)
  moreover have "fd_get (child_dup c 0 1 lst w2 fs2) 1 = Some (In_File f)"
    using assms(4,5) w2 by (auto simp: child_dup_def split: option.splits)
  ultimately show ?thesis by blast
qed

text \<open>In the background the child closes the write end of its pipe before it would make it its standard
  output: the first command of a background pipeline is not connected.\<close>

theorem background_not_connected:
  assumes "runnable env c" "redirect_in_path c = None" "redirect_out_path c = None" "w \<noteq> 1"
  shows "\<exists>t. child_body env c 0 1 0 True w fs = Exec (command_args c) t \<and> fd_get t 1 = fd_get fs 1"
  using assms by (auto simp: child_body_def child_out_def child_in_def child_dup_def runnable_def)


section \<open>Children\<close>

text \<open>The signal handler collects every child that has ended and no other.\<close>

lemma signalHandler_collects:
  assumes "\<forall>c\<in>set cs. 0 < fst c"
  shows "signalHandler cs = filter (\<lambda>c. \<not> snd c) cs"
  using assms
proof (induction cs rule: signalHandler.induct)
  case (1 cs)
  show ?case
  proof (cases "find_idx snd cs")
    case None
    then have "filter (\<lambda>c. \<not> snd c) cs = cs" by (auto simp: find_idx_None)
    with None show ?thesis by (subst signalHandler.simps) (simp add: waitpid_nohang_def)
  next
    case (Some i)
    define cs' where "cs' = take i cs @ drop (i + 1) cs"
    have i: "i < length cs" "snd (cs ! i)" using find_idx_SomeD [OF Some] by auto
    have w: "waitpid_nohang cs = (fst (cs ! i), cs')" using Some i(1) by (auto simp: waitpid_nohang_def cs'_def)
    have p: "0 < fst (cs ! i)" using "1.prems" i(1) by simp
    have "signalHandler cs = signalHandler cs'" using w p by (subst signalHandler.simps) simp
    also have "\<dots> = filter (\<lambda>c. \<not> snd c) cs'"
      using "1.IH" [OF w [symmetric]] p "1.prems" by (auto simp: cs'_def dest: in_set_takeD in_set_dropD)
    also have "\<dots> = filter (\<lambda>c. \<not> snd c) cs"
      using id_take_nth_drop [OF i(1)] i(2) unfolding cs'_def by (metis (no_types, lifting) Suc_eq_plus1 filter.simps(2) filter_append)
    finally show ?thesis .
  qed
qed

end
