(* ===== verification/Spec2Isabelle.thy ===== *)
theory Spec2Isabelle
  imports FS_Props TLS_Props Thread_Props Sync_Mutex Shell_Run
begin

text \<open>
  A verification development of the EC440 operating-systems projects: a shell and its parser
  (projects 0 and 1), a user-level threading library (project 2), mutexes and barriers on top of
  it (project 3), thread-local storage with copy on write (project 4), and a file system on a
  virtual disk (project 5). The projects are separate programs. Inside them the shell calls
  the parser, the synchronisation functions call the scheduler of the threading library, and the
  file system calls the disk.

  \<^bold>\<open>Conventions\<close> (\<open>Prelude\<close>). Structs are records, enums datatypes, one definition stands for
  one C function or one loop of it. State is passed explicitly. \<open>None\<close> is behaviour that C leaves
  undefined (subscripts out of range, null or freed pointers, uninitialised variables) and, where
  a loop is a \<open>partial_function\<close>, a loop that does not end; error codes are results under \<open>Some\<close>.
  Unsigned integers are words. System calls and other code outside the repository are
  parameters: the records \<open>os\<close> (host files), \<open>tls_env\<close> (\<open>mmap\<close>), \<open>machine\<close> (the mangling key and addresses) and
  \<open>os_env\<close> (programs, files, forks, and which calls of \<open>wait\<close> return). \<open>malloc\<close> does not fail.

  \<^bold>\<open>Project 5, file system\<close> (\<^verbatim>\<open>disk.c\<close>, \<^verbatim>\<open>fs.c\<close>).
  \<^item> \<open>Disk\<close>: the five functions of the disk over host files. The locale \<open>block_device\<close> is the
    contract the file system relies on, interpreted on \<open>block_read\<close> and \<open>block_write\<close>.
  \<^item> \<open>FS_Layout\<close>, \<open>File_System\<close>: the structures with their byte layout, the globals as the record
    \<open>fs\<close>, and all functions from \<open>make_fs\<close> to \<open>fs_truncate\<close>.
  \<^item> \<open>FS_Chain\<close>, \<open>FS_Inv\<close>: the inode table as linked lists of blocks, the invariant \<open>fs_wf\<close>, and the
    abstraction to a map from names to byte sequences. \<open>FS_Names\<close>, \<open>FS_IO\<close>, \<open>FS_Mount\<close>: every
    operation keeps the invariant and acts on the abstraction as its specification says.
  \<^item> \<open>FS_Props\<close>: every operation returns the value and the bytes, and makes the change, that an abstract
    file system computes from its own state (\<open>spec_exec\<close>); round trips, the errors of
    each operation, and what goes wrong: reads past the end, leaked blocks, positions left beyond
    the end of a truncated file, and the 16
    directory entries that survive a remount. Fuel for walking a chain is the table size, which is enough because chains have no
    duplicates.

  \<^bold>\<open>Project 4, thread-local storage\<close> (\<^verbatim>\<open>tls.c\<close>).
  \<^item> \<open>TLS\<close>: the hash table of items, storage areas, pages and mapped memory as explicit heaps, and
    every function, including the page-fault handler. \<open>Find\<close> and \<open>Remove\<close> are partial functions.
  \<^item> \<open>TLS_Table\<close>: the locale \<open>tid_map\<close>, the contract of the table, interpreted on its chains as \<open>Add\<close> links them.
    \<open>TLS_Inv\<close>, \<open>TLS_IO\<close>, \<open>TLS_Create\<close>, \<open>TLS_Fault\<close>: the invariant (chains, exact reference
    counts, protection) and the effect of each operation on the map from threads to bytes.
  \<^item> \<open>TLS_Props\<close>: traces refine the abstract map, clones are isolated, the handler decides
    correctly, \<open>Find\<close> returns the only item of the thread that is linked in the table; \<open>tls_destroy\<close> leaves a dangling item, wrapped lengths transfer nothing.

  \<^bold>\<open>Project 2, threads\<close> (\<^verbatim>\<open>threads.c\<close>, \<^verbatim>\<open>ec440threads.h\<close>).
  \<^item> \<open>Threads\<close>: the scheduler, creation and exit, and the assembly helpers on a small processor
    state. What \<open>setjmp\<close> stores is a parameter; a function that calls \<open>longjmp\<close> returns the buffer.
  \<^item> \<open>Thread_Sched\<close>, \<open>Thread_Props\<close>: the search loop is round robin, exactly one thread runs, a
    ready thread runs within 128 steps (locale \<open>round_robin_system\<close>, interpreted on the steps of
    the library), new threads enter their start routine, slots are never reused.

  \<^bold>\<open>Project 3, synchronisation\<close> (\<^verbatim>\<open>threads.c\<close>, \<^verbatim>\<open>ec440threads.h\<close>). The scheduler in these files repeats
  that of project 2.
  \<^item> \<open>Thread_Sync\<close>: mutexes, barriers and the wait list. A function that can lose control is
    a sequence of atomic segments, one per program point.
  \<^item> \<open>Sync_Queue\<close>: the locale \<open>fifo\<close>, whose clients put and take in any order as with a list,
    interpreted on the linked list. \<open>Sync_Machine\<close>: the step relation
    of threads that call, run segments and are interrupted by the alarm between any two
    segments. \<open>Sync_Inv\<close>: its invariant, by rule induction.
  \<^item> \<open>Sync_Two\<close>: the steps of two threads, from which concrete runs are put together. \<open>Sync_Barrier\<close>:
    what a step does to a barrier, the counter of a barrier and the barrier for one thread as
    invariants of runs. \<open>Sync_Props\<close>: the
    barrier never opens early, but stays closed when it is entered again at once, and a barrier for one
    thread never opens; the mutex does not exclude, the unlock hands nothing over.
  \<^item> \<open>Sync_Life\<close>, \<open>Library_Props\<close>: the whole library from the start of the program, where threads are also
    created and end and control blocks are made and destroyed. Its invariant combines those of
    projects 2 and 3; it tells exactly where a thread can come to a halt inside the library.
    Creation, exit, initialisation and destruction are single steps here; blocks given out by
    \<open>malloc\<close> are new.
  \<^item> \<open>Sync_Wake\<close>: the wait list is the queue that the events of a run describe, and threads are woken
    in order. \<open>Sync_Mutex\<close>: the mutex excludes as long as the alarm spares the window
    between test and update; otherwise a wake-up can also be lost.

  \<^bold>\<open>Projects 0 and 1, shell\<close> (\<^verbatim>\<open>myshell_parser.c\<close>, \<^verbatim>\<open>myshell.c\<close>).
  \<^item> \<open>Shell_Parser\<close>: the parser with the string functions of the C library it uses, and
    \<open>pipeline_free\<close> on a heap of pointers. \<open>Shell_Words\<close>: tokens, the two loops of
    \<open>deleteWords\<close>, redirections.
  \<^item> \<open>Shell_Props\<close>: every pipeline whose commands are words followed by redirections is read back,
    unless a file name occurs in another word; array bounds and the exact
    buffer size hold for every line; which redirections fail. The locale
    \<open>command_parser\<close> is what the shell relies on.
  \<^item> \<open>Shell\<close>, \<open>Shell_Run\<close>: \<open>execCommand\<close>, the main loop and the signal handler on descriptor
    tables; the commands of a pipeline are connected in order, the shell keeps its
    descriptors and ends when every \<open>wait\<close> returns, and where redirections and background pipelines go wrong.

  \<^bold>\<open>Not modelled.\<close>
  \<^item> Threads: the timer and signal set-up, which only the alarm event of \<open>Sync_Machine\<close> represents; alarms
    inside a segment, that is inside one statement outside \<open>lock\<close> and \<open>unlock\<close>, or between the last
    test and the assignment of \<open>pthread_barrier_wait\<close>, or inside \<open>pthread_create\<close> and \<open>pthread_exit\<close>.
    In particular \<open>schedule\<close> is one step, although the source runs it with the alarm unmasked and
    installs it with \<open>SA_NODEFER\<close>: an alarm after its search loop resumes later with a stale
    \<open>current_tid\<close> and can leave two threads marked as running. The properties of projects 2 and
    3 hold where that does not happen. Mutex and barrier calls of the main thread before the first
    \<open>pthread_create\<close> are outside the machine, which lets only a thread marked as running make a call.
  \<^item> Thread-local storage: the mutex around \<open>tls_write\<close> and \<open>tls_read\<close> (calls are atomic here).
    \<open>malloc\<close> always returns new addresses, the properties assume that \<open>mmap\<close> succeeds with an unmapped
    page (\<open>vm_ok\<close>), and \<open>ref_count\<close> is an unbounded integer.
  \<^item> Shell: what the started programs do, beyond whether \<open>wait\<close> returns; the error messages, a
    failure of \<open>pipe\<close> or \<open>malloc\<close>, and the interference of the signal handler with \<open>wait\<close>. A pipeline
    is a value while it is built and executed; for its release it is laid out on the heap of
    pointers (\<open>heap_of\<close>) on which \<open>pipeline_free\<close> works.
  \<^item> The test programs and makefiles. The parser of project 1 and the scheduler of project 3 are copies
    of modelled code.
\<close>

end
